(* ===== verification/Prelude.thy ===== *)
theory Prelude
  imports Main "HOL-Library.Word"
begin

text \<open>
  What the components share: the exceptions of the program and results of fallible calls, Python
  strings as lists of code points, decimal numerals, and tables of rows with the statements of SQL
  that the program issues on them (\<open>UPDATE .. WHERE\<close>, \<open>SELECT\<close>), with their lemmas.
\<close>

named_theorems table_simps \<open>rewriting of updates, row counts and lookups of tables\<close>
named_theorems result_simps \<open>rewriting of fallible computations\<close>

section \<open>Exceptions and results\<close>

text \<open>
  One constructor per exception class the code raises itself or lets through: the program's own
  classes (\<open>VendorError\<close>, \<open>TransientError\<close>, \<open>PoisonError\<close>), the built-in ones, and the errors of
  the client libraries that the code meets. \<open>InfraError\<close> stands for any other exception of a driver
  (a lost connection, a timeout).
\<close>

datatype exn =
    VendorError | TransientError | PoisonError | RuntimeError
  | ValueError | IndexError | AttributeError | TypeError
  | UnicodeEncodeError | UnicodeDecodeError
  | ValidationError | JSONDecodeError
  | S3Error | NoResultFound | IntegrityError | PreconditionFailed | InfraError

type_synonym 'a res = "exn + 'a"

definition bind_res :: "'a res \<Rightarrow> ('a \<Rightarrow> 'b res) \<Rightarrow> 'b res" where
  "bind_res m k = (case m of Inl e \<Rightarrow> Inl e | Inr a \<Rightarrow> k a)"

lemma bind_res_simps [simp, result_simps]:
  "bind_res (Inl e) k = Inl e"
  "bind_res (Inr a) k = k a"
  by (simp_all add: bind_res_def)

lemma bind_res_Inr_iff [result_simps]:
  "bind_res m k = Inr b \<longleftrightarrow> (\<exists>a. m = Inr a \<and> k a = Inr b)"
  by (cases m) simp_all

text \<open>A list comprehension whose element expression may raise: left to right, first error wins.\<close>

fun map_res :: "('a \<Rightarrow> 'b res) \<Rightarrow> 'a list \<Rightarrow> 'b list res" where
  "map_res f [] = Inr []"
| "map_res f (x # xs) = bind_res (f x) (\<lambda>y. bind_res (map_res f xs) (\<lambda>ys. Inr (y # ys)))"

lemma map_res_Inr_map [result_simps]:
  "(\<And>x. x \<in> set xs \<Longrightarrow> f x = Inr (g x)) \<Longrightarrow> map_res f xs = Inr (map g xs)"
  by (induction xs) simp_all

lemma map_res_Inr_length: "map_res f xs = Inr ys \<Longrightarrow> length ys = length xs"
  by (induction xs arbitrary: ys) (auto simp: bind_res_Inr_iff)

section \<open>Python strings\<close>

text \<open>
  A Python \<open>str\<close> is a sequence of code points. Texts that come from a client are of this type;
  identifiers, keys and queue names are ASCII and are kept as \<open>string\<close>, which \<open>lit\<close> embeds.
\<close>

type_synonym pystr = "nat list"
type_synonym bytes = "8 word list"

definition lit :: "string \<Rightarrow> pystr" where
  "lit s = map of_char s"

lemma lit_simps [simp]:
  "lit [] = []"
  "lit (c # cs) = of_char c # lit cs"
  "lit (s @ t) = lit s @ lit t"
  "length (lit s) = length s"
  by (simp_all add: lit_def)

section \<open>Decimal numerals\<close>

text \<open>\<open>str(n)\<close> of an integer, as f-strings use it for block indices and delays.\<close>

definition digit_char :: "nat \<Rightarrow> char" where
  "digit_char d = char_of (48 + d)"

fun nat_str :: "nat \<Rightarrow> string" where
  "nat_str n = (if n < 10 then [digit_char n] else nat_str (n div 10) @ [digit_char (n mod 10)])"

declare nat_str.simps [simp del]

definition int_str :: "int \<Rightarrow> string" where
  "int_str k = (if k < 0 then ''-'' @ nat_str (nat (- k)) else nat_str (nat k))"

lemma of_digit_char: "d < 10 \<Longrightarrow> of_char (digit_char d) = (48 + d :: nat)"
  by (simp add: digit_char_def)

lemma digit_char_inj: "d < 10 \<Longrightarrow> e < 10 \<Longrightarrow> digit_char d = digit_char e \<longleftrightarrow> d = e"
  by (metis of_digit_char add_left_cancel)

lemma nat_str_digits: "c \<in> set (nat_str n) \<Longrightarrow> of_char c \<in> {48..57 :: nat}"
proof (induction n rule: nat_str.induct)
  case (1 n)
  show ?case
  proof (cases "n < 10")
    case True
    with "1.prems" show ?thesis by (simp add: nat_str.simps [of n] of_digit_char)
  next
    case False
    with "1.prems" consider "c \<in> set (nat_str (n div 10))" | "c = digit_char (n mod 10)"
      by (auto simp: nat_str.simps [of n])
    then show ?thesis
      using "1.IH" False by cases (simp_all add: of_digit_char)
  qed
qed

lemma nat_str_no_dash [simp]: "CHR ''-'' \<notin> set (nat_str n)"
  using nat_str_digits [of "CHR ''-''" n] by auto

lemma nat_str_nonempty [simp]: "nat_str n \<noteq> []"
  by (subst nat_str.simps) simp

lemma nat_str_inj [simp]: "nat_str m = nat_str n \<longleftrightarrow> m = n"
proof
  show "nat_str m = nat_str n \<Longrightarrow> m = n"
  proof (induction m arbitrary: n rule: nat_str.induct)
    case (1 m)
    have last_digit: "digit_char (m mod 10) = digit_char (n mod 10)"
      using arg_cong [OF "1.prems", of last]
      by (simp add: nat_str.simps [of m] nat_str.simps [of n] split: if_splits)
    then have mod_eq: "m mod 10 = n mod 10" by (simp add: digit_char_inj)
    show ?case
    proof (cases "m < 10 \<or> n < 10")
      case True
      then have "length (nat_str m) = 1 \<or> length (nat_str n) = 1"
        by (auto simp: nat_str.simps [of m] nat_str.simps [of n])
      with "1.prems" have "m < 10 \<and> n < 10"
        by (auto simp: nat_str.simps [of m] nat_str.simps [of n] split: if_splits)
      with mod_eq show ?thesis by simp
    next
      case False
      with "1.prems" have "nat_str (m div 10) = nat_str (n div 10)"
        by (simp add: nat_str.simps [of m] nat_str.simps [of n])
      with "1.IH" False have "m div 10 = n div 10" by simp
      with mod_eq show ?thesis by (metis div_mult_mod_eq)
    qed
  qed
qed simp

lemma dash_nat_str [simp]: "CHR ''-'' # s \<noteq> nat_str n" "nat_str n \<noteq> CHR ''-'' # s"
proof -
  show "CHR ''-'' # s \<noteq> nat_str n"
  proof
    assume "CHR ''-'' # s = nat_str n"
    then have "CHR ''-'' \<in> set (nat_str n)" by (rule subst) simp
    then show False by simp
  qed
  then show "nat_str n \<noteq> CHR ''-'' # s" by (rule not_sym)
qed

lemma int_str_inj [simp]: "int_str j = int_str k \<longleftrightarrow> j = k"
  by (auto simp: int_str_def)

lemma nat_str_0 [simp]: "nat_str 0 = ''0''"
  by (simp add: nat_str.simps digit_char_def char_of_def bit_0)

text \<open>
  \<open>prefix-number\<close> strings are unambiguous: the number has no dash, so the last dash separates it.
\<close>

lemma takeWhile_sep: "c \<notin> set b \<Longrightarrow> takeWhile (\<lambda>x. x \<noteq> c) (rev (a @ c # b)) = rev b"
  by (subst rev_append, subst rev.simps, subst append_assoc, subst takeWhile_append2) auto

lemma append_sep_inj:
  assumes "c \<notin> set b" and "c \<notin> set b'"
  shows "a @ c # b = a' @ c # b' \<longleftrightarrow> a = a' \<and> b = b'"
proof
  assume eq: "a @ c # b = a' @ c # b'"
  then have "rev b = rev b'"
    using takeWhile_sep [OF assms(1), of a] takeWhile_sep [OF assms(2), of a'] by simp
  with eq show "a = a' \<and> b = b'" by simp
qed simp

section \<open>Tables\<close>

text \<open>
  A table is the list of its rows. \<open>sql_update P f\<close> is \<open>UPDATE t SET f WHERE P\<close>; \<open>rowcount P\<close> the
  number of rows the statement touches; \<open>row_get key k\<close> is \<open>session.get\<close> by primary key.
\<close>

definition sql_update :: "('r \<Rightarrow> bool) \<Rightarrow> ('r \<Rightarrow> 'r) \<Rightarrow> 'r list \<Rightarrow> 'r list" where
  "sql_update P f rows = map (\<lambda>r. if P r then f r else r) rows"

definition rowcount :: "('r \<Rightarrow> bool) \<Rightarrow> 'r list \<Rightarrow> nat" where
  "rowcount P rows = length (filter P rows)"

definition row_get :: "('r \<Rightarrow> 'k) \<Rightarrow> 'k \<Rightarrow> 'r list \<Rightarrow> 'r option" where
  "row_get key k rows = find (\<lambda>r. key r = k) rows"

lemma table_Nil [simp, table_simps]:
  "sql_update P f [] = []" "rowcount P [] = 0" "row_get key k [] = None"
  by (simp_all add: sql_update_def rowcount_def row_get_def)

lemma table_Cons [simp, table_simps]:
  "sql_update P f (r # rs) = (if P r then f r else r) # sql_update P f rs"
  "rowcount P (r # rs) = (if P r then Suc (rowcount P rs) else rowcount P rs)"
  "row_get key k (r # rs) = (if key r = k then Some r else row_get key k rs)"
  by (simp_all add: sql_update_def rowcount_def row_get_def)

lemma rowcount_append [simp, table_simps]: "rowcount P (rs @ ss) = rowcount P rs + rowcount P ss"
  by (simp add: rowcount_def)

lemma row_get_append [table_simps]:
  "row_get key k (rs @ ss) = (case row_get key k rs of Some r \<Rightarrow> Some r | None \<Rightarrow> row_get key k ss)"
  by (induction rs) simp_all

lemma sql_update_length [simp, table_simps]: "length (sql_update P f rs) = length rs"
  by (simp add: sql_update_def)

lemma sql_update_keys [table_simps]:
  "(\<And>r. key (f r) = key r) \<Longrightarrow> map key (sql_update P f rs) = map key rs"
  by (simp add: sql_update_def)

lemma sql_update_none [table_simps]: "rowcount P rs = 0 \<Longrightarrow> sql_update P f rs = rs"
  by (induction rs) (auto split: if_splits)

lemma rowcount_zero_iff [table_simps]: "rowcount P rs = 0 \<longleftrightarrow> (\<forall>r \<in> set rs. \<not> P r)"
  by (simp add: rowcount_def filter_empty_conv)

lemma rowcount_update_same:
  "(\<And>r. r \<in> set rs \<Longrightarrow> P r \<Longrightarrow> Q (f r) = Q r) \<Longrightarrow> rowcount Q (sql_update P f rs) = rowcount Q rs"
  by (induction rs) (auto split: if_splits)

lemma rowcount_mono: "(\<And>r. r \<in> set rs \<Longrightarrow> P r \<Longrightarrow> Q r) \<Longrightarrow> rowcount P rs \<le> rowcount Q rs"
  by (induction rs) (auto intro: le_SucI)

lemma rowcount_cong: "(\<And>r. r \<in> set rs \<Longrightarrow> P r = Q r) \<Longrightarrow> rowcount P rs = rowcount Q rs"
  by (induction rs) auto

text \<open>An update that takes every touched row out of \<open>Q\<close> lowers its count by the rows touched.\<close>

lemma rowcount_update_leave:
  assumes "\<And>r. r \<in> set rs \<Longrightarrow> P r \<Longrightarrow> Q r \<and> \<not> Q (f r)"
  shows "rowcount Q (sql_update P f rs) + rowcount P rs = rowcount Q rs"
  using assms by (induction rs) auto

lemma row_get_SomeD: "row_get key k rs = Some r \<Longrightarrow> r \<in> set rs \<and> key r = k"
  by (induction rs) (auto split: if_splits)

lemma row_get_None_iff: "row_get key k rs = None \<longleftrightarrow> k \<notin> key ` set rs"
  by (induction rs) auto

lemma row_get_unique:
  "distinct (map key rs) \<Longrightarrow> r \<in> set rs \<Longrightarrow> row_get key (key r) rs = Some r"
  by (induction rs) (auto simp: rev_image_eqI)

text \<open>At most one row of a table with a primary key is touched by a statement on that key.\<close>

lemma rowcount_key_le_1:
  "distinct (map key rs) \<Longrightarrow> rowcount (\<lambda>r. key r = k \<and> P r) rs \<le> 1"
proof (induction rs)
  case (Cons r rs)
  have "key r = k \<Longrightarrow> rowcount (\<lambda>r. key r = k \<and> P r) rs = 0"
    using Cons.prems by (auto simp: rowcount_zero_iff rev_image_eqI)
  with Cons show ?case by auto
qed simp

lemma rowcount_key:
  assumes "distinct (map key rs)"
  shows "rowcount (\<lambda>r. key r = k \<and> P r) rs =
    (case row_get key k rs of Some r \<Rightarrow> (if P r then 1 else 0) | None \<Rightarrow> 0)"
  using assms
proof (induction rs)
  case (Cons r rs)
  have "key r = k \<Longrightarrow> rowcount (\<lambda>r. key r = k \<and> P r) rs = 0"
    using Cons.prems by (auto simp: rowcount_zero_iff rev_image_eqI)
  with Cons show ?case by auto
qed simp

lemma row_get_update [table_simps]:
  assumes "\<And>r. key (f r) = key r"
  shows "row_get key k (sql_update P f rs) =
    map_option (\<lambda>r. if P r then f r else r) (row_get key k rs)"
  using assms by (induction rs) auto

lemma filter_update_missing [table_simps]:
  "k \<notin> key ` set rs \<Longrightarrow> filter (\<lambda>r. key r = k) (sql_update (\<lambda>r. key r = k \<and> P r) f rs) = []"
  by (induction rs) auto

lemma filter_update_key:
  assumes "distinct (map key rs)" and "row_get key k rs = Some r" and "\<And>r. key (f r) = key r"
  shows "filter (\<lambda>r. key r = k) (sql_update (\<lambda>r. key r = k) f rs) = [f r]"
  using assms
proof (induction rs)
  case (Cons x xs)
  show ?case
  proof (cases "key x = k")
    case True
    with Cons.prems have "k \<notin> key ` set xs" by auto
    with True Cons.prems show ?thesis
      using filter_update_missing [of k key xs "\<lambda>_. True" f] by simp
  next
    case False
    with Cons show ?thesis by simp
  qed
qed simp

lemma update_key_missing:
  "k \<notin> key ` set rs \<Longrightarrow> sql_update (\<lambda>r. key r = k \<and> P r) f rs = rs"
  by (induction rs) auto

text \<open>A statement on one primary key changes the count of a predicate by that row alone.\<close>

lemma rowcount_update_key:
  assumes "distinct (map key rs)" and "row_get key k rs = Some r" and "P r"
  shows "rowcount Q (sql_update (\<lambda>r. key r = k \<and> P r) f rs) + (if Q r then 1 else 0)
    = rowcount Q rs + (if Q (f r) then 1 else 0)"
  using assms
proof (induction rs)
  case (Cons x xs)
  show ?case
  proof (cases "key x = k")
    case True
    with Cons.prems have "x = r" "k \<notin> key ` set xs" by auto
    with True Cons.prems(3) show ?thesis by (simp add: update_key_missing)
  next
    case False
    with Cons show ?thesis by auto
  qed
qed simp

section \<open>Sequences of operations\<close>

text \<open>The results of a sequence of operations on a state, and the state they leave.\<close>

primrec run_all :: "('op \<Rightarrow> 's \<Rightarrow> 's \<times> 'r) \<Rightarrow> 'op list \<Rightarrow> 's \<Rightarrow> 's \<times> 'r list" where
  "run_all f [] s = (s, [])"
| "run_all f (x # xs) s =
    (let (s', r) = f x s; (s'', rs) = run_all f xs s' in (s'', r # rs))"

lemma run_all_Cons:
  "run_all f (x # xs) s =
    (fst (run_all f xs (fst (f x s))), snd (f x s) # snd (run_all f xs (fst (f x s))))"
  by (simp add: split_beta Let_def)

end
