(* ===== verification/Job_State.thy ===== *)
theory Job_State
  imports Prelude
begin

text \<open>
  \<open>core/domain/state.py\<close>: the job status machine. \<open>LEGAL\<close> is the table of legal transitions,
  \<open>can_transition\<close> the predicate on it and \<open>expected_for\<close> the set that the compare-and-set guards
  of \<open>core/infra/queries.py\<close> are built from. The statuses are ordered by progress, and every legal
  transition goes up in that order.
\<close>

datatype JobStatus = PENDING | PARSING | GENERATING | STITCHING | COMPLETED | FAILED

definition all_status :: "JobStatus list" where
  "all_status = [PENDING, PARSING, GENERATING, STITCHING, COMPLETED, FAILED]"

definition LEGAL :: "(JobStatus \<times> JobStatus list) list" where
  "LEGAL =
    [(PENDING, [PARSING, FAILED]),
     (PARSING, [GENERATING, FAILED]),
     (GENERATING, [STITCHING, FAILED]),
     (STITCHING, [COMPLETED, FAILED]),
     (COMPLETED, []),
     (FAILED, [])]"

definition can_transition :: "JobStatus \<Rightarrow> JobStatus \<Rightarrow> bool" where
  "can_transition current next_status =
    (next_status \<in> set (case map_of LEGAL current of Some allowed \<Rightarrow> allowed | None \<Rightarrow> []))"

definition expected_for :: "JobStatus \<Rightarrow> JobStatus list" where
  "expected_for next_status = [current. (current, allowed) \<leftarrow> LEGAL, next_status \<in> set allowed]"

fun progress :: "JobStatus \<Rightarrow> nat" where
  "progress PENDING = 0"
| "progress PARSING = 1"
| "progress GENERATING = 2"
| "progress STITCHING = 3"
| "progress COMPLETED = 4"
| "progress FAILED = 5"

definition terminal :: "JobStatus \<Rightarrow> bool" where
  "terminal s \<longleftrightarrow> s = COMPLETED \<or> s = FAILED"

instantiation JobStatus :: linorder
begin

definition less_eq_JobStatus :: "JobStatus \<Rightarrow> JobStatus \<Rightarrow> bool" where
  "less_eq_JobStatus s t \<longleftrightarrow> progress s \<le> progress t"

definition less_JobStatus :: "JobStatus \<Rightarrow> JobStatus \<Rightarrow> bool" where
  "less_JobStatus s t \<longleftrightarrow> progress s < progress t"

instance
proof
  fix s t :: JobStatus
  show "s \<le> t \<Longrightarrow> t \<le> s \<Longrightarrow> s = t"
    by (cases s; cases t) (simp_all add: less_eq_JobStatus_def)
qed (auto simp: less_eq_JobStatus_def less_JobStatus_def)

end

lemmas status_order_defs = less_eq_JobStatus_def less_JobStatus_def

lemma all_status_complete: "set all_status = UNIV" "distinct all_status"
  by (auto simp: all_status_def intro: JobStatus.exhaust)

lemma can_transition_iff:
  "can_transition s t \<longleftrightarrow>
    (s, t) \<in> {(PENDING, PARSING), (PARSING, GENERATING), (GENERATING, STITCHING),
      (STITCHING, COMPLETED), (PENDING, FAILED), (PARSING, FAILED), (GENERATING, FAILED),
      (STITCHING, FAILED)}"
  by (cases s) (auto simp: can_transition_def LEGAL_def)

lemma expected_for_simps [simp]:
  "expected_for PENDING = []"
  "expected_for PARSING = [PENDING]"
  "expected_for GENERATING = [PARSING]"
  "expected_for STITCHING = [GENERATING]"
  "expected_for COMPLETED = [STITCHING]"
  "expected_for FAILED = [PENDING, PARSING, GENERATING, STITCHING]"
  by (simp_all add: expected_for_def LEGAL_def)

lemma expected_for_iff: "s \<in> set (expected_for t) \<longleftrightarrow> can_transition s t"
  by (cases s; cases t) (simp_all add: can_transition_def LEGAL_def)

lemma can_transition_less: "can_transition s t \<Longrightarrow> s < t"
  by (auto simp: can_transition_iff less_JobStatus_def)

lemma terminal_no_successor: "terminal s \<longleftrightarrow> (\<forall>t. \<not> can_transition s t)"
  by (cases s) (auto simp: terminal_def can_transition_iff)

text \<open>
  The life of a job: a chain of statuses in which each is the same as the one before it (a write
  that lost its compare-and-set) or a legal successor.
\<close>

definition status_step :: "JobStatus \<Rightarrow> JobStatus \<Rightarrow> bool" where
  "status_step s t \<longleftrightarrow> s = t \<or> can_transition s t"

definition status_reach :: "JobStatus \<Rightarrow> JobStatus \<Rightarrow> bool" where
  "status_reach = status_step\<^sup>*\<^sup>*"

lemma status_step_le: "status_step s t \<Longrightarrow> s \<le> t"
  by (auto simp: status_step_def dest: can_transition_less)

lemma status_reach_refl [simp, intro]: "status_reach s s"
  by (simp add: status_reach_def)

lemma status_reach_step: "status_reach s t \<Longrightarrow> status_step t u \<Longrightarrow> status_reach s u"
  unfolding status_reach_def by (rule rtranclp.rtrancl_into_rtrancl)

lemma status_reach_trans: "status_reach s t \<Longrightarrow> status_reach t u \<Longrightarrow> status_reach s u"
  unfolding status_reach_def by (rule rtranclp_trans)

lemma status_reach_one: "can_transition s t \<Longrightarrow> status_reach s t"
  by (blast intro: status_reach_step status_step_def [THEN iffD2])

lemma status_reach_le: "status_reach s t \<Longrightarrow> s \<le> t"
  unfolding status_reach_def
  by (induction rule: rtranclp_induct) (auto dest: status_step_le)

lemma status_reach_terminal: "status_reach s t \<Longrightarrow> terminal s \<Longrightarrow> t = s"
  unfolding status_reach_def
  by (induction rule: rtranclp_induct) (auto simp: status_step_def terminal_no_successor)

text \<open>
  Reachability is completely known: a job moves up in the order, and a completed job stays so.
\<close>

lemma status_reach_iff: "status_reach s t \<longleftrightarrow> s = t \<or> (\<not> terminal s \<and> s < t)"
proof
  assume "status_reach s t"
  then show "s = t \<or> (\<not> terminal s \<and> s < t)"
    using status_reach_le [of s t] status_reach_terminal [of s t] by auto
next
  have chain: "status_reach PENDING PARSING" "status_reach PARSING GENERATING"
    "status_reach GENERATING STITCHING" "status_reach STITCHING COMPLETED"
    "\<And>s. \<not> terminal s \<Longrightarrow> status_reach s FAILED"
    by (auto intro!: status_reach_one simp: can_transition_iff terminal_def)
       (metis JobStatus.exhaust)+
  assume "s = t \<or> (\<not> terminal s \<and> s < t)"
  then show "status_reach s t"
    using chain
    by (cases s; cases t)
       (auto simp: less_JobStatus_def terminal_def intro: status_reach_trans)
qed

end
