(* ===== verification/Db.thy ===== *)
theory Db
  imports Job_State
begin

text \<open>
  \<open>core/infra/db.py\<close> and \<open>core/infra/queries.py\<close>: the three tables and every transaction the
  services run on them. A table is the list of its rows; each operation below is one transaction,
  from the start of the session to its commit, and returns the database as committed (unchanged
  when the transaction raises and is rolled back). The clock of the database server is a field.

  The invariant \<open>wf_db\<close> holds the primary keys, the unique index and the foreign key;
  \<open>fan_in_ok\<close> ties every job's \<open>pending_count\<close> to the number of its unresolved tasks.
\<close>

section \<open>Tables\<close>

datatype TaskStatus = T_PENDING | T_DONE | T_FAILED

record Job =
  j_id :: string
  j_status :: JobStatus
  pending_count :: int
  manuscript_key :: string
  final_key :: "string option"
  callback_url :: "pystr option"
  j_created_at :: int
  j_updated_at :: int

record Task =
  t_id :: string
  t_job :: string
  block_index :: nat
  block_hash :: string
  t_status :: TaskStatus
  audio_key :: "string option"
  t_created_at :: int
  t_updated_at :: int

record ProcessedEvent =
  pe_id :: string
  consumed_at :: int

record db =
  jobs :: "Job list"
  tasks :: "Task list"
  processed_events :: "ProcessedEvent list"
  db_now :: int

definition empty_db :: db where
  "empty_db = \<lparr>jobs = [], tasks = [], processed_events = [], db_now = 0\<rparr>"

abbreviation get_job :: "db \<Rightarrow> string \<Rightarrow> Job option" where
  "get_job d i \<equiv> row_get j_id i (jobs d)"

abbreviation get_task :: "db \<Rightarrow> string \<Rightarrow> Task option" where
  "get_task d i \<equiv> row_get t_id i (tasks d)"

section \<open>Transactions of \<open>queries.py\<close>\<close>

definition scalar_one :: "'a list \<Rightarrow> 'a res" where
  "scalar_one rows = (case rows of [x] \<Rightarrow> Inr x | _ \<Rightarrow> Inl NoResultFound)"

text \<open>
  \<open>UPDATE jobs SET pending_count = pending_count - 1 WHERE job_id = .. RETURNING pending_count\<close>, the
  second statement of both fan-in transactions.
\<close>

definition decrement_pending :: "db \<Rightarrow> string \<Rightarrow> db \<times> int res" where
  "decrement_pending d jid =
    (let jobs' = sql_update (\<lambda>j. j_id j = jid)
           (\<lambda>j. j\<lparr>pending_count := pending_count j - 1, j_updated_at := db_now d\<rparr>) (jobs d)
     in (d\<lparr>jobs := jobs'\<rparr>, scalar_one (map pending_count (filter (\<lambda>j. j_id j = jid) jobs'))))"

text \<open>
  \<open>complete_task_and_decrement\<close>: the claim \<open>status <> 'DONE'\<close>, then the decrement; a missing job row
  raises before the commit, so the claim is rolled back.
\<close>

definition complete_task_and_decrement :: "db \<Rightarrow> string \<Rightarrow> string \<Rightarrow> string \<Rightarrow> db \<times> int option res" where
  "complete_task_and_decrement d jid tid key =
    (let claim = (\<lambda>t. t_id t = tid \<and> t_status t \<noteq> T_DONE);
         d1 = d\<lparr>tasks := sql_update claim
           (\<lambda>t. t\<lparr>t_status := T_DONE, audio_key := Some key, t_updated_at := db_now d\<rparr>) (tasks d)\<rparr>
     in if rowcount claim (tasks d) = 0 then (d, Inr None)
        else case decrement_pending d1 jid of
            (d2, Inr remaining) \<Rightarrow> (d2, Inr (Some remaining))
          | (_, Inl e) \<Rightarrow> (d, Inl e))"

definition fail_task_and_decrement :: "db \<Rightarrow> string \<Rightarrow> string \<Rightarrow> db \<times> int option res" where
  "fail_task_and_decrement d jid tid =
    (let claim = (\<lambda>t. t_id t = tid \<and> t_status t \<notin> {T_DONE, T_FAILED});
         d1 = d\<lparr>tasks := sql_update claim
           (\<lambda>t. t\<lparr>t_status := T_FAILED, t_updated_at := db_now d\<rparr>) (tasks d)\<rparr>
     in if rowcount claim (tasks d) = 0 then (d, Inr None)
        else case decrement_pending d1 jid of
            (d2, Inr remaining) \<Rightarrow> (d2, Inr (Some remaining))
          | (_, Inl e) \<Rightarrow> (d, Inl e))"

definition begin_parse :: "db \<Rightarrow> string \<Rightarrow> int \<Rightarrow> db \<times> bool" where
  "begin_parse d jid n_blocks =
    (let cas = (\<lambda>j. j_id j = jid \<and> j_status j = PENDING)
     in (d\<lparr>jobs := sql_update cas
           (\<lambda>j. j\<lparr>j_status := PARSING, pending_count := n_blocks, j_updated_at := db_now d\<rparr>) (jobs d)\<rparr>,
         rowcount cas (jobs d) = 1))"

definition advance_status :: "db \<Rightarrow> string \<Rightarrow> JobStatus \<Rightarrow> db \<times> bool" where
  "advance_status d jid to_status =
    (let cas = (\<lambda>j. j_id j = jid \<and> j_status j \<in> set (expected_for to_status))
     in (d\<lparr>jobs := sql_update cas
           (\<lambda>j. j\<lparr>j_status := to_status, j_updated_at := db_now d\<rparr>) (jobs d)\<rparr>,
         rowcount cas (jobs d) = 1))"

definition finalize_job :: "db \<Rightarrow> string \<Rightarrow> string \<Rightarrow> db \<times> bool" where
  "finalize_job d jid key =
    (let cas = (\<lambda>j. j_id j = jid \<and> j_status j \<in> set (expected_for COMPLETED))
     in (d\<lparr>jobs := sql_update cas
           (\<lambda>j. j\<lparr>j_status := COMPLETED, final_key := Some key, j_updated_at := db_now d\<rparr>) (jobs d)\<rparr>,
         rowcount cas (jobs d) = 1))"

text \<open>\<open>SELECT status, count(*) GROUP BY status\<close>: statuses without rows are absent.\<close>

definition job_counts_by_status :: "db \<Rightarrow> (JobStatus \<times> nat) list" where
  "job_counts_by_status d =
    map (\<lambda>s. (s, rowcount (\<lambda>j. j_status j = s) (jobs d))) (remdups (map j_status (jobs d)))"

section \<open>Transactions of \<open>db.py\<close> and of the services\<close>

definition mark_event :: "db \<Rightarrow> string \<Rightarrow> db \<times> bool" where
  "mark_event d eid =
    (if eid \<in> set (map pe_id (processed_events d)) then (d, False)
     else (d\<lparr>processed_events := processed_events d @ [\<lparr>pe_id = eid, consumed_at = db_now d\<rparr>]\<rparr>, True))"

definition purge_processed_events :: "db \<Rightarrow> int \<Rightarrow> db \<times> nat" where
  "purge_processed_events d older_than_seconds =
    (let expired = (\<lambda>e. consumed_at e < db_now d - older_than_seconds)
     in (d\<lparr>processed_events := filter (\<lambda>e. \<not> expired e) (processed_events d)\<rparr>,
         rowcount expired (processed_events d)))"

text \<open>The insert of the gateway: \<open>session.add(Job(..)); commit\<close>, with the column defaults.\<close>

definition insert_job :: "db \<Rightarrow> string \<Rightarrow> string \<Rightarrow> pystr option \<Rightarrow> db res" where
  "insert_job d jid key callback =
    (if jid \<in> set (map j_id (jobs d)) then Inl IntegrityError
     else Inr (d\<lparr>jobs := jobs d @
       [\<lparr>j_id = jid, j_status = PENDING, pending_count = 0, manuscript_key = key, final_key = None,
         callback_url = callback, j_created_at = db_now d, j_updated_at = db_now d\<rparr>]\<rparr>))"

text \<open>
  \<open>INSERT INTO tasks VALUES rows ON CONFLICT (job_id, block_index) DO NOTHING\<close>: a row of a job that
  does not exist violates the foreign key; a row whose index pair exists is skipped; any other
  duplicate of the primary key is an error.
\<close>

fun insert_tasks :: "Task list \<Rightarrow> db \<Rightarrow> db res" where
  "insert_tasks [] d = Inr d"
| "insert_tasks (r # rs) d =
    (if t_job r \<notin> set (map j_id (jobs d)) then Inl IntegrityError
     else if \<exists>t \<in> set (tasks d). t_job t = t_job r \<and> block_index t = block_index r
       then insert_tasks rs d
     else if t_id r \<in> set (map t_id (tasks d)) then Inl IntegrityError
     else insert_tasks rs (d\<lparr>tasks := tasks d @ [r]\<rparr>))"

text \<open>
  The chunk query of the stitch handler: \<open>WHERE job_id = .. AND status = 'DONE' ORDER BY block_index\<close>,
  and the comprehension that drops rows without an audio key.
\<close>

definition done_tasks :: "db \<Rightarrow> string \<Rightarrow> Task list" where
  "done_tasks d jid = sort_key block_index (filter (\<lambda>t. t_job t = jid \<and> t_status t = T_DONE) (tasks d))"

definition chunk_keys :: "db \<Rightarrow> string \<Rightarrow> string list" where
  "chunk_keys d jid = List.map_filter audio_key (done_tasks d jid)"

text \<open>The query of the sweeper.\<close>

definition stale_pending :: "db \<Rightarrow> int \<Rightarrow> string list" where
  "stale_pending d pending_timeout_s =
    map j_id (filter (\<lambda>j. j_status j = PENDING \<and> j_created_at j < db_now d - pending_timeout_s) (jobs d))"

lemmas query_defs =
  complete_task_and_decrement_def fail_task_and_decrement_def begin_parse_def advance_status_def
  finalize_job_def

section \<open>Integrity\<close>

definition wf_db :: "db \<Rightarrow> bool" where
  "wf_db d \<longleftrightarrow>
    distinct (map j_id (jobs d)) \<and> distinct (map t_id (tasks d))
    \<and> distinct (map (\<lambda>t. (t_job t, block_index t)) (tasks d))
    \<and> (\<forall>t \<in> set (tasks d). t_job t \<in> set (map j_id (jobs d)))
    \<and> distinct (map pe_id (processed_events d))"

definition pending_tasks :: "db \<Rightarrow> string \<Rightarrow> nat" where
  "pending_tasks d jid = rowcount (\<lambda>t. t_job t = jid \<and> t_status t = T_PENDING) (tasks d)"

lemma wf_empty_db [simp]: "wf_db empty_db"
  by (simp add: wf_db_def empty_db_def)

lemma wf_db_keys: "wf_db d \<Longrightarrow> distinct (map j_id (jobs d)) \<and> distinct (map t_id (tasks d))"
  by (simp add: wf_db_def)

text \<open>Updates that keep keys keep integrity.\<close>

lemma wf_db_update_jobs:
  assumes "wf_db d" and "\<And>j. j_id (f j) = j_id j"
  shows "wf_db (d\<lparr>jobs := sql_update P f (jobs d)\<rparr>)"
  using assms sql_update_keys [of j_id f P "jobs d"] by (simp add: wf_db_def)

lemma wf_db_update_tasks:
  assumes "wf_db d" and "\<And>t. t_id (f t) = t_id t" "\<And>t. t_job (f t) = t_job t"
    "\<And>t. block_index (f t) = block_index t"
  shows "wf_db (d\<lparr>tasks := sql_update P f (tasks d)\<rparr>)"
proof -
  have "map (\<lambda>t. (t_job t, block_index t)) (sql_update P f (tasks d)) =
      map (\<lambda>t. (t_job t, block_index t)) (tasks d)"
    using assms by (intro sql_update_keys) simp
  moreover have "map t_id (sql_update P f (tasks d)) = map t_id (tasks d)"
    using assms by (intro sql_update_keys) simp
  moreover have "t_job ` set (sql_update P f (tasks d)) = t_job ` set (tasks d)"
    using assms(3) sql_update_keys [of t_job f P "tasks d"] by (metis list.set_map)
  ultimately show ?thesis
    using assms(1) unfolding wf_db_def by simp (metis (no_types, lifting) image_iff)
qed

lemma decrement_pending_Some:
  assumes "wf_db d" and "get_job d jid = Some j"
  shows "decrement_pending d jid =
    (d\<lparr>jobs := sql_update (\<lambda>j. j_id j = jid)
        (\<lambda>j. j\<lparr>pending_count := pending_count j - 1, j_updated_at := db_now d\<rparr>) (jobs d)\<rparr>,
     Inr (pending_count j - 1))"
  using assms filter_update_key [of j_id "jobs d" jid j]
  by (simp add: decrement_pending_def wf_db_def scalar_one_def)

lemma decrement_pending_None:
  assumes "get_job d jid = None"
  shows "snd (decrement_pending d jid) = Inl NoResultFound"
  using assms filter_update_missing [of jid j_id "jobs d" "\<lambda>_. True"]
  by (simp add: decrement_pending_def scalar_one_def row_get_None_iff)

end
