(* ===== verification/Fan_In.thy ===== *)
theory Fan_In
  imports Db
begin

text \<open>
  The fan-in barrier of \<open>core/infra/queries.py\<close>. Each transaction keeps the integrity of the tables
  and moves a job's status only along the status machine; the barrier transactions keep the
  counter of a job equal to the number of its unresolved tasks, so that of all callers exactly one
  sees the counter reach zero. The abstract contract of a barrier is the locale \<open>fan_in\<close>; the
  transactions are interpreted in it. The one gap of the claim \<open>status <> 'DONE'\<close>, a task that was
  dead-lettered and then completed, is the side condition of these facts.
\<close>

section \<open>What the transactions do\<close>

definition claim_done :: "db \<Rightarrow> string \<Rightarrow> string \<Rightarrow> Task list" where
  "claim_done d tid key = sql_update (\<lambda>t. t_id t = tid \<and> t_status t \<noteq> T_DONE)
    (\<lambda>t. t\<lparr>t_status := T_DONE, audio_key := Some key, t_updated_at := db_now d\<rparr>) (tasks d)"

definition claim_failed :: "db \<Rightarrow> string \<Rightarrow> Task list" where
  "claim_failed d tid = sql_update (\<lambda>t. t_id t = tid \<and> t_status t \<notin> {T_DONE, T_FAILED})
    (\<lambda>t. t\<lparr>t_status := T_FAILED, t_updated_at := db_now d\<rparr>) (tasks d)"

definition decremented :: "db \<Rightarrow> string \<Rightarrow> Job list" where
  "decremented d jid = sql_update (\<lambda>j. j_id j = jid)
    (\<lambda>j. j\<lparr>pending_count := pending_count j - 1, j_updated_at := db_now d\<rparr>) (jobs d)"

lemma wf_claim_done: "wf_db d \<Longrightarrow> wf_db (d\<lparr>tasks := claim_done d tid key\<rparr>)"
  unfolding claim_done_def by (rule wf_db_update_tasks) simp_all

lemma wf_claim_failed: "wf_db d \<Longrightarrow> wf_db (d\<lparr>tasks := claim_failed d tid\<rparr>)"
  unfolding claim_failed_def by (rule wf_db_update_tasks) simp_all

lemma complete_cases:
  assumes "wf_db d"
  shows "complete_task_and_decrement d jid tid key =
    (case get_task d tid of
       None \<Rightarrow> (d, Inr None)
     | Some t \<Rightarrow>
         if t_status t = T_DONE then (d, Inr None)
         else case get_job d jid of
             None \<Rightarrow> (d, Inl NoResultFound)
           | Some j \<Rightarrow> (d\<lparr>tasks := claim_done d tid key, jobs := decremented d jid\<rparr>,
                Inr (Some (pending_count j - 1))))"
proof -
  let ?d1 = "d\<lparr>tasks := claim_done d tid key\<rparr>"
  have count: "rowcount (\<lambda>t. t_id t = tid \<and> t_status t \<noteq> T_DONE) (tasks d) = 0 \<longleftrightarrow>
      (case get_task d tid of None \<Rightarrow> True | Some t \<Rightarrow> t_status t = T_DONE)"
    using assms rowcount_key [of t_id "tasks d" tid "\<lambda>t. t_status t \<noteq> T_DONE"]
    by (auto simp: wf_db_def split: option.splits)
  have dec: "decrement_pending ?d1 jid = (?d1\<lparr>jobs := decremented d jid\<rparr>, Inr (pending_count j - 1))"
    if "get_job d jid = Some j" for j
    using decrement_pending_Some [OF wf_claim_done [OF assms], where jid = jid and j = j] that
    by (simp add: decremented_def)
  have miss: "snd (decrement_pending ?d1 jid) = Inl NoResultFound" if "get_job d jid = None"
    using decrement_pending_None [of jid ?d1] that by simp
  show ?thesis
  proof (cases "get_job d jid")
    case None
    with miss have "\<exists>d2. decrement_pending ?d1 jid = (d2, Inl NoResultFound)" by (metis prod.collapse)
    with None show ?thesis
      unfolding complete_task_and_decrement_def Let_def claim_done_def [symmetric]
      by (auto simp: count split: option.splits)
  next
    case (Some j)
    with dec show ?thesis
      unfolding complete_task_and_decrement_def Let_def claim_done_def [symmetric]
      by (auto simp: count split: option.splits)
  qed
qed

lemma fail_cases:
  assumes "wf_db d"
  shows "fail_task_and_decrement d jid tid =
    (case get_task d tid of
       None \<Rightarrow> (d, Inr None)
     | Some t \<Rightarrow>
         if t_status t \<noteq> T_PENDING then (d, Inr None)
         else case get_job d jid of
             None \<Rightarrow> (d, Inl NoResultFound)
           | Some j \<Rightarrow> (d\<lparr>tasks := claim_failed d tid, jobs := decremented d jid\<rparr>,
                Inr (Some (pending_count j - 1))))"
proof -
  let ?d1 = "d\<lparr>tasks := claim_failed d tid\<rparr>"
  have open_iff: "s \<notin> {T_DONE, T_FAILED} \<longleftrightarrow> s = T_PENDING" for s by (cases s) auto
  have count: "rowcount (\<lambda>t. t_id t = tid \<and> t_status t \<notin> {T_DONE, T_FAILED}) (tasks d) = 0 \<longleftrightarrow>
      (case get_task d tid of None \<Rightarrow> True | Some t \<Rightarrow> t_status t \<noteq> T_PENDING)"
    using assms rowcount_key [of t_id "tasks d" tid "\<lambda>t. t_status t \<notin> {T_DONE, T_FAILED}"]
    by (simp only: open_iff wf_db_def) (auto split: option.splits)
  have dec: "decrement_pending ?d1 jid = (?d1\<lparr>jobs := decremented d jid\<rparr>, Inr (pending_count j - 1))"
    if "get_job d jid = Some j" for j
    using decrement_pending_Some [OF wf_claim_failed [OF assms], where jid = jid and j = j] that
    by (simp add: decremented_def)
  have miss: "snd (decrement_pending ?d1 jid) = Inl NoResultFound" if "get_job d jid = None"
    using decrement_pending_None [of jid ?d1] that by simp
  show ?thesis
  proof (cases "get_job d jid")
    case None
    with miss have "\<exists>d2. decrement_pending ?d1 jid = (d2, Inl NoResultFound)" by (metis prod.collapse)
    with None show ?thesis
      unfolding fail_task_and_decrement_def Let_def claim_failed_def [symmetric] count
      by (auto split: option.splits)
  next
    case (Some j)
    with dec show ?thesis
      unfolding fail_task_and_decrement_def Let_def claim_failed_def [symmetric] count
      by (auto split: option.splits)
  qed
qed

section \<open>Integrity is kept\<close>

lemma wf_decremented: "wf_db d \<Longrightarrow> wf_db (d\<lparr>jobs := decremented d jid\<rparr>)"
  unfolding decremented_def by (rule wf_db_update_jobs) simp_all

lemma wf_resolved:
  assumes "wf_db (d\<lparr>tasks := ts\<rparr>)"
  shows "wf_db (d\<lparr>tasks := ts, jobs := decremented d jid\<rparr>)"
  using wf_decremented [OF assms, of jid] by (simp add: decremented_def)

lemma wf_complete: "wf_db d \<Longrightarrow> wf_db (fst (complete_task_and_decrement d jid tid key))"
  by (simp add: complete_cases wf_resolved wf_claim_done split: option.split)

lemma wf_fail: "wf_db d \<Longrightarrow> wf_db (fst (fail_task_and_decrement d jid tid))"
  by (simp add: fail_cases wf_resolved wf_claim_failed split: option.split)

lemma wf_begin_parse: "wf_db d \<Longrightarrow> wf_db (fst (begin_parse d jid n))"
  by (simp add: begin_parse_def wf_db_update_jobs Let_def)

lemma wf_advance: "wf_db d \<Longrightarrow> wf_db (fst (advance_status d jid s))"
  by (simp add: advance_status_def wf_db_update_jobs Let_def)

lemma wf_finalize: "wf_db d \<Longrightarrow> wf_db (fst (finalize_job d jid key))"
  by (simp add: finalize_job_def wf_db_update_jobs Let_def)

lemma wf_insert_job: "wf_db d \<Longrightarrow> insert_job d jid key cb = Inr d' \<Longrightarrow> wf_db d'"
  by (auto simp: insert_job_def wf_db_def split: if_splits)

lemma wf_insert_tasks: "wf_db d \<Longrightarrow> insert_tasks rows d = Inr d' \<Longrightarrow> wf_db d'"
proof (induction rows arbitrary: d)
  case (Cons r rows)
  consider "insert_tasks rows d = Inr d'"
    | "t_job r \<in> j_id ` set (jobs d)" "t_id r \<notin> t_id ` set (tasks d)"
      "\<forall>t \<in> set (tasks d). t_job t = t_job r \<longrightarrow> block_index t \<noteq> block_index r"
      "insert_tasks rows (d\<lparr>tasks := tasks d @ [r]\<rparr>) = Inr d'"
    using Cons.prems(2) by (auto split: if_splits)
  then show ?case
  proof cases
    case 1
    with Cons show ?thesis by blast
  next
    case 2
    have "wf_db (d\<lparr>tasks := tasks d @ [r]\<rparr>)"
      using Cons.prems(1) 2 by (auto simp: wf_db_def)
    with 2 Cons.IH show ?thesis by blast
  qed
qed simp

lemma wf_mark_event: "wf_db d \<Longrightarrow> wf_db (fst (mark_event d eid))"
  by (auto simp: mark_event_def wf_db_def)

lemma wf_purge: "wf_db d \<Longrightarrow> wf_db (fst (purge_processed_events d s))"
  by (auto simp: purge_processed_events_def wf_db_def distinct_map intro: inj_on_subset)

lemmas wf_queries =
  wf_complete wf_fail wf_begin_parse wf_advance wf_finalize wf_insert_job wf_insert_tasks
  wf_mark_event wf_purge

section \<open>Statuses move along the machine\<close>

text \<open>
  The status of a job in two databases, the later one after a transaction: the job is still there
  and its status is the same or a legal successor.
\<close>

definition statuses_step :: "db \<Rightarrow> db \<Rightarrow> bool" where
  "statuses_step d d' \<longleftrightarrow>
    (\<forall>i j. get_job d i = Some j \<longrightarrow>
      (\<exists>j'. get_job d' i = Some j' \<and> status_step (j_status j) (j_status j')
        \<and> manuscript_key j' = manuscript_key j \<and> callback_url j' = callback_url j))"

lemma statuses_step_refl [simp, intro]: "statuses_step d d"
  by (simp add: statuses_step_def status_step_def)

lemma statuses_step_update:
  assumes "\<And>j. j_id (f j) = j_id j" "\<And>j. manuscript_key (f j) = manuscript_key j"
    "\<And>j. callback_url (f j) = callback_url j"
    and "\<And>j. P j \<Longrightarrow> status_step (j_status j) (j_status (f j))"
    and "jobs d' = sql_update P f (jobs d)"
  shows "statuses_step d d'"
  using assms by (auto simp: statuses_step_def row_get_update status_step_def)

lemma statuses_step_decremented: "statuses_step d (d\<lparr>tasks := ts, jobs := decremented d jid\<rparr>)"
  by (rule statuses_step_update [where P = "\<lambda>j. j_id j = jid" and
        f = "\<lambda>j. j\<lparr>pending_count := pending_count j - 1, j_updated_at := db_now d\<rparr>"])
     (simp_all add: decremented_def status_step_def)

lemma statuses_complete: "wf_db d \<Longrightarrow> statuses_step d (fst (complete_task_and_decrement d jid tid key))"
  by (simp add: complete_cases statuses_step_decremented split: option.split)

lemma statuses_fail: "wf_db d \<Longrightarrow> statuses_step d (fst (fail_task_and_decrement d jid tid))"
  by (simp add: fail_cases statuses_step_decremented split: option.split)

lemma statuses_begin_parse: "statuses_step d (fst (begin_parse d jid n))"
  unfolding begin_parse_def Let_def fst_conv
  by (rule statuses_step_update [where P = "\<lambda>j. j_id j = jid \<and> j_status j = PENDING"])
     (auto simp: status_step_def can_transition_iff)

lemma statuses_advance: "statuses_step d (fst (advance_status d jid s))"
  unfolding advance_status_def Let_def fst_conv
  by (rule statuses_step_update [where P = "\<lambda>j. j_id j = jid \<and> j_status j \<in> set (expected_for s)"])
     (auto simp: status_step_def expected_for_iff)

lemma statuses_finalize: "statuses_step d (fst (finalize_job d jid key))"
  unfolding finalize_job_def Let_def fst_conv
  by (rule statuses_step_update [where P = "\<lambda>j. j_id j = jid \<and> j_status j \<in> set (expected_for COMPLETED)"])
     (auto simp: status_step_def can_transition_iff)

lemma statuses_insert_job: "insert_job d jid key cb = Inr d' \<Longrightarrow> statuses_step d d'"
  by (auto simp: insert_job_def statuses_step_def status_step_def row_get_append split: if_splits)

lemma insert_tasks_jobs: "insert_tasks rows d = Inr d' \<Longrightarrow> jobs d' = jobs d"
proof (induction rows arbitrary: d)
  case (Cons r rows)
  then consider "insert_tasks rows d = Inr d'"
    | "insert_tasks rows (d\<lparr>tasks := tasks d @ [r]\<rparr>) = Inr d'"
    by (auto split: if_splits)
  then show ?case using Cons.IH by cases fastforce+
qed simp

lemma statuses_insert_tasks: "insert_tasks rows d = Inr d' \<Longrightarrow> statuses_step d d'"
  by (drule insert_tasks_jobs) (simp add: statuses_step_def status_step_def)

lemmas statuses_queries =
  statuses_complete statuses_fail statuses_begin_parse statuses_advance statuses_finalize
  statuses_insert_job statuses_insert_tasks

section \<open>The counter counts the unresolved tasks\<close>

definition fan_in_ok :: "db \<Rightarrow> bool" where
  "fan_in_ok d \<longleftrightarrow>
    (\<forall>j \<in> set (jobs d).
      (j_status j = PENDING \<longrightarrow> pending_count j = 0 \<and> (\<forall>t \<in> set (tasks d). t_job t \<noteq> j_id j))
      \<and> (j_status j \<notin> {PENDING, FAILED} \<longrightarrow> pending_count j = int (pending_tasks d (j_id j))))"

lemma pending_claim_done:
  assumes "wf_db d" and "get_task d tid = Some t" and "t_status t = T_PENDING"
  shows "pending_tasks (d\<lparr>tasks := claim_done d tid key\<rparr>) i + (if t_job t = i then 1 else 0)
    = pending_tasks d i"
  using assms rowcount_update_key [of t_id "tasks d" tid t "\<lambda>t. t_status t \<noteq> T_DONE"
      "\<lambda>t. t_job t = i \<and> t_status t = T_PENDING"
      "\<lambda>t. t\<lparr>t_status := T_DONE, audio_key := Some key, t_updated_at := db_now d\<rparr>"]
  by (simp add: pending_tasks_def claim_done_def wf_db_def split: if_splits)

lemma pending_claim_failed:
  assumes "wf_db d" and "get_task d tid = Some t" and "t_status t = T_PENDING"
  shows "pending_tasks (d\<lparr>tasks := claim_failed d tid\<rparr>) i + (if t_job t = i then 1 else 0)
    = pending_tasks d i"
  using assms rowcount_update_key [of t_id "tasks d" tid t "\<lambda>t. t_status t \<notin> {T_DONE, T_FAILED}"
      "\<lambda>t. t_job t = i \<and> t_status t = T_PENDING"
      "\<lambda>t. t\<lparr>t_status := T_FAILED, t_updated_at := db_now d\<rparr>"]
  by (simp add: pending_tasks_def claim_failed_def wf_db_def split: if_splits)

lemma pending_tasks_jobs [simp]: "pending_tasks (d\<lparr>jobs := js\<rparr>) i = pending_tasks d i"
  by (simp add: pending_tasks_def)

text \<open>The three ways a job row changes, as facts on the invariant.\<close>

lemma fan_in_ok_resolved:
  assumes ok: "fan_in_ok d" and job: "get_job d jid = Some j"
    and counts: "\<And>i. pending_tasks (d\<lparr>tasks := ts\<rparr>) i + (if i = jid then 1 else 0) = pending_tasks d i"
    and owners: "t_job ` set ts = t_job ` set (tasks d)"
  shows "fan_in_ok (d\<lparr>tasks := ts, jobs := decremented d jid\<rparr>)"
proof -
  have some_task: "\<exists>t \<in> set (tasks d). t_job t = jid"
  proof -
    have "pending_tasks d jid > 0" using counts [of jid] by simp
    then show ?thesis by (auto simp: pending_tasks_def rowcount_def filter_empty_conv)
  qed
  have none: "(\<forall>t \<in> set ts. t_job t \<noteq> i) \<longleftrightarrow> (\<forall>t \<in> set (tasks d). t_job t \<noteq> i)" for i
    using owners by (metis image_iff)
  show ?thesis
    unfolding fan_in_ok_def
  proof (intro ballI)
    fix j'
    assume "j' \<in> set (jobs (d\<lparr>tasks := ts, jobs := decremented d jid\<rparr>))"
    then obtain j0 where j0: "j0 \<in> set (jobs d)"
      and j': "j' = (if j_id j0 = jid
        then j0\<lparr>pending_count := pending_count j0 - 1, j_updated_at := db_now d\<rparr> else j0)"
      by (auto simp: decremented_def sql_update_def)
    from ok j0 have old: "j_status j0 = PENDING \<longrightarrow>
        pending_count j0 = 0 \<and> (\<forall>t \<in> set (tasks d). t_job t \<noteq> j_id j0)"
      "j_status j0 \<notin> {PENDING, FAILED} \<longrightarrow> pending_count j0 = int (pending_tasks d (j_id j0))"
      by (auto simp: fan_in_ok_def)
    have "j_status j0 = PENDING \<Longrightarrow> j_id j0 \<noteq> jid" using old(1) some_task by auto
    moreover have "pending_tasks (d\<lparr>tasks := ts, jobs := decremented d jid\<rparr>) (j_id j0) =
        pending_tasks (d\<lparr>tasks := ts\<rparr>) (j_id j0)"
      by (simp add: pending_tasks_def)
    ultimately show "(j_status j' = PENDING \<longrightarrow> pending_count j' = 0 \<and>
          (\<forall>t \<in> set (tasks (d\<lparr>tasks := ts, jobs := decremented d jid\<rparr>)). t_job t \<noteq> j_id j'))
        \<and> (j_status j' \<notin> {PENDING, FAILED} \<longrightarrow> pending_count j' =
          int (pending_tasks (d\<lparr>tasks := ts, jobs := decremented d jid\<rparr>) (j_id j')))"
      using old counts [of "j_id j0"] none by (auto simp: j')
  qed
qed

lemma task_owners_update:
  "(\<And>t. t_job (f t) = t_job t) \<Longrightarrow> t_job ` set (sql_update P f ts) = t_job ` set ts"
  by (metis list.set_map sql_update_keys)

lemma fan_in_complete:
  assumes "wf_db d" and "fan_in_ok d"
    and "\<And>t. get_task d tid = Some t \<Longrightarrow> t_job t = jid \<and> t_status t \<noteq> T_FAILED"
  shows "fan_in_ok (fst (complete_task_and_decrement d jid tid key))"
proof (cases "\<exists>t j. get_task d tid = Some t \<and> t_status t \<noteq> T_DONE \<and> get_job d jid = Some j")
  case True
  then obtain t j where t: "get_task d tid = Some t" "t_status t \<noteq> T_DONE" and j: "get_job d jid = Some j"
    by blast
  with assms(3) have "t_status t = T_PENDING" "t_job t = jid" by (auto intro: TaskStatus.exhaust)
  then have "pending_tasks (d\<lparr>tasks := claim_done d tid key\<rparr>) i + (if i = jid then 1 else 0)
      = pending_tasks d i" for i
    using pending_claim_done [OF assms(1) t(1), of key i] by (auto split: if_splits)
  moreover have "t_job ` set (claim_done d tid key) = t_job ` set (tasks d)"
    by (simp add: claim_done_def task_owners_update)
  ultimately have "fan_in_ok (d\<lparr>tasks := claim_done d tid key, jobs := decremented d jid\<rparr>)"
    by (intro fan_in_ok_resolved [OF assms(2) j])
  with assms(1) t j show ?thesis by (simp add: complete_cases)
next
  case False
  with assms show ?thesis by (auto simp: complete_cases split: option.split)
qed

lemma fan_in_fail:
  assumes "wf_db d" and "fan_in_ok d" and "\<And>t. get_task d tid = Some t \<Longrightarrow> t_job t = jid"
  shows "fan_in_ok (fst (fail_task_and_decrement d jid tid))"
proof (cases "\<exists>t j. get_task d tid = Some t \<and> t_status t = T_PENDING \<and> get_job d jid = Some j")
  case True
  then obtain t j where t: "get_task d tid = Some t" "t_status t = T_PENDING" and j: "get_job d jid = Some j"
    by blast
  with assms(3) have "t_job t = jid" by blast
  then have "pending_tasks (d\<lparr>tasks := claim_failed d tid\<rparr>) i + (if i = jid then 1 else 0)
      = pending_tasks d i" for i
    using pending_claim_failed [OF assms(1) t, of i] by (auto split: if_splits)
  moreover have "t_job ` set (claim_failed d tid) = t_job ` set (tasks d)"
    by (simp add: claim_failed_def task_owners_update)
  ultimately have "fan_in_ok (d\<lparr>tasks := claim_failed d tid, jobs := decremented d jid\<rparr>)"
    by (intro fan_in_ok_resolved [OF assms(2) j])
  with assms(1) t j show ?thesis by (simp add: fail_cases)
next
  case False
  with assms show ?thesis by (auto simp: fail_cases split: option.split)
qed

lemma fan_in_ok_update_status:
  assumes "fan_in_ok d" and "\<And>j. j_id (f j) = j_id j" "\<And>j. pending_count (f j) = pending_count j"
    and "\<And>j. P j \<Longrightarrow> can_transition (j_status j) (j_status (f j))"
  shows "fan_in_ok (d\<lparr>jobs := sql_update P f (jobs d)\<rparr>)"
  unfolding fan_in_ok_def
proof (intro ballI)
  fix j'
  assume "j' \<in> set (jobs (d\<lparr>jobs := sql_update P f (jobs d)\<rparr>))"
  then obtain j where j: "j \<in> set (jobs d)" and j': "j' = (if P j then f j else j)"
    by (auto simp: sql_update_def)
  have zero: "\<forall>t \<in> set (tasks d). t_job t \<noteq> j_id j \<Longrightarrow> pending_tasks d (j_id j) = 0"
    by (auto simp: pending_tasks_def rowcount_zero_iff)
  from assms(1) j have "(j_status j = PENDING \<longrightarrow>
        pending_count j = 0 \<and> (\<forall>t \<in> set (tasks d). t_job t \<noteq> j_id j))
      \<and> (j_status j \<notin> {PENDING, FAILED} \<longrightarrow> pending_count j = int (pending_tasks d (j_id j)))"
    by (auto simp: fan_in_ok_def)
  then show "(j_status j' = PENDING \<longrightarrow> pending_count j' = 0 \<and>
        (\<forall>t \<in> set (tasks (d\<lparr>jobs := sql_update P f (jobs d)\<rparr>)). t_job t \<noteq> j_id j'))
      \<and> (j_status j' \<notin> {PENDING, FAILED} \<longrightarrow>
        pending_count j' = int (pending_tasks (d\<lparr>jobs := sql_update P f (jobs d)\<rparr>) (j_id j')))"
    using assms(2,3) assms(4) [of j] zero by (cases "P j") (auto simp: j' can_transition_iff)
qed

lemma fan_in_advance: "fan_in_ok d \<Longrightarrow> fan_in_ok (fst (advance_status d jid s))"
  unfolding advance_status_def Let_def fst_conv
  by (rule fan_in_ok_update_status) (auto simp: expected_for_iff)

lemma fan_in_finalize: "fan_in_ok d \<Longrightarrow> fan_in_ok (fst (finalize_job d jid key))"
  unfolding finalize_job_def Let_def fst_conv
  by (rule fan_in_ok_update_status) (auto simp: can_transition_iff)

lemma fan_in_insert_job:
  "wf_db d \<Longrightarrow> fan_in_ok d \<Longrightarrow> insert_job d jid key cb = Inr d' \<Longrightarrow> fan_in_ok d'"
  by (fastforce simp: insert_job_def fan_in_ok_def wf_db_def pending_tasks_def split: if_splits)

section \<open>Rows after the compare-and-sets\<close>

lemma begin_parse_job:
  "get_job (fst (begin_parse d jid n)) i =
    map_option (\<lambda>j. if i = jid \<and> j_status j = PENDING
      then j\<lparr>j_status := PARSING, pending_count := n, j_updated_at := db_now d\<rparr> else j) (get_job d i)"
  using row_get_SomeD [of j_id i "jobs d"]
  by (cases "get_job d i") (auto simp: begin_parse_def Let_def row_get_update)

lemma advance_job:
  "get_job (fst (advance_status d jid s)) i =
    map_option (\<lambda>j. if i = jid \<and> can_transition (j_status j) s
      then j\<lparr>j_status := s, j_updated_at := db_now d\<rparr> else j) (get_job d i)"
  using row_get_SomeD [of j_id i "jobs d"]
  by (cases "get_job d i") (auto simp: advance_status_def Let_def row_get_update expected_for_iff)

lemma begin_advance_tasks [simp]:
  "tasks (fst (begin_parse d jid n)) = tasks d" "tasks (fst (advance_status d jid s)) = tasks d"
  "db_now (fst (begin_parse d jid n)) = db_now d" "db_now (fst (advance_status d jid s)) = db_now d"
  "processed_events (fst (begin_parse d jid n)) = processed_events d"
  by (simp_all add: begin_parse_def advance_status_def Let_def)

lemma finalize_job_row:
  "get_job (fst (finalize_job d jid key)) i =
    map_option (\<lambda>j. if i = jid \<and> j_status j = STITCHING
      then j\<lparr>j_status := COMPLETED, final_key := Some key, j_updated_at := db_now d\<rparr> else j) (get_job d i)"
  using row_get_SomeD [of j_id i "jobs d"]
  by (cases "get_job d i") (auto simp: finalize_job_def Let_def row_get_update)

lemma finalize_won:
  "wf_db d \<Longrightarrow> get_job d jid = Some j \<Longrightarrow> snd (finalize_job d jid key) \<longleftrightarrow> j_status j = STITCHING"
  using rowcount_key [of j_id "jobs d" jid "\<lambda>j. j_status j \<in> set (expected_for COMPLETED)"]
  by (simp add: finalize_job_def Let_def wf_db_def)

lemma complete_total:
  assumes "wf_db d" and "get_task d tid = Some t" and "get_job d jid = Some j"
  shows "\<exists>d' remaining. complete_task_and_decrement d jid tid key = (d', Inr remaining)"
  using assms by (cases "t_status t = T_DONE") (simp_all add: complete_cases)

section \<open>The contract of a fan-in barrier\<close>

text \<open>
  Operations that resolve parts of a whole: each either finds its part resolved and says nothing,
  or resolves it and says how many parts remain.
\<close>

definition zero_seen :: "int option res list \<Rightarrow> nat" where
  "zero_seen rs = rowcount (\<lambda>r. r = Inr (Some 0)) rs"

locale fan_in =
  fixes inv :: "'s \<Rightarrow> bool"
    and admissible :: "'op \<Rightarrow> bool"
    and apply_op :: "'op \<Rightarrow> 's \<Rightarrow> 's \<times> int option res"
    and outstanding :: "'s \<Rightarrow> nat"
  assumes inv_apply: "inv s \<Longrightarrow> admissible x \<Longrightarrow> inv (fst (apply_op x s))"
    and outcome: "inv s \<Longrightarrow> admissible x \<Longrightarrow>
      (snd (apply_op x s) = Inr None \<and> outstanding (fst (apply_op x s)) = outstanding s)
      \<or> (snd (apply_op x s) = Inr (Some (int (outstanding (fst (apply_op x s)))))
          \<and> outstanding s = Suc (outstanding (fst (apply_op x s))))"
begin

lemma run_inv:
  "inv s \<Longrightarrow> (\<And>x. x \<in> set xs \<Longrightarrow> admissible x) \<Longrightarrow> inv (fst (run_all apply_op xs s))"
  by (induction xs arbitrary: s) (simp_all add: run_all_Cons inv_apply del: run_all.simps(2))

lemma outstanding_le:
  "inv s \<Longrightarrow> (\<And>x. x \<in> set xs \<Longrightarrow> admissible x) \<Longrightarrow>
    outstanding (fst (run_all apply_op xs s)) \<le> outstanding s"
proof (induction xs arbitrary: s)
  case (Cons x xs)
  have "outstanding (fst (run_all apply_op xs (fst (apply_op x s)))) \<le> outstanding (fst (apply_op x s))"
    by (rule Cons.IH) (use Cons.prems inv_apply in auto)
  with outcome [of s x] Cons.prems show ?case by (auto simp: run_all_Cons simp del: run_all.simps(2))
qed simp

lemma exactly_one_zero:
  "inv s \<Longrightarrow> (\<And>x. x \<in> set xs \<Longrightarrow> admissible x) \<Longrightarrow>
    zero_seen (snd (run_all apply_op xs s)) =
      (if 0 < outstanding s \<and> outstanding (fst (run_all apply_op xs s)) = 0 then 1 else 0)"
proof (induction xs arbitrary: s)
  case Nil
  then show ?case by (cases "outstanding s") (simp_all add: zero_seen_def)
next
  case (Cons x xs)
  let ?s = "fst (apply_op x s)"
  have s: "inv ?s" using Cons.prems by (simp add: inv_apply)
  have IH: "zero_seen (snd (run_all apply_op xs ?s)) =
      (if 0 < outstanding ?s \<and> outstanding (fst (run_all apply_op xs ?s)) = 0 then 1 else 0)"
    by (rule Cons.IH [OF s]) (use Cons.prems in simp)
  have le: "outstanding (fst (run_all apply_op xs ?s)) \<le> outstanding ?s"
    by (rule outstanding_le [OF s]) (use Cons.prems in simp)
  show ?case
    using outcome [of s x] Cons.prems IH le
    by (auto simp: run_all_Cons zero_seen_def simp del: run_all.simps(2))
qed

text \<open>Whoever sees zero sees it when nothing is outstanding.\<close>

lemma zero_means_resolved:
  "inv s \<Longrightarrow> admissible x \<Longrightarrow> snd (apply_op x s) = Inr (Some 0) \<Longrightarrow>
    outstanding (fst (apply_op x s)) = 0"
  using outcome [of s x] by auto

end

section \<open>The barrier transactions meet the contract\<close>

datatype barrier_op = Complete string string | Fail string

fun apply_barrier :: "string \<Rightarrow> barrier_op \<Rightarrow> db \<Rightarrow> db \<times> int option res" where
  "apply_barrier jid (Complete tid key) d = complete_task_and_decrement d jid tid key"
| "apply_barrier jid (Fail tid) d = fail_task_and_decrement d jid tid"

text \<open>
  The tasks of \<open>C\<close> may be completed any number of times, those of \<open>F\<close> failed any number of times;
  no task is in both.
\<close>

fun barrier_admissible :: "string set \<Rightarrow> string set \<Rightarrow> barrier_op \<Rightarrow> bool" where
  "barrier_admissible C F (Complete tid key) = (tid \<in> C - F)"
| "barrier_admissible C F (Fail tid) = (tid \<in> F - C)"

definition barrier_inv :: "string \<Rightarrow> string set \<Rightarrow> string set \<Rightarrow> db \<Rightarrow> bool" where
  "barrier_inv jid C F d \<longleftrightarrow>
    wf_db d
    \<and> (\<exists>j. get_job d jid = Some j \<and> pending_count j = int (pending_tasks d jid))
    \<and> (\<forall>t \<in> set (tasks d). t_id t \<in> C \<union> F \<longrightarrow> t_job t = jid)
    \<and> (\<forall>t \<in> set (tasks d). t_id t \<in> C - F \<longrightarrow> t_status t \<noteq> T_FAILED)"

lemma get_job_decremented:
  "row_get j_id jid (decremented d jid) =
    map_option (\<lambda>j. j\<lparr>pending_count := pending_count j - 1, j_updated_at := db_now d\<rparr>) (get_job d jid)"
proof -
  have "row_get j_id jid (decremented d jid) =
      map_option (\<lambda>j. if j_id j = jid
        then j\<lparr>pending_count := pending_count j - 1, j_updated_at := db_now d\<rparr> else j) (get_job d jid)"
    unfolding decremented_def by (rule row_get_update) simp
  then show ?thesis by (cases "get_job d jid") (auto dest: row_get_SomeD)
qed

lemma barrier_inv_resolved:
  assumes inv: "barrier_inv jid C F d" and job: "get_job d jid = Some j"
    and wf: "wf_db (d\<lparr>tasks := sql_update P f (tasks d)\<rparr>)"
    and f: "\<And>t. t_id (f t) = t_id t" "\<And>t. t_job (f t) = t_job t"
      "\<And>t. P t \<Longrightarrow> t_id t \<in> C - F \<Longrightarrow> t_status (f t) \<noteq> T_FAILED"
    and count: "Suc (pending_tasks (d\<lparr>tasks := sql_update P f (tasks d)\<rparr>) jid) = pending_tasks d jid"
  shows "barrier_inv jid C F (d\<lparr>tasks := sql_update P f (tasks d), jobs := decremented d jid\<rparr>)"
    and "pending_count j - 1 =
      int (pending_tasks (d\<lparr>tasks := sql_update P f (tasks d), jobs := decremented d jid\<rparr>) jid)"
proof -
  have pc: "pending_count j = int (pending_tasks d jid)"
    using inv job by (auto simp: barrier_inv_def)
  then show now: "pending_count j - 1 =
      int (pending_tasks (d\<lparr>tasks := sql_update P f (tasks d), jobs := decremented d jid\<rparr>) jid)"
    using count by (simp add: pending_tasks_def)
  have rows: "(\<forall>t \<in> set (sql_update P f (tasks d)). t_id t \<in> C \<union> F \<longrightarrow> t_job t = jid)
      \<and> (\<forall>t \<in> set (sql_update P f (tasks d)). t_id t \<in> C - F \<longrightarrow> t_status t \<noteq> T_FAILED)"
    using inv f by (auto simp: barrier_inv_def sql_update_def)
  show "barrier_inv jid C F (d\<lparr>tasks := sql_update P f (tasks d), jobs := decremented d jid\<rparr>)"
    using wf_resolved [OF wf, of jid] now rows job
    by (simp add: barrier_inv_def get_job_decremented)
qed

lemma barrier_complete:
  fixes key :: string
  assumes inv: "barrier_inv jid C F d" and tid: "tid \<in> C - F"
  defines "r \<equiv> complete_task_and_decrement d jid tid key"
  shows "barrier_inv jid C F (fst r)
    \<and> ((snd r = Inr None \<and> pending_tasks (fst r) jid = pending_tasks d jid)
      \<or> (snd r = Inr (Some (int (pending_tasks (fst r) jid)))
        \<and> pending_tasks d jid = Suc (pending_tasks (fst r) jid)))"
proof (cases "\<exists>t. get_task d tid = Some t \<and> t_status t \<noteq> T_DONE")
  case True
  then obtain t where t: "get_task d tid = Some t" "t_status t \<noteq> T_DONE" by blast
  have wf: "wf_db d" using inv by (simp add: barrier_inv_def)
  have "t_status t = T_PENDING" "t_job t = jid"
    using inv tid t row_get_SomeD [OF t(1)]
    by (auto simp: barrier_inv_def intro: TaskStatus.exhaust [of "t_status t"])
  then have count: "Suc (pending_tasks (d\<lparr>tasks := claim_done d tid key\<rparr>) jid) = pending_tasks d jid"
    using pending_claim_done [OF wf t(1), of key jid] by simp
  obtain j where j: "get_job d jid = Some j" using inv by (auto simp: barrier_inv_def)
  have r: "r = (d\<lparr>tasks := claim_done d tid key, jobs := decremented d jid\<rparr>,
      Inr (Some (pending_count j - 1)))"
    unfolding r_def using wf t j by (simp add: complete_cases)
  have "barrier_inv jid C F (fst r)"
    and "pending_count j - 1 = int (pending_tasks (fst r) jid)"
    unfolding r fst_conv claim_done_def
    by (rule barrier_inv_resolved [OF inv j];
        use count wf_claim_done [OF wf, of tid key] in \<open>simp add: claim_done_def\<close>)+
  moreover have "pending_tasks d jid = Suc (pending_tasks (fst r) jid)"
    using count by (simp add: r pending_tasks_def)
  moreover have "snd r = Inr (Some (pending_count j - 1))" by (simp add: r)
  ultimately show ?thesis by simp
next
  case False
  have "wf_db d" using inv by (simp add: barrier_inv_def)
  with False have "r = (d, Inr None)"
    unfolding r_def by (auto simp: complete_cases split: option.split)
  with inv show ?thesis by simp
qed

lemma barrier_fail:
  assumes inv: "barrier_inv jid C F d" and tid: "tid \<in> F - C"
  defines "r \<equiv> fail_task_and_decrement d jid tid"
  shows "barrier_inv jid C F (fst r)
    \<and> ((snd r = Inr None \<and> pending_tasks (fst r) jid = pending_tasks d jid)
      \<or> (snd r = Inr (Some (int (pending_tasks (fst r) jid)))
        \<and> pending_tasks d jid = Suc (pending_tasks (fst r) jid)))"
proof (cases "\<exists>t. get_task d tid = Some t \<and> t_status t = T_PENDING")
  case True
  then obtain t where t: "get_task d tid = Some t" "t_status t = T_PENDING" by blast
  have wf: "wf_db d" using inv by (simp add: barrier_inv_def)
  have "t_job t = jid" using inv tid row_get_SomeD [OF t(1)] by (auto simp: barrier_inv_def)
  then have count: "Suc (pending_tasks (d\<lparr>tasks := claim_failed d tid\<rparr>) jid) = pending_tasks d jid"
    using pending_claim_failed [OF wf t, of jid] by simp
  obtain j where j: "get_job d jid = Some j" using inv by (auto simp: barrier_inv_def)
  have r: "r = (d\<lparr>tasks := claim_failed d tid, jobs := decremented d jid\<rparr>,
      Inr (Some (pending_count j - 1)))"
    unfolding r_def using wf t j by (simp add: fail_cases)
  have "barrier_inv jid C F (fst r)"
    and "pending_count j - 1 = int (pending_tasks (fst r) jid)"
    unfolding r fst_conv claim_failed_def
    by (rule barrier_inv_resolved [OF inv j];
        use count tid wf_claim_failed [OF wf, of tid] in \<open>auto simp: claim_failed_def\<close>)+
  moreover have "pending_tasks d jid = Suc (pending_tasks (fst r) jid)"
    using count by (simp add: r pending_tasks_def)
  moreover have "snd r = Inr (Some (pending_count j - 1))" by (simp add: r)
  ultimately show ?thesis by simp
next
  case False
  have "wf_db d" using inv by (simp add: barrier_inv_def)
  with False have "r = (d, Inr None)"
    unfolding r_def by (auto simp: fail_cases split: option.split)
  with inv show ?thesis by simp
qed

interpretation barrier: fan_in "barrier_inv jid C F" "barrier_admissible C F" "apply_barrier jid"
  "\<lambda>d. pending_tasks d jid" for jid :: string and C F :: "string set"
proof
  fix d x
  assume inv: "barrier_inv jid C F d" and adm: "barrier_admissible C F x"
  show "barrier_inv jid C F (fst (apply_barrier jid x d))"
    by (cases x) (use adm barrier_complete [OF inv] barrier_fail [OF inv] in auto)
  show "(snd (apply_barrier jid x d) = Inr None
        \<and> pending_tasks (fst (apply_barrier jid x d)) jid = pending_tasks d jid)
      \<or> (snd (apply_barrier jid x d) = Inr (Some (int (pending_tasks (fst (apply_barrier jid x d)) jid)))
        \<and> pending_tasks d jid = Suc (pending_tasks (fst (apply_barrier jid x d)) jid))"
    by (cases x) (use adm barrier_complete [OF inv] barrier_fail [OF inv] in auto)
qed

section \<open>Properties\<close>

text \<open>
  Two tasks of one job that are still to be resolved: the setting of the examples below.
\<close>

definition example_task :: "string \<Rightarrow> nat \<Rightarrow> TaskStatus \<Rightarrow> Task" where
  "example_task tid i st = \<lparr>t_id = tid, t_job = ''j'', block_index = i, block_hash = ''h'', t_status = st,
     audio_key = None, t_created_at = 0, t_updated_at = 0\<rparr>"

definition example_db :: db where
  "example_db = \<lparr>jobs = [\<lparr>j_id = ''j'', j_status = GENERATING, pending_count = 2, manuscript_key = ''raw/j.txt'',
       final_key = None, callback_url = None, j_created_at = 0, j_updated_at = 0\<rparr>],
     tasks = [example_task ''j-0'' 0 T_PENDING, example_task ''j-1'' 1 T_PENDING],
     processed_events = [], db_now = 0\<rparr>"

lemma example_db_ok: "wf_db example_db" "fan_in_ok example_db"
  by (simp_all add: wf_db_def fan_in_ok_def pending_tasks_def example_db_def example_task_def)

lemma example_barrier: "barrier_inv ''j'' {''j-0''} {''j-1''} example_db"
  using example_db_ok(1)
  by (simp add: barrier_inv_def) (simp add: example_db_def example_task_def pending_tasks_def)



text \<open>
  The counter of every job that is being worked on is the number of its unresolved tasks, and
  the completion of a task keeps this, as long as the task was not already given up by the
  dead-letter resolver.
\<close>

theorem counter_is_unresolved_tasks:
  assumes "wf_db d" and "fan_in_ok d"
    and "\<forall>t. get_task d tid = Some t \<longrightarrow> t_job t = jid \<and> t_status t \<noteq> T_FAILED"
  shows "fan_in_ok (fst (complete_task_and_decrement d jid tid key))"
  using assms by (intro fan_in_complete) auto

theorem counter_is_unresolved_tasks_witness:
  "fan_in_ok (fst (complete_task_and_decrement example_db ''j'' ''j-0'' ''k''))"
  by (rule counter_is_unresolved_tasks [OF example_db_ok])
     (simp add: example_db_def example_task_def)

text \<open>
  C12. A task that the dead-letter resolver has marked \<open>FAILED\<close> is not protected against a late
  completion: the claim of \<open>complete_task_and_decrement\<close> excludes \<open>DONE\<close> rows only, so the counter
  is decremented a second time for the same task and no longer counts the unresolved tasks.
\<close>

theorem failed_task_decrements_twice:
  assumes "wf_db d" and "get_job d jid = Some j" and "get_task d tid = Some t"
    and "t_status t = T_PENDING"
  shows "snd (fail_task_and_decrement d jid tid) = Inr (Some (pending_count j - 1))
    \<and> snd (complete_task_and_decrement (fst (fail_task_and_decrement d jid tid)) jid tid key) =
        Inr (Some (pending_count j - 2))"
proof -
  define d1 where "d1 = fst (fail_task_and_decrement d jid tid)"
  have d1: "d1 = d\<lparr>tasks := claim_failed d tid, jobs := decremented d jid\<rparr>"
    using assms by (simp add: d1_def fail_cases)
  have wf1: "wf_db d1" unfolding d1_def by (rule wf_fail [OF assms(1)])
  have "get_job d1 jid = Some (j\<lparr>pending_count := pending_count j - 1, j_updated_at := db_now d\<rparr>)"
    using assms(2) by (simp add: d1 get_job_decremented)
  moreover have "\<exists>t'. get_task d1 tid = Some t' \<and> t_status t' = T_FAILED"
    using assms(3,4) row_get_SomeD [OF assms(3)]
    by (simp add: d1 claim_failed_def row_get_update)
  ultimately show ?thesis
    using assms wf1 unfolding d1_def [symmetric] by (auto simp: fail_cases complete_cases)
qed

theorem failed_task_decrements_twice_witness:
  "snd (complete_task_and_decrement (fst (fail_task_and_decrement example_db ''j'' ''j-1'')) ''j'' ''j-1'' ''k'') =
     Inr (Some 0)
   \<and> pending_tasks (fst (complete_task_and_decrement
        (fst (fail_task_and_decrement example_db ''j'' ''j-1'')) ''j'' ''j-1'' ''k'')) ''j'' = 1"
proof -
  obtain j where j: "get_job example_db ''j'' = Some j" "pending_count j = 2"
    by (simp add: example_db_def)
  obtain t where t: "get_task example_db ''j-1'' = Some t" "t_status t = T_PENDING"
    by (simp add: example_db_def example_task_def)
  have "pending_tasks (fst (complete_task_and_decrement
      (fst (fail_task_and_decrement example_db ''j'' ''j-1'')) ''j'' ''j-1'' ''k'')) ''j'' = 1"
    by (simp add: example_db_def example_task_def pending_tasks_def query_defs decrement_pending_def
        scalar_one_def rowcount_def sql_update_def)
  with failed_task_decrements_twice [OF example_db_ok(1) j(1) t] j(2) show ?thesis by simp
qed

end
