(* ===== verification/Redis.thy ===== *)
theory Redis
  imports Prelude
begin

text \<open>
  \<open>core/infra/redis.py\<close>: the key space the adapter keeps in Redis, the commands it issues on it, the
  two Lua scripts and the methods of \<open>Semaphore\<close> and \<open>Cache\<close>. A string key has a value and an
  optional expiry, a list key its elements; the clock of the server is a field, and a key whose
  expiry has come is absent to every command. A Lua script is one atomic step; a method that
  issues several commands is given command by command, so that others can run between them.

  The contract of \<open>SET .. NX\<close> is the locale \<open>nx_store\<close>, on which the in-flight lock, the lease and
  the \<open>seen_once\<close> helper rest.
\<close>

section \<open>The key space and the commands\<close>

record redis =
  r_str :: "string \<Rightarrow> (string \<times> int option) option"
  r_list :: "string \<Rightarrow> string list"
  r_now :: int

definition empty_redis :: redis where
  "empty_redis = \<lparr>r_str = (\<lambda>_. None), r_list = (\<lambda>_. []), r_now = 0\<rparr>"

definition redis_get :: "redis \<Rightarrow> string \<Rightarrow> string option" where
  "redis_get r k =
    (case r_str r k of
       None \<Rightarrow> None
     | Some (v, None) \<Rightarrow> Some v
     | Some (v, Some e) \<Rightarrow> if r_now r < e then Some v else None)"

definition redis_put :: "redis \<Rightarrow> string \<Rightarrow> string \<Rightarrow> int option \<Rightarrow> redis" where
  "redis_put r k v ex = r\<lparr>r_str := (r_str r)(k := Some (v, map_option (\<lambda>t. r_now r + t) ex))\<rparr>"

definition redis_set_nx :: "redis \<Rightarrow> string \<Rightarrow> string \<Rightarrow> int option \<Rightarrow> redis \<times> bool" where
  "redis_set_nx r k v ex =
    (if redis_get r k = None then (redis_put r k v ex, True) else (r, False))"

definition redis_set_xx :: "redis \<Rightarrow> string \<Rightarrow> string \<Rightarrow> int option \<Rightarrow> redis \<times> bool" where
  "redis_set_xx r k v ex =
    (if redis_get r k \<noteq> None then (redis_put r k v ex, True) else (r, False))"

definition redis_delete :: "redis \<Rightarrow> string \<Rightarrow> redis" where
  "redis_delete r k = r\<lparr>r_str := (r_str r)(k := None), r_list := (r_list r)(k := [])\<rparr>"

definition redis_exists :: "redis \<Rightarrow> string \<Rightarrow> bool" where
  "redis_exists r k \<longleftrightarrow> redis_get r k \<noteq> None \<or> r_list r k \<noteq> []"

definition redis_rpush :: "redis \<Rightarrow> string \<Rightarrow> string \<Rightarrow> redis" where
  "redis_rpush r k v = r\<lparr>r_list := (r_list r)(k := r_list r k @ [v])\<rparr>"

text \<open>\<open>BLPOP\<close> on a list with an element; on an empty list it blocks (or times out).\<close>

definition redis_lpop :: "redis \<Rightarrow> string \<Rightarrow> (redis \<times> string) option" where
  "redis_lpop r k =
    (case r_list r k of [] \<Rightarrow> None | v # vs \<Rightarrow> Some (r\<lparr>r_list := (r_list r)(k := vs)\<rparr>, v))"

definition redis_tick :: "redis \<Rightarrow> nat \<Rightarrow> redis" where
  "redis_tick r dt = r\<lparr>r_now := r_now r + int dt\<rparr>"

lemmas redis_defs =
  redis_get_def redis_put_def redis_set_nx_def redis_set_xx_def redis_delete_def redis_exists_def
  redis_rpush_def redis_lpop_def redis_tick_def

section \<open>Keys\<close>

definition SLOTS_KEY :: string where
  "SLOTS_KEY = ''tts:slots''"

definition CACHE_PREFIX :: string where
  "CACHE_PREFIX = ''tts:cache:''"

definition INFLIGHT_PREFIX :: string where
  "INFLIGHT_PREFIX = ''tts:inflight:''"

definition TASK_DONE_PREFIX :: string where
  "TASK_DONE_PREFIX = ''task:done:''"

definition DEFAULT_CACHE_TTL :: int where
  "DEFAULT_CACHE_TTL = 86400"

definition DEFAULT_INFLIGHT_TTL :: int where
  "DEFAULT_INFLIGHT_TTL = 60"

definition DEFAULT_SEEN_TTL :: int where
  "DEFAULT_SEEN_TTL = 86400"

definition lease_key :: "string \<Rightarrow> string" where
  "lease_key token = ''tts:lease:'' @ token"

definition cache_key :: "string \<Rightarrow> string" where
  "cache_key content_hash = CACHE_PREFIX @ content_hash"

definition inflight_key :: "string \<Rightarrow> string" where
  "inflight_key content_hash = INFLIGHT_PREFIX @ content_hash"

definition done_key :: "string \<Rightarrow> string" where
  "done_key task_id = TASK_DONE_PREFIX @ task_id"

lemmas key_defs =
  lease_key_def cache_key_def inflight_key_def done_key_def SLOTS_KEY_def CACHE_PREFIX_def
  INFLIGHT_PREFIX_def TASK_DONE_PREFIX_def

section \<open>The semaphore\<close>

record Semaphore =
  slots :: int
  lease_ttl :: int
  slots_key :: string

definition init_marker :: "Semaphore \<Rightarrow> string" where
  "init_marker self = slots_key self @ '':init''"

text \<open>The tokens of the pool, \<open>str(0) .. str(N-1)\<close>.\<close>

definition pool_tokens :: "Semaphore \<Rightarrow> string list" where
  "pool_tokens self = map nat_str [0..<nat (slots self)]"

text \<open>\<open>_ENSURE_SLOTS_LUA\<close>, as \<open>ensure_slots\<close> runs it.\<close>

definition ensure_slots :: "Semaphore \<Rightarrow> redis \<Rightarrow> redis" where
  "ensure_slots self r =
    (if redis_get r (init_marker self) \<noteq> None then r
     else
       (let r1 = redis_delete r (slots_key self);
            r2 = fold (\<lambda>tok r. redis_rpush r (slots_key self) tok) (pool_tokens self) r1
        in redis_put r2 (init_marker self) ''1'' None))"

text \<open>\<open>_RECLAIM_LUA\<close> for one token; the result is the number of tokens returned to the pool.\<close>

definition reclaim :: "Semaphore \<Rightarrow> string \<Rightarrow> redis \<Rightarrow> redis \<times> int" where
  "reclaim self token r =
    (if redis_exists r (lease_key token) then (r, 0)
     else if token \<in> set (r_list r (slots_key self)) then (r, 0)
     else (redis_rpush r (slots_key self) token, 1))"

definition reap :: "Semaphore \<Rightarrow> redis \<Rightarrow> redis \<times> int" where
  "reap self r =
    fold (\<lambda>token (r, reclaimed). let (r', result) = reclaim self token r in (r', reclaimed + result))
      (pool_tokens self) (r, 0)"

text \<open>\<open>acquire\<close>: \<open>BLPOP\<close>, then the lease with \<open>SET NX EX\<close>.\<close>

definition acquire_pop :: "Semaphore \<Rightarrow> redis \<Rightarrow> (redis \<times> string) option" where
  "acquire_pop self r = redis_lpop r (slots_key self)"

definition acquire_lease :: "Semaphore \<Rightarrow> string \<Rightarrow> string \<Rightarrow> redis \<Rightarrow> redis" where
  "acquire_lease self token owner r =
    fst (redis_set_nx r (lease_key token) owner (Some (lease_ttl self)))"

text \<open>\<open>release\<close>: delete the lease, then \<open>RPUSH\<close> the token.\<close>

definition release_delete :: "Semaphore \<Rightarrow> string \<Rightarrow> redis \<Rightarrow> redis" where
  "release_delete self token r = redis_delete r (lease_key token)"

definition release_push :: "Semaphore \<Rightarrow> string \<Rightarrow> redis \<Rightarrow> redis" where
  "release_push self token r = redis_rpush r (slots_key self) token"

text \<open>One round of \<open>_heartbeat\<close>: \<open>SET XX EX\<close>.\<close>

definition heartbeat_renew :: "Semaphore \<Rightarrow> string \<Rightarrow> string \<Rightarrow> redis \<Rightarrow> redis" where
  "heartbeat_renew self token owner r =
    fst (redis_set_xx r (lease_key token) owner (Some (lease_ttl self)))"

section \<open>The cache and the fast path\<close>

record Cache =
  cache_ttl :: int
  inflight_ttl :: int

definition cache_get :: "Cache \<Rightarrow> string \<Rightarrow> redis \<Rightarrow> string option" where
  "cache_get self h r = redis_get r (cache_key h)"

definition cache_set :: "Cache \<Rightarrow> string \<Rightarrow> string \<Rightarrow> redis \<Rightarrow> redis" where
  "cache_set self h url r = redis_put r (cache_key h) url (Some (cache_ttl self))"

definition acquire_inflight :: "Cache \<Rightarrow> string \<Rightarrow> string \<Rightarrow> redis \<Rightarrow> redis \<times> bool" where
  "acquire_inflight self h owner r = redis_set_nx r (inflight_key h) owner (Some (inflight_ttl self))"

definition release_inflight :: "Cache \<Rightarrow> string \<Rightarrow> redis \<Rightarrow> redis" where
  "release_inflight self h r = redis_delete r (inflight_key h)"

definition seen_once :: "int \<Rightarrow> string \<Rightarrow> redis \<Rightarrow> redis \<times> bool" where
  "seen_once ttl task_id r = redis_set_nx r (done_key task_id) ''1'' (Some ttl)"

section \<open>Facts on the commands\<close>

lemma redis_get_put:
  "redis_get (redis_put r k v ex) k' =
    (if k' = k then (case ex of None \<Rightarrow> Some v | Some t \<Rightarrow> if 0 < t then Some v else None)
     else redis_get r k')"
  by (auto simp: redis_get_def redis_put_def split: option.split)

lemma redis_get_delete [simp]:
  "redis_get (redis_delete r k) k' = (if k' = k then None else redis_get r k')"
  by (auto simp: redis_get_def redis_delete_def split: option.split)

lemma redis_get_rpush [simp]: "redis_get (redis_rpush r k v) k' = redis_get r k'"
  by (auto simp: redis_get_def redis_rpush_def split: option.split)

lemma redis_list_simps [simp]:
  "r_list (redis_put r k v ex) = r_list r"
  "r_list (redis_delete r k) = (r_list r)(k := [])"
  "r_list (redis_rpush r k v) = (r_list r)(k := r_list r k @ [v])"
  "r_list (redis_tick r dt) = r_list r"
  "r_now (redis_put r k v ex) = r_now r"
  "r_now (redis_delete r k) = r_now r"
  "r_now (redis_rpush r k v) = r_now r"
  by (simp_all add: redis_defs)

lemma r_list_set_nx [simp]: "r_list (fst (redis_set_nx r k v ex)) = r_list r"
  by (simp add: redis_set_nx_def)

lemma r_list_set_xx [simp]: "r_list (fst (redis_set_xx r k v ex)) = r_list r"
  by (simp add: redis_set_xx_def)

lemma redis_get_tick_None: "redis_get r k = None \<Longrightarrow> redis_get (redis_tick r dt) k = None"
  by (auto simp: redis_get_def redis_tick_def split: option.splits if_splits)

text \<open>The key families are apart.\<close>

lemma key_families [simp]:
  "lease_key a \<noteq> cache_key b" "lease_key a \<noteq> inflight_key b" "lease_key a \<noteq> done_key b"
  "cache_key a \<noteq> inflight_key b" "cache_key a \<noteq> done_key b" "inflight_key a \<noteq> done_key b"
  "lease_key a \<noteq> SLOTS_KEY" "cache_key a \<noteq> SLOTS_KEY" "inflight_key a \<noteq> SLOTS_KEY"
  "lease_key a \<noteq> SLOTS_KEY @ s" "cache_key a \<noteq> SLOTS_KEY @ s" "inflight_key a \<noteq> SLOTS_KEY @ s"
  by (simp_all add: key_defs)

lemma key_inj [simp]:
  "lease_key a = lease_key b \<longleftrightarrow> a = b" "cache_key a = cache_key b \<longleftrightarrow> a = b"
  "inflight_key a = inflight_key b \<longleftrightarrow> a = b" "done_key a = done_key b \<longleftrightarrow> a = b"
  by (simp_all add: key_defs)

section \<open>The contract of a conditional store\<close>

locale nx_store =
  fixes get :: "'r \<Rightarrow> 'k \<Rightarrow> 'v option"
    and set_nx :: "'r \<Rightarrow> 'k \<Rightarrow> 'v \<Rightarrow> 'r \<times> bool"
    and del :: "'r \<Rightarrow> 'k \<Rightarrow> 'r"
  assumes nx_wins: "snd (set_nx r k v) \<longleftrightarrow> get r k = None"
    and nx_get: "get (fst (set_nx r k v)) k' =
      (if k' = k \<and> get r k = None then Some v else get r k')"
    and del_get: "get (del r k) k' = (if k' = k then None else get r k')"
begin

text \<open>After a win the key is taken: nobody wins it again until it is deleted.\<close>

lemma second_loses: "\<not> snd (set_nx (fst (set_nx r k v)) k w)"
  by (simp add: nx_wins nx_get)

lemma loser_changes_nothing: "\<not> snd (set_nx r k v) \<Longrightarrow> get (fst (set_nx r k v)) k' = get r k'"
  by (simp add: nx_wins nx_get)

lemma run_taken:
  "get r k \<noteq> None \<Longrightarrow> True \<notin> set (snd (run_all (\<lambda>v r. set_nx r k v) vs r))"
proof (induction vs arbitrary: r)
  case (Cons v vs)
  then have "get (fst (set_nx r k v)) k \<noteq> None" by (simp add: nx_get)
  with Cons show ?case by (simp add: run_all_Cons nx_wins del: run_all.simps(2))
qed simp

text \<open>Of any burst of callers on a free key exactly the first wins.\<close>

lemma burst_one_winner:
  assumes "get r k = None"
  shows "snd (run_all (\<lambda>v r. set_nx r k v) (v # vs) r) = True # replicate (length vs) False"
proof -
  have taken: "get (fst (set_nx r k v)) k \<noteq> None" using assms by (simp add: nx_get)
  have len: "length (snd (run_all (\<lambda>v r. set_nx r k v) vs s)) = length vs" for s
    by (induction vs arbitrary: s) (simp_all add: run_all_Cons del: run_all.simps(2))
  have "\<forall>b \<in> set (snd (run_all (\<lambda>v r. set_nx r k v) vs (fst (set_nx r k v)))). \<not> b"
    using run_taken [OF taken, of vs] by auto
  then have "snd (run_all (\<lambda>v r. set_nx r k v) vs (fst (set_nx r k v))) = replicate (length vs) False"
    using len by (auto simp: list_eq_iff_nth_eq all_set_conv_all_nth)
  then show ?thesis using assms by (simp add: run_all_Cons nx_wins del: run_all.simps(2))
qed

lemma release_frees: "snd (set_nx (del r k) k v)"
  by (simp add: nx_wins del_get)

end

text \<open>The commands of the adapter meet it, for every positive expiry.\<close>

interpretation redis_nx: nx_store redis_get "\<lambda>r k v. redis_set_nx r k v (Some (1 + int n))" redis_delete
  for n :: nat
  by unfold_locales (auto simp: redis_set_nx_def redis_get_put)

section \<open>Properties\<close>

text \<open>
  C19. Of any burst of callers that ask for the in-flight lock of the same content hash while it is
  free, exactly the first wins, whoever the owners are; and a waiter's release lets the next one
  win again.
\<close>

theorem inflight_one_winner:
  assumes "redis_get r (inflight_key h) = None" and "0 < inflight_ttl c"
  shows "snd (run_all (\<lambda>owner r. acquire_inflight c h owner r) (o1 # owners) r) =
      True # replicate (length owners) False
    \<and> snd (acquire_inflight c h o2 (release_inflight c h r'))"
proof -
  obtain n where "inflight_ttl c = 1 + int n"
    using assms(2) that [of "nat (inflight_ttl c - 1)"] by simp
  then show ?thesis
    using redis_nx.burst_one_winner [OF assms(1), where n = n and v = o1 and vs = owners]
      redis_nx.release_frees [where n = n and r = r' and k = "inflight_key h" and v = o2]
    by (simp add: acquire_inflight_def release_inflight_def)
qed

theorem inflight_one_winner_witness:
  "snd (run_all (\<lambda>owner r. acquire_inflight \<lparr>cache_ttl = 86400, inflight_ttl = 60\<rparr> ''h'' owner r)
     [''a'', ''b'', ''c''] empty_redis) = [True, False, False]"
  using inflight_one_winner [of empty_redis "''h''" "\<lparr>cache_ttl = 86400, inflight_ttl = 60\<rparr>" "''a''"
      "[''b'', ''c'']"]
  by (simp add: empty_redis_def redis_get_def numeral_2_eq_2)

end
