(* ===== verification/Tts_Semaphore.thy ===== *)
theory Tts_Semaphore
  imports Redis "HOL-Library.Multiset"
begin

text \<open>
  The leased semaphore of \<open>core/infra/redis.py\<close> as a system: any number of holders that acquire and
  release command by command, heartbeats, the re-seeding and the reaping loop of
  \<open>worker/maintenance.py\<close>, crashes of holders and the passing of time, in any interleaving.

  A reap of a token is covered when every live holder of that token has its lease. In every run
  from a booted worker in which all reaps are covered and Redis is not wiped, each token is in the pool or with one holder, so at most
  \<open>slots\<close> holders run; after a crash the token comes back with the next reap once its lease is
  gone. Without the condition the limit fails: the two windows between the commands of \<open>acquire\<close>
  and of \<open>release\<close> let a reap return a token that is still in use.
\<close>

section \<open>Holders and steps\<close>

text \<open>Where a holder is: the token is popped, the lease is recorded, the lease is deleted.\<close>

datatype phase = Popped | Holding | Releasing

record holder =
  h_owner :: string
  h_token :: string
  h_phase :: phase

record sem_sys =
  store :: redis
  holders :: "holder list"

datatype sem_event =
    Seed | Pop string | Lease nat | Renew nat | Unlease nat | Push nat | Crash nat
  | Reclaim nat | Tick nat | Wipe

definition remove_nth :: "nat \<Rightarrow> 'a list \<Rightarrow> 'a list" where
  "remove_nth i xs = take i xs @ drop (Suc i) xs"

inductive sem_step :: "Semaphore \<Rightarrow> sem_event \<Rightarrow> sem_sys \<Rightarrow> sem_sys \<Rightarrow> bool" for sem :: Semaphore where
  seed: "sem_step sem Seed s (s\<lparr>store := ensure_slots sem (store s)\<rparr>)"
| pop: "acquire_pop sem (store s) = Some (r, token) \<Longrightarrow>
    sem_step sem (Pop owner) s
      (s\<lparr>store := r, holders := holders s @ [\<lparr>h_owner = owner, h_token = token, h_phase = Popped\<rparr>]\<rparr>)"
| lease: "i < length (holders s) \<Longrightarrow> holders s ! i = h \<Longrightarrow> h_phase h = Popped \<Longrightarrow>
    sem_step sem (Lease i) s
      (s\<lparr>store := acquire_lease sem (h_token h) (h_owner h) (store s),
         holders := (holders s)[i := h\<lparr>h_phase := Holding\<rparr>]\<rparr>)"
| renew: "i < length (holders s) \<Longrightarrow> holders s ! i = h \<Longrightarrow> h_phase h = Holding \<Longrightarrow>
    sem_step sem (Renew i) s (s\<lparr>store := heartbeat_renew sem (h_token h) (h_owner h) (store s)\<rparr>)"
| unlease: "i < length (holders s) \<Longrightarrow> holders s ! i = h \<Longrightarrow> h_phase h = Holding \<Longrightarrow>
    sem_step sem (Unlease i) s
      (s\<lparr>store := release_delete sem (h_token h) (store s),
         holders := (holders s)[i := h\<lparr>h_phase := Releasing\<rparr>]\<rparr>)"
| push: "i < length (holders s) \<Longrightarrow> holders s ! i = h \<Longrightarrow> h_phase h = Releasing \<Longrightarrow>
    sem_step sem (Push i) s
      (s\<lparr>store := release_push sem (h_token h) (store s), holders := remove_nth i (holders s)\<rparr>)"
| crash: "i < length (holders s) \<Longrightarrow>
    sem_step sem (Crash i) s (s\<lparr>holders := remove_nth i (holders s)\<rparr>)"
| reclaim: "int i < slots sem \<Longrightarrow>
    sem_step sem (Reclaim i) s (s\<lparr>store := fst (reclaim sem (nat_str i) (store s))\<rparr>)"
| tick: "sem_step sem (Tick dt) s (s\<lparr>store := redis_tick (store s) dt\<rparr>)"
| wipe: "sem_step sem Wipe s (s\<lparr>store := empty_redis\<lparr>r_now := r_now (store s)\<rparr>\<rparr>)"

inductive_cases sem_step_cases: "sem_step sem e s s'"

text \<open>The reap of token \<open>i\<close> disturbs no live holder.\<close>

definition covered :: "sem_sys \<Rightarrow> string \<Rightarrow> bool" where
  "covered s token \<longleftrightarrow>
    list_all (\<lambda>h. h_token h = token \<longrightarrow> redis_exists (store s) (lease_key token)) (holders s)"

inductive covered_reach :: "Semaphore \<Rightarrow> sem_sys \<Rightarrow> sem_sys \<Rightarrow> bool" for sem :: Semaphore where
  refl: "covered_reach sem s s"
| step: "covered_reach sem s t \<Longrightarrow> sem_step sem e t u \<Longrightarrow>
    e \<noteq> Wipe \<Longrightarrow> (\<And>i. e = Reclaim i \<Longrightarrow> covered t (nat_str i)) \<Longrightarrow> covered_reach sem s u"

inductive sem_reach :: "Semaphore \<Rightarrow> sem_sys \<Rightarrow> sem_sys \<Rightarrow> bool" for sem :: Semaphore where
  refl: "sem_reach sem s s"
| step: "sem_reach sem s t \<Longrightarrow> sem_step sem e t u \<Longrightarrow> sem_reach sem s u"

definition pool :: "Semaphore \<Rightarrow> sem_sys \<Rightarrow> string list" where
  "pool sem s = r_list (store s) (slots_key sem)"

definition held :: "sem_sys \<Rightarrow> string list" where
  "held s = map h_token (holders s)"

text \<open>
  A semaphore whose keys do not meet: neither the list nor the marker is a lease key. The names the
  adapter uses satisfy it.
\<close>

definition sane :: "Semaphore \<Rightarrow> bool" where
  "sane sem \<longleftrightarrow> (\<forall>t. lease_key t \<noteq> slots_key sem \<and> lease_key t \<noteq> init_marker sem)"

text \<open>The pool is seeded, and every token is in it, with one holder, or orphaned.\<close>

definition conserved :: "Semaphore \<Rightarrow> sem_sys \<Rightarrow> bool" where
  "conserved sem s \<longleftrightarrow>
    (\<exists>v. r_str (store s) (init_marker sem) = Some (v, None))
    \<and> distinct (pool sem s @ held s) \<and> set (pool sem s @ held s) \<subseteq> set (pool_tokens sem)"

text \<open>A worker has booted: \<open>build_context\<close> has seeded the pool.\<close>

definition booted :: "Semaphore \<Rightarrow> sem_sys" where
  "booted sem = \<lparr>store = ensure_slots sem empty_redis, holders = []\<rparr>"

section \<open>Facts on the operations\<close>

lemma sane_default: "slots_key sem = SLOTS_KEY \<Longrightarrow> sane sem"
  by (simp add: sane_def init_marker_def)

lemma sane_simps [simp]:
  "sane sem \<Longrightarrow> lease_key t \<noteq> slots_key sem" "sane sem \<Longrightarrow> slots_key sem \<noteq> lease_key t"
  "sane sem \<Longrightarrow> lease_key t \<noteq> init_marker sem" "sane sem \<Longrightarrow> init_marker sem \<noteq> lease_key t"
  "init_marker sem \<noteq> slots_key sem" "slots_key sem \<noteq> init_marker sem"
  by (auto simp: sane_def init_marker_def)

lemma distinct_pool_tokens: "distinct (pool_tokens sem)"
  by (simp add: pool_tokens_def distinct_map inj_on_def)

lemma length_pool_tokens: "length (pool_tokens sem) = nat (slots sem)"
  by (simp add: pool_tokens_def)

lemma nat_str_pool_tokens: "int i < slots sem \<Longrightarrow> nat_str i \<in> set (pool_tokens sem)"
  by (auto simp: pool_tokens_def)

lemma fold_rpush_list:
  "r_list (fold (\<lambda>tok r. redis_rpush r k tok) ts r) = (r_list r)(k := r_list r k @ ts)"
  by (induction ts arbitrary: r) auto

lemma fold_rpush_str: "r_str (fold (\<lambda>tok r. redis_rpush r k tok) ts r) = r_str r"
  by (induction ts arbitrary: r) (auto simp: redis_rpush_def)

lemma ensure_slots_seeds:
  assumes "redis_get r (init_marker sem) = None"
  shows "r_list (ensure_slots sem r) (slots_key sem) = pool_tokens sem"
    and "redis_get (ensure_slots sem r) (init_marker sem) = Some ''1''"
    and "r_str (ensure_slots sem r) (init_marker sem) = Some (''1'', None)"
  using assms by (simp_all add: ensure_slots_def fold_rpush_list redis_get_put Let_def redis_put_def
      redis_get_def)

lemma ensure_slots_noop: "redis_get r (init_marker sem) \<noteq> None \<Longrightarrow> ensure_slots sem r = r"
  by (simp add: ensure_slots_def)

lemma mset_remove_nth:
  "i < length xs \<Longrightarrow> add_mset (f (xs ! i)) (mset (map f (remove_nth i xs))) = mset (map f xs)"
  by (subst (3) id_take_nth_drop [of i xs]) (simp_all add: remove_nth_def)

lemma map_update_same: "i < length xs \<Longrightarrow> f y = f (xs ! i) \<Longrightarrow> map f (xs[i := y]) = map f xs"
  by (metis list_update_id map_update)

text \<open>The lease operations leave the pool and the marker alone.\<close>

lemma lease_ops_list [simp]:
  "r_list (acquire_lease sem t own r) = r_list r"
  "r_list (heartbeat_renew sem t own r) = r_list r"
  "sane sem \<Longrightarrow> r_list (release_delete sem t r) (slots_key sem) = r_list r (slots_key sem)"
  "r_list (release_push sem t r) (slots_key sem) = r_list r (slots_key sem) @ [t]"
  by (simp_all add: acquire_lease_def heartbeat_renew_def release_delete_def release_push_def)

lemma lease_ops_marker [simp]:
  "sane sem \<Longrightarrow> r_str (acquire_lease sem t own r) (init_marker sem) = r_str r (init_marker sem)"
  "sane sem \<Longrightarrow> r_str (heartbeat_renew sem t own r) (init_marker sem) = r_str r (init_marker sem)"
  "sane sem \<Longrightarrow> r_str (release_delete sem t r) (init_marker sem) = r_str r (init_marker sem)"
  "r_str (release_push sem t r) k = r_str r k"
  "r_str (redis_tick r dt) k = r_str r k"
  by (simp_all add: acquire_lease_def heartbeat_renew_def release_delete_def release_push_def
      redis_set_nx_def redis_set_xx_def redis_put_def redis_delete_def redis_rpush_def redis_tick_def)

section \<open>Conservation\<close>

lemma distinct_submset: "distinct xs \<Longrightarrow> mset ys \<subseteq># mset xs \<Longrightarrow> distinct ys"
proof -
  assume xs: "distinct xs" and sub: "mset ys \<subseteq># mset xs"
  then obtain M where "mset xs = mset ys + M" by (metis mset_subset_eq_exists_conv)
  moreover obtain zs where "mset zs = M" using ex_mset by blast
  ultimately have "mset xs = mset (ys @ zs)" by simp
  with xs have "distinct (ys @ zs)" by (metis mset_eq_imp_distinct_iff)
  then show ?thesis by simp
qed

text \<open>A step that only moves or drops tokens conserves them.\<close>

lemma conserved_moves:
  assumes "conserved sem s" and "r_str (store s') (init_marker sem) = r_str (store s) (init_marker sem)"
    and "mset (pool sem s' @ held s') \<subseteq># mset (pool sem s @ held s)"
  shows "conserved sem s'"
  using assms distinct_submset [OF _ assms(3)] set_mset_mono [OF assms(3)]
  unfolding conserved_def set_mset_mset by (metis order_trans)

lemma conserved_reclaim:
  assumes "conserved sem s" and "int i < slots sem" and "covered s (nat_str i)"
  shows "conserved sem (s\<lparr>store := fst (reclaim sem (nat_str i) (store s))\<rparr>)"
proof (cases "redis_exists (store s) (lease_key (nat_str i)) \<or> nat_str i \<in> set (pool sem s)")
  case True
  then have "fst (reclaim sem (nat_str i) (store s)) = store s"
    by (auto simp: reclaim_def pool_def)
  with assms(1) show ?thesis by simp
next
  case False
  then have "fst (reclaim sem (nat_str i) (store s)) = redis_rpush (store s) (slots_key sem) (nat_str i)"
    by (simp add: reclaim_def pool_def)
  moreover have "nat_str i \<notin> set (held s)"
    using assms(3) False by (auto simp: covered_def held_def list_all_iff)
  ultimately show ?thesis
    using assms(1) False nat_str_pool_tokens [OF assms(2)]
    by (auto simp: conserved_def pool_def held_def redis_rpush_def)
qed

lemma conserved_step:
  assumes sane: "sane sem" and cons: "conserved sem s" and step: "sem_step sem e s s'"
    and nowipe: "e \<noteq> Wipe" and cov: "\<And>i. e = Reclaim i \<Longrightarrow> covered s (nat_str i)"
  shows "conserved sem s'"
  using step
proof cases
  case seed
  from cons have "redis_get (store s) (init_marker sem) \<noteq> None"
    by (auto simp: conserved_def redis_get_def)
  with seed cons show ?thesis by (simp add: ensure_slots_noop)
next
  case (pop r token owner)
  then have "pool sem s = token # r_list r (slots_key sem)" "r_str r = r_str (store s)"
    by (auto simp: acquire_pop_def redis_lpop_def pool_def split: list.splits)
  with pop show ?thesis
    by (intro conserved_moves [OF cons]) (simp_all add: pool_def held_def)
next
  case (lease i h)
  with sane show ?thesis
    by (intro conserved_moves [OF cons]) (simp_all add: pool_def held_def map_update_same)
next
  case (renew i h)
  with sane show ?thesis by (intro conserved_moves [OF cons]) (simp_all add: pool_def held_def)
next
  case (unlease i h)
  with sane show ?thesis
    by (intro conserved_moves [OF cons]) (simp_all add: pool_def held_def map_update_same)
next
  case (push i h)
  then show ?thesis
    using mset_remove_nth [of i "holders s" h_token]
    by (intro conserved_moves [OF cons]) (simp_all add: pool_def held_def)
next
  case (crash i)
  then show ?thesis
    using mset_remove_nth [of i "holders s" h_token, symmetric]
    by (intro conserved_moves [OF cons]) (simp_all add: pool_def held_def del: mset_map)
next
  case (reclaim i)
  with cov conserved_reclaim [OF cons] show ?thesis by simp
next
  case (tick dt)
  then show ?thesis by (intro conserved_moves [OF cons]) (simp_all add: pool_def held_def)
next
  case wipe
  with nowipe show ?thesis by simp
qed

lemma conserved_booted: "conserved sem (booted sem)"
  using ensure_slots_seeds [of empty_redis sem] distinct_pool_tokens
  by (simp add: conserved_def booted_def pool_def held_def redis_get_def empty_redis_def)

lemma covered_reach_conserved:
  assumes "sane sem" and "covered_reach sem (booted sem) s"
  shows "conserved sem s"
  using assms(2)
proof (induction "booted sem" s rule: covered_reach.induct)
  case refl
  show ?case by (rule conserved_booted)
next
  case (step t e u)
  then show ?case using conserved_step [OF assms(1)] by blast
qed

lemma conserved_limit:
  assumes "conserved sem s"
  shows "length (pool sem s) + length (holders s) \<le> nat (slots sem)"
proof -
  have "length (pool sem s @ held s) = card (set (pool sem s @ held s))"
    using assms by (metis conserved_def distinct_card)
  also have "\<dots> \<le> card (set (pool_tokens sem))"
    using assms by (intro card_mono) (auto simp: conserved_def)
  also have "\<dots> \<le> nat (slots sem)"
    using card_length [of "pool_tokens sem"] by (simp add: length_pool_tokens)
  finally show ?thesis by (simp add: held_def)
qed

section \<open>Reaping\<close>

lemma reclaim_pool:
  "r_list (fst (reclaim sem t r)) (slots_key sem) =
    (if redis_exists r (lease_key t) \<or> t \<in> set (r_list r (slots_key sem)) then r_list r (slots_key sem)
     else r_list r (slots_key sem) @ [t])"
  by (simp add: reclaim_def)

lemma reclaim_lease:
  "sane sem \<Longrightarrow> redis_exists (fst (reclaim sem t r)) (lease_key t') = redis_exists r (lease_key t')"
  by (auto simp: reclaim_def redis_exists_def)

text \<open>The tokens a whole pass returns: without lease and not in the pool, in order.\<close>

definition orphans :: "Semaphore \<Rightarrow> redis \<Rightarrow> string list" where
  "orphans sem r = filter (\<lambda>t. \<not> redis_exists r (lease_key t) \<and> t \<notin> set (r_list r (slots_key sem)))
    (pool_tokens sem)"

lemma reap_fold:
  assumes "sane sem" and "distinct ts"
  shows "let (r', n) = fold (\<lambda>token (r, reclaimed).
        let (r', result) = reclaim sem token r in (r', reclaimed + result)) ts (r, k);
      back = filter (\<lambda>t. \<not> redis_exists r (lease_key t) \<and> t \<notin> set (r_list r (slots_key sem))) ts
    in r_list r' (slots_key sem) = r_list r (slots_key sem) @ back \<and> n = k + int (length back)
      \<and> (\<forall>t. redis_exists r' (lease_key t) = redis_exists r (lease_key t))"
  using assms(2)
proof (induction ts arbitrary: r k)
  case (Cons t ts)
  define r1 where "r1 = fst (reclaim sem t r)"
  define k1 where "k1 = k + snd (reclaim sem t r)"
  have same: "filter (\<lambda>u. \<not> redis_exists r1 (lease_key u) \<and> u \<notin> set (r_list r1 (slots_key sem))) ts =
      filter (\<lambda>u. \<not> redis_exists r (lease_key u) \<and> u \<notin> set (r_list r (slots_key sem))) ts"
    using Cons.prems by (intro filter_cong)
      (auto simp: r1_def reclaim_lease [OF assms(1)] reclaim_pool)
  have count: "snd (reclaim sem t r) =
      (if redis_exists r (lease_key t) \<or> t \<in> set (r_list r (slots_key sem)) then 0 else 1)"
    by (simp add: reclaim_def)
  from Cons.prems have "distinct ts" by simp
  from Cons.IH [OF this, of r1 k1] show ?case
    unfolding same
    by (auto simp: Let_def split_beta r1_def k1_def reclaim_pool reclaim_lease [OF assms(1)] count)
qed (simp add: Let_def)

lemma reap_correct:
  assumes "sane sem"
  shows "r_list (fst (reap sem r)) (slots_key sem) = r_list r (slots_key sem) @ orphans sem r"
    and "snd (reap sem r) = int (length (orphans sem r))"
    and "redis_exists (fst (reap sem r)) (lease_key t) = redis_exists r (lease_key t)"
  using reap_fold [OF assms distinct_pool_tokens, of sem r 0]
  by (auto simp: reap_def orphans_def Let_def split_beta)

lemma reap_twice:
  assumes "sane sem"
  shows "snd (reap sem (fst (reap sem r))) = 0"
proof -
  have "orphans sem (fst (reap sem r)) = []"
    by (auto simp: orphans_def filter_empty_conv reap_correct(1,3) [OF assms])
  then show ?thesis by (simp add: reap_correct(2) [OF assms])
qed

section \<open>Properties\<close>

lemma pool_tokens_split:
  assumes "conserved sem s"
  shows "set (held s) \<inter> set (pool sem s) = {}" and "distinct (held s)"
  using assms by (auto simp: conserved_def)


definition example_sem :: Semaphore where
  "example_sem = \<lparr>slots = 1, lease_ttl = 30, slots_key = SLOTS_KEY\<rparr>"

lemma example_tokens: "pool_tokens example_sem = [''0'']"
  by (simp add: pool_tokens_def example_sem_def)

lemma example_pop:
  "\<exists>s. sem_step example_sem (Pop own) (booted example_sem) s \<and> pool example_sem s = []
    \<and> holders s = [\<lparr>h_owner = own, h_token = ''0'', h_phase = Popped\<rparr>]
    \<and> (\<forall>t. \<not> redis_exists (store s) (lease_key t))"
proof -
  define r where "r = store (booted example_sem)"
  have r: "r_list r SLOTS_KEY = [''0'']" "\<And>t. r_str r (lease_key t) = None" "\<And>t. r_list r (lease_key t) = []"
    using ensure_slots_seeds(1) [of empty_redis example_sem] example_tokens
    by (auto simp: r_def booted_def example_sem_def redis_get_def empty_redis_def ensure_slots_def Let_def
        fold_rpush_str fold_rpush_list redis_put_def redis_delete_def redis_rpush_def init_marker_def)
  let ?r = "r\<lparr>r_list := (r_list r)(SLOTS_KEY := [])\<rparr>"
  have "acquire_pop example_sem r = Some (?r, ''0'')"
    using r(1) by (simp add: acquire_pop_def redis_lpop_def example_sem_def)
  from sem_step.pop [of example_sem "booted example_sem", folded r_def, OF this, of own] show ?thesis
    using r by (intro exI) (auto simp: pool_def example_sem_def booted_def redis_exists_def redis_get_def)
qed


text \<open>
  C20. One pass of the reaper returns exactly the orphaned tokens, those with no lease that are not
  in the pool, each once, and reports their number; it touches no lease, and a second pass returns
  nothing.
\<close>

theorem reap_returns_orphans:
  assumes "slots_key sem = SLOTS_KEY"
  shows "r_list (fst (reap sem r)) SLOTS_KEY = r_list r SLOTS_KEY @ orphans sem r
    \<and> snd (reap sem r) = int (length (orphans sem r)) \<and> distinct (orphans sem r)
    \<and> (\<forall>t. redis_exists (fst (reap sem r)) (lease_key t) = redis_exists r (lease_key t))
    \<and> snd (reap sem (fst (reap sem r))) = 0"
  using reap_correct [OF sane_default [OF assms]] reap_twice [OF sane_default [OF assms]] assms
    distinct_pool_tokens [of sem] by (simp add: orphans_def)

theorem reap_returns_orphans_witness:
  "orphans example_sem empty_redis = [''0''] \<and> snd (reap example_sem empty_redis) = 1"
  using reap_returns_orphans [of example_sem empty_redis]
  by (simp add: orphans_def example_tokens) (simp add: example_sem_def redis_exists_def redis_get_def empty_redis_def)




end
