(* ===== verification/Events.thy ===== *)
theory Events
  imports Prelude Complex_Main
begin

text \<open>
  \<open>core/domain/events.py\<close>: the three broker events, their JSON form and their validation. A
  message body is either JSON or something that no JSON parser accepts. Validation follows the
  model configuration: unknown fields are forbidden, \<open>event_id\<close> is defaulted, every field is a
  string. Validating a dumped event gives the event back, and \<open>JobCreated\<close> and \<open>StitchReady\<close> have
  the same fields, so only the queue tells them apart.
\<close>

datatype json =
    JNull | JBool bool | JNum rat | JStr string
  | JArr "json list" | JObj "(string \<times> json) list"

datatype body = Json json | NotJson

datatype event =
    JobCreated (event_id: string) (job_id: string)
  | TtsRequested (event_id: string) (job_id: string) (task_id: string)
  | StitchReady (event_id: string) (job_id: string)

definition model_dump_json :: "event \<Rightarrow> body" where
  "model_dump_json e =
    Json (JObj
      (case e of
         JobCreated eid jid \<Rightarrow> [(''event_id'', JStr eid), (''job_id'', JStr jid)]
       | TtsRequested eid jid tid \<Rightarrow>
           [(''event_id'', JStr eid), (''job_id'', JStr jid), (''task_id'', JStr tid)]
       | StitchReady eid jid \<Rightarrow> [(''event_id'', JStr eid), (''job_id'', JStr jid)]))"

definition get_str :: "(string \<times> json) list \<Rightarrow> string \<Rightarrow> string res" where
  "get_str fields k = (case map_of fields k of Some (JStr s) \<Rightarrow> Inr s | _ \<Rightarrow> Inl ValidationError)"

text \<open>
  The part of validation that the three models share: the body is an object, all its fields are
  known, and \<open>event_id\<close> is a string or absent. The fresh default for \<open>event_id\<close> is an argument.
\<close>

definition validate_base :: "string list \<Rightarrow> string \<Rightarrow> body \<Rightarrow> (string \<times> (string \<times> json) list) res" where
  "validate_base known new_event_id b =
    (case b of
       Json (JObj fields) \<Rightarrow>
         if list_all (\<lambda>(k, _). k = ''event_id'' \<or> k \<in> set known) fields
         then bind_res
           (if map_of fields ''event_id'' = None then Inr new_event_id else get_str fields ''event_id'')
           (\<lambda>eid. Inr (eid, fields))
         else Inl ValidationError
     | _ \<Rightarrow> Inl ValidationError)"

definition validate_JobCreated :: "string \<Rightarrow> body \<Rightarrow> event res" where
  "validate_JobCreated new_event_id b =
    bind_res (validate_base [''job_id''] new_event_id b) (\<lambda>(eid, fields).
    bind_res (get_str fields ''job_id'') (\<lambda>jid. Inr (JobCreated eid jid)))"

definition validate_TtsRequested :: "string \<Rightarrow> body \<Rightarrow> event res" where
  "validate_TtsRequested new_event_id b =
    bind_res (validate_base [''job_id'', ''task_id''] new_event_id b) (\<lambda>(eid, fields).
    bind_res (get_str fields ''job_id'') (\<lambda>jid.
    bind_res (get_str fields ''task_id'') (\<lambda>tid. Inr (TtsRequested eid jid tid))))"

definition validate_StitchReady :: "string \<Rightarrow> body \<Rightarrow> event res" where
  "validate_StitchReady new_event_id b =
    bind_res (validate_base [''job_id''] new_event_id b) (\<lambda>(eid, fields).
    bind_res (get_str fields ''job_id'') (\<lambda>jid. Inr (StitchReady eid jid)))"

lemmas validate_defs =
  validate_JobCreated_def validate_TtsRequested_def validate_StitchReady_def
  validate_base_def get_str_def

lemma validate_dump [simp]:
  "validate_JobCreated n (model_dump_json (JobCreated e j)) = Inr (JobCreated e j)"
  "validate_TtsRequested n (model_dump_json (TtsRequested e j t)) = Inr (TtsRequested e j t)"
  "validate_StitchReady n (model_dump_json (StitchReady e j)) = Inr (StitchReady e j)"
  by (simp_all add: validate_defs model_dump_json_def)

lemma validate_cross [simp]:
  "validate_StitchReady n (model_dump_json (JobCreated e j)) = Inr (StitchReady e j)"
  "validate_JobCreated n (model_dump_json (StitchReady e j)) = Inr (JobCreated e j)"
  "validate_JobCreated n (model_dump_json (TtsRequested e j t)) = Inl ValidationError"
  "validate_StitchReady n (model_dump_json (TtsRequested e j t)) = Inl ValidationError"
  "validate_TtsRequested n (model_dump_json (JobCreated e j)) = Inl ValidationError"
  "validate_TtsRequested n (model_dump_json (StitchReady e j)) = Inl ValidationError"
  by (simp_all add: validate_defs model_dump_json_def)

lemma validate_NotJson [simp]:
  "validate_JobCreated n NotJson = Inl ValidationError"
  "validate_TtsRequested n NotJson = Inl ValidationError"
  "validate_StitchReady n NotJson = Inl ValidationError"
  by (simp_all add: validate_defs)

section \<open>Properties\<close>

text \<open>
  C18. An event survives the broker: the body that \<open>publish\<close> writes validates at the consumer of the
  event's own queue to the same event, and a \<open>TtsRequested\<close> is told apart from the two others by
  validation alone.
\<close>

theorem event_roundtrip:
  "validate_JobCreated n (model_dump_json e) =
     (case e of JobCreated _ _ \<Rightarrow> Inr e | StitchReady i j \<Rightarrow> Inr (JobCreated i j)
      | TtsRequested _ _ _ \<Rightarrow> Inl ValidationError)
   \<and> validate_StitchReady n (model_dump_json e) =
     (case e of StitchReady _ _ \<Rightarrow> Inr e | JobCreated i j \<Rightarrow> Inr (StitchReady i j)
      | TtsRequested _ _ _ \<Rightarrow> Inl ValidationError)
   \<and> validate_TtsRequested n (model_dump_json e) =
     (case e of TtsRequested _ _ _ \<Rightarrow> Inr e | _ \<Rightarrow> Inl ValidationError)"
  by (cases e) simp_all

end
