(* ===== verification/Text_Blocks.thy ===== *)
theory Text_Blocks
  imports Prelude
begin

text \<open>
  \<open>core/domain/text.py\<close>: the manuscript splitter, on the methods of Python's \<open>str\<close> it uses
  (\<open>splitlines\<close>, \<open>strip\<close>, \<open>join\<close>), which are modelled on code points with the line boundaries and
  white space of the Unicode tables CPython uses. The splitter's loop is shown equal to a
  reference definition by paragraphs; it loses and invents no visible character; its blocks are
  in a normal form, and joining normal blocks by blank lines is undone by splitting.
\<close>

section \<open>The string methods of Python\<close>

definition is_linebreak :: "nat \<Rightarrow> bool" where
  "is_linebreak c \<longleftrightarrow> (10 \<le> c \<and> c \<le> 13) \<or> (28 \<le> c \<and> c \<le> 30) \<or> c = 133 \<or> c = 8232 \<or> c = 8233"

definition is_space :: "nat \<Rightarrow> bool" where
  "is_space c \<longleftrightarrow> (9 \<le> c \<and> c \<le> 13) \<or> (28 \<le> c \<and> c \<le> 32) \<or> c = 133 \<or> c = 160 \<or> c = 5760
    \<or> (8192 \<le> c \<and> c \<le> 8202) \<or> c = 8232 \<or> c = 8233 \<or> c = 8239 \<or> c = 8287 \<or> c = 12288"

text \<open>One line of the input and what follows its boundary; carriage return and line feed are one.\<close>

fun take_line :: "pystr \<Rightarrow> pystr \<times> pystr" where
  "take_line [] = ([], [])"
| "take_line (c # cs) =
    (if c = 13 then ([], (case cs of [] \<Rightarrow> [] | d # ds \<Rightarrow> if d = 10 then ds else cs))
     else if is_linebreak c then ([], cs)
     else (c # fst (take_line cs), snd (take_line cs)))"

lemma take_line_shorter: "length (snd (take_line s)) \<le> length s - 1"
proof (induction s)
  case (Cons c cs)
  then have "length (snd (take_line cs)) \<le> length cs" by linarith
  then show ?case by (simp split: list.split)
qed simp

function splitlines :: "pystr \<Rightarrow> pystr list" where
  "splitlines s = (if s = [] then [] else fst (take_line s) # splitlines (snd (take_line s)))"
  by pat_completeness auto
termination
proof (relation "measure length")
  fix s :: pystr
  assume "s \<noteq> []"
  then show "(snd (take_line s), s) \<in> measure length"
    using take_line_shorter [of s] by (cases s) auto
qed simp

declare splitlines.simps [simp del]

lemma splitlines_Nil [simp]: "splitlines [] = []"
  by (simp add: splitlines.simps)

lemma splitlines_Cons:
  "splitlines (c # cs) = fst (take_line (c # cs)) # splitlines (snd (take_line (c # cs)))"
  by (subst splitlines.simps) simp

definition lstrip :: "pystr \<Rightarrow> pystr" where
  "lstrip s = dropWhile is_space s"

definition rstrip :: "pystr \<Rightarrow> pystr" where
  "rstrip s = rev (dropWhile is_space (rev s))"

definition strip :: "pystr \<Rightarrow> pystr" where
  "strip s = rstrip (lstrip s)"

fun join :: "pystr \<Rightarrow> pystr list \<Rightarrow> pystr" where
  "join sep [] = []"
| "join sep [x] = x"
| "join sep (x # y # ys) = x @ sep @ join sep (y # ys)"

abbreviation nl :: pystr where
  "nl \<equiv> [10]"

section \<open>The splitter\<close>

text \<open>The loop of \<open>split_blocks\<close> over the remaining lines, with its two accumulators.\<close>

fun split_loop :: "pystr list \<Rightarrow> pystr list \<Rightarrow> pystr list \<Rightarrow> pystr list" where
  "split_loop blocks current [] =
    (if current \<noteq> [] then blocks @ [strip (join nl current)] else blocks)"
| "split_loop blocks current (line # lines) =
    (if strip line \<noteq> [] then split_loop blocks (current @ [line]) lines
     else if current \<noteq> [] then split_loop (blocks @ [strip (join nl current)]) [] lines
     else split_loop blocks current lines)"

definition split_blocks :: "pystr \<Rightarrow> pystr list" where
  "split_blocks manuscript = split_loop [] [] (splitlines manuscript)"

text \<open>
  The rule of the module's documentation: a block is a maximal run of lines that are not blank,
  joined and stripped.
\<close>

definition blank :: "pystr \<Rightarrow> bool" where
  "blank line \<longleftrightarrow> list_all is_space line"

function paragraphs :: "pystr list \<Rightarrow> pystr list list" where
  "paragraphs [] = []"
| "paragraphs (l # ls) =
    (if blank l then paragraphs ls
     else (l # takeWhile (\<lambda>x. \<not> blank x) ls) # paragraphs (dropWhile (\<lambda>x. \<not> blank x) ls))"
  by pat_completeness auto
termination
  by (relation "measure length") (auto simp: le_imp_less_Suc length_dropWhile_le)

definition block_of :: "pystr list \<Rightarrow> pystr" where
  "block_of ls = strip (join nl ls)"

text \<open>The normal form of a block: no outer white space, no blank line, line feeds only.\<close>

definition normal_block :: "pystr \<Rightarrow> bool" where
  "normal_block b \<longleftrightarrow> b \<noteq> [] \<and> strip b = b \<and> join nl (splitlines b) = b
    \<and> list_all (\<lambda>l. \<not> blank l) (splitlines b)"

section \<open>Facts on the string methods\<close>

lemma linebreak_space [simp]: "is_linebreak c \<Longrightarrow> is_space c"
  by (auto simp: is_linebreak_def is_space_def)

lemma is_linebreak_10 [simp]: "is_linebreak 10" "is_space 10"
  by (auto simp: is_linebreak_def is_space_def)

lemma is_linebreak_13 [simp]: "is_linebreak 13" "is_space 13"
  by (auto simp: is_linebreak_def is_space_def)

lemma strip_empty_iff [simp]: "strip s = [] \<longleftrightarrow> blank s"
  by (auto simp: strip_def rstrip_def lstrip_def blank_def list_all_iff dropWhile_eq_Nil_conv
      dest: set_dropWhileD)
     (metis dropWhile_eq_Nil_conv list.set_intros(1) hd_dropWhile list.set_sel(1))

abbreviation visible :: "pystr \<Rightarrow> pystr" where
  "visible \<equiv> filter (\<lambda>c. \<not> is_space c)"

lemma visible_dropWhile [simp]: "visible (dropWhile is_space s) = visible s"
  by (induction s) auto

lemma visible_rev: "visible (rev s) = rev (visible s)"
  by (simp add: rev_filter)

lemma visible_lstrip [simp]: "visible (lstrip s) = visible s"
  by (simp add: lstrip_def)

lemma visible_rstrip [simp]: "visible (rstrip s) = visible s"
  by (simp add: rstrip_def visible_rev)

lemma visible_strip [simp]: "visible (strip s) = visible s"
  by (simp add: strip_def)

lemma strip_Nil [simp]: "lstrip [] = []" "rstrip [] = []" "strip [] = []"
  by (simp_all add: strip_def lstrip_def rstrip_def)

lemma visible_join_nl [simp]: "visible (join nl ls) = concat (map visible ls)"
  by (induction "nl" ls rule: join.induct) auto

lemma visible_take_line: "visible (fst (take_line s)) @ visible (snd (take_line s)) = visible s"
  by (induction s) (auto split: list.splits)

lemma visible_splitlines: "concat (map visible (splitlines s)) = visible s"
proof (induction s rule: splitlines.induct)
  case (1 s)
  then show ?case
    using visible_take_line [of s] by (cases "s = []") (simp_all add: splitlines.simps [of s])
qed

lemma visible_blank [simp]: "visible l = [] \<longleftrightarrow> blank l"
  by (auto simp: blank_def filter_empty_conv list_all_iff)

lemma blank_strip_iff [simp]: "blank (lstrip l) \<longleftrightarrow> blank l" "blank (rstrip l) \<longleftrightarrow> blank l"
  by (simp_all flip: visible_blank del: visible_blank)

lemma take_line_no_linebreak: "c \<in> set (fst (take_line s)) \<Longrightarrow> \<not> is_linebreak c"
  by (induction s) (auto split: if_splits)

lemma splitlines_no_linebreak: "l \<in> set (splitlines s) \<Longrightarrow> c \<in> set l \<Longrightarrow> \<not> is_linebreak c"
proof (induction s rule: splitlines.induct)
  case (1 s)
  then show ?case
    by (cases "s = []") (auto simp: splitlines.simps [of s] dest: take_line_no_linebreak)
qed

section \<open>The loop computes the paragraphs\<close>

lemma split_loop_paragraphs:
  "split_loop B C ls =
    B @ (if C = [] then map block_of (paragraphs ls)
         else block_of (C @ takeWhile (\<lambda>x. \<not> blank x) ls)
              # map block_of (paragraphs (dropWhile (\<lambda>x. \<not> blank x) ls)))"
  by (induction ls arbitrary: B C) (auto simp: block_of_def)

lemma split_blocks_eq_paragraphs: "split_blocks s = map block_of (paragraphs (splitlines s))"
  by (simp add: split_blocks_def split_loop_paragraphs)

lemma paragraphs_lines:
  "p \<in> set (paragraphs ls) \<Longrightarrow> p \<noteq> [] \<and> (\<forall>l \<in> set p. \<not> blank l \<and> l \<in> set ls)"
proof (induction ls rule: paragraphs.induct)
  case (2 l ls)
  show ?case
  proof (cases "blank l")
    case True
    with 2 show ?thesis by simp
  next
    case False
    with "2.prems" consider "p = l # takeWhile (\<lambda>x. \<not> blank x) ls"
      | "p \<in> set (paragraphs (dropWhile (\<lambda>x. \<not> blank x) ls))" by auto
    then show ?thesis
    proof cases
      case 1
      with False show ?thesis by (auto dest: set_takeWhileD)
    next
      case 2
      with "2.IH"(2) [OF False] show ?thesis by (auto dest: set_dropWhileD)
    qed
  qed
qed simp

lemma visible_paragraphs:
  "concat (map (\<lambda>p. concat (map visible p)) (paragraphs ls)) = concat (map visible ls)"
proof (induction ls rule: paragraphs.induct)
  case (2 l ls)
  show ?case
  proof (cases "blank l")
    case True
    with "2.IH" show ?thesis by simp
  next
    case False
    have "concat (map visible ls) =
      concat (map visible (takeWhile (\<lambda>x. \<not> blank x) ls @ dropWhile (\<lambda>x. \<not> blank x) ls))"
      by simp
    with False "2.IH" show ?thesis by (simp del: takeWhile_dropWhile_id)
  qed
qed simp

lemma visible_block_of [simp]: "visible (block_of ls) = concat (map visible ls)"
  by (simp add: block_of_def)

lemma concat_visible: "visible (concat xs) = concat (map visible xs)"
  by (induction xs) simp_all

section \<open>Normal blocks\<close>

definition clean_line :: "pystr \<Rightarrow> bool" where
  "clean_line l \<longleftrightarrow> \<not> blank l \<and> list_all (\<lambda>c. \<not> is_linebreak c) l"

lemma clean_line_nonempty: "clean_line l \<Longrightarrow> l \<noteq> []"
  by (auto simp: clean_line_def blank_def)

lemma take_line_sep: "list_all (\<lambda>c. \<not> is_linebreak c) l \<Longrightarrow> take_line (l @ 10 # r) = (l, r)"
  by (induction l) auto

lemma take_line_last: "list_all (\<lambda>c. \<not> is_linebreak c) l \<Longrightarrow> take_line l = (l, [])"
  by (induction l) auto

lemma splitlines_sep:
  assumes "list_all (\<lambda>c. \<not> is_linebreak c) l"
  shows "splitlines (l @ 10 # r) = l # splitlines r"
  by (subst splitlines.simps) (simp add: take_line_sep [OF assms])

lemma splitlines_last:
  assumes "list_all (\<lambda>c. \<not> is_linebreak c) l" and "l \<noteq> []"
  shows "splitlines l = [l]"
  using assms by (subst splitlines.simps) (simp add: take_line_last)

lemma splitlines_join:
  assumes "ls \<noteq> []" and "last ls \<noteq> []"
    and "\<And>l. l \<in> set ls \<Longrightarrow> list_all (\<lambda>c. \<not> is_linebreak c) l"
  shows "splitlines (join nl ls) = ls"
  using assms
proof (induction ls rule: induct_list012)
  case (2 l)
  then show ?case by (simp add: splitlines_last)
next
  case (3 l m ls)
  then show ?case by (simp add: splitlines_sep)
qed simp

lemma lstrip_join: "\<not> blank l \<Longrightarrow> lstrip (join nl (l # ls)) = join nl (lstrip l # ls)"
  by (cases ls) (auto simp: lstrip_def blank_def list_all_iff dropWhile_append1)

lemma join_snoc: "ls \<noteq> [] \<Longrightarrow> join sep (ls @ [l]) = join sep ls @ sep @ l"
  by (induction sep ls rule: join.induct) auto

lemma rstrip_append: "\<not> blank l \<Longrightarrow> rstrip (s @ l) = s @ rstrip l"
  by (auto simp: rstrip_def blank_def list_all_iff dropWhile_append1)

lemma rstrip_join: "\<not> blank l \<Longrightarrow> rstrip (join nl (ls @ [l])) = join nl (ls @ [rstrip l])"
  using rstrip_append [of l "join nl ls @ nl"] by (cases "ls = []") (simp_all add: join_snoc)

lemma set_lstrip: "set (lstrip s) \<subseteq> set s"
  by (auto simp: lstrip_def dest: set_dropWhileD)

lemma set_rstrip: "set (rstrip s) \<subseteq> set s"
  by (auto simp: rstrip_def dest: set_dropWhileD)

lemma clean_lstrip: "clean_line l \<Longrightarrow> clean_line (lstrip l)"
  using set_lstrip [of l] by (auto simp: clean_line_def list_all_iff)

lemma clean_rstrip: "clean_line l \<Longrightarrow> clean_line (rstrip l)"
  using set_rstrip [of l] by (auto simp: clean_line_def list_all_iff)

text \<open>Stripping a paragraph touches its first and last line only and leaves clean lines.\<close>

lemma block_of_clean:
  assumes "ls \<noteq> []" and "\<And>l. l \<in> set ls \<Longrightarrow> clean_line l"
  obtains ls' where "block_of ls = join nl ls'" "ls' \<noteq> []" "\<And>l. l \<in> set ls' \<Longrightarrow> clean_line l"
proof -
  obtain l ms where ls: "ls = l # ms" using assms(1) by (cases ls) auto
  let ?ms = "lstrip l # ms"
  have clean: "\<And>x. x \<in> set ?ms \<Longrightarrow> clean_line x"
    using assms(2) ls by (auto intro: clean_lstrip)
  obtain ks k where ks: "?ms = ks @ [k]" by (metis list.distinct(1) rev_exhaust)
  have "clean_line k" using clean ks by simp
  have "block_of ls = rstrip (join nl (ks @ [k]))"
    using assms(2) by (simp add: block_of_def strip_def ls lstrip_join clean_line_def flip: ks)
  also have "\<dots> = join nl (ks @ [rstrip k])"
    using \<open>clean_line k\<close> by (simp add: rstrip_join clean_line_def)
  finally show ?thesis
    using that [of "ks @ [rstrip k]"] clean ks clean_rstrip [OF \<open>clean_line k\<close>] by auto
qed

lemma lstrip_lstrip [simp]: "lstrip (lstrip s) = lstrip s"
  by (simp add: lstrip_def)

lemma rstrip_rstrip [simp]: "rstrip (rstrip s) = rstrip s"
  by (simp add: rstrip_def)

lemma lstrip_id_iff: "lstrip s = s \<longleftrightarrow> (s = [] \<or> \<not> is_space (hd s))"
  by (cases s) (auto simp: lstrip_def, metis impossible_Cons length_dropWhile_le)

lemma rstrip_Cons_visible: "\<not> is_space c \<Longrightarrow> rstrip (c # s) = c # rstrip s"
  by (simp add: rstrip_def dropWhile_append)

lemma strip_strip [simp]: "strip (strip s) = strip s"
proof (cases "lstrip s")
  case Nil
  then show ?thesis by (simp add: strip_def)
next
  case (Cons c cs)
  then have "\<not> is_space c" by (metis lstrip_def dropWhile_eq_Cons_conv)
  with Cons show ?thesis
    by (simp add: strip_def rstrip_Cons_visible) (simp add: lstrip_def rstrip_Cons_visible)
qed

lemma normal_block_join:
  assumes "ls \<noteq> []" and "\<And>l. l \<in> set ls \<Longrightarrow> clean_line l" and "strip (join nl ls) = join nl ls"
  shows "normal_block (join nl ls)" and "splitlines (join nl ls) = ls"
proof -
  have "last ls \<noteq> []" using assms(1,2) by (simp add: clean_line_nonempty)
  then show lines: "splitlines (join nl ls) = ls"
    using assms(1,2) by (intro splitlines_join) (auto simp: clean_line_def)
  have "join nl ls \<noteq> []" using lines assms(1) by auto
  with lines assms show "normal_block (join nl ls)"
    by (auto simp: normal_block_def list_all_iff clean_line_def)
qed

lemma split_blocks_normal: "b \<in> set (split_blocks s) \<Longrightarrow> normal_block b"
proof -
  assume "b \<in> set (split_blocks s)"
  then obtain p where p: "p \<in> set (paragraphs (splitlines s))" and b: "b = block_of p"
    by (auto simp: split_blocks_eq_paragraphs)
  have "p \<noteq> []" and "\<And>l. l \<in> set p \<Longrightarrow> clean_line l"
    using paragraphs_lines [OF p] splitlines_no_linebreak [of _ s]
    by (auto simp: clean_line_def list_all_iff)
  then obtain ls where ls: "block_of p = join nl ls" "ls \<noteq> []" "\<And>l. l \<in> set ls \<Longrightarrow> clean_line l"
    using block_of_clean [of p] by metis
  have "strip (join nl ls) = join nl ls"
    unfolding ls(1) [symmetric] by (simp add: block_of_def)
  then show ?thesis using ls b by (simp add: normal_block_join)
qed

section \<open>Splitting undoes joining by blank lines\<close>

text \<open>The lines of a document whose blocks are separated by one empty line.\<close>

fun document_lines :: "pystr list list \<Rightarrow> pystr list" where
  "document_lines [] = []"
| "document_lines [p] = p"
| "document_lines (p # q # ps) = p @ [] # document_lines (q # ps)"

lemma join_append: "ls \<noteq> [] \<Longrightarrow> ms \<noteq> [] \<Longrightarrow> join sep (ls @ ms) = join sep ls @ sep @ join sep ms"
proof (induction sep ls rule: join.induct)
  case (2 sep x)
  then show ?case by (cases ms) auto
qed auto

lemma document_lines_nonempty: "ps \<noteq> [] \<Longrightarrow> (\<And>p. p \<in> set ps \<Longrightarrow> p \<noteq> []) \<Longrightarrow> document_lines ps \<noteq> []"
  by (induction ps rule: document_lines.induct) auto

lemma join_document_lines:
  "(\<And>p. p \<in> set ps \<Longrightarrow> p \<noteq> []) \<Longrightarrow> join [10, 10] (map (join nl) ps) = join nl (document_lines ps)"
proof (induction ps rule: document_lines.induct)
  case (3 p q ps)
  have "document_lines (q # ps) \<noteq> []" using 3 by (intro document_lines_nonempty) auto
  then have "join nl (p @ [] # document_lines (q # ps)) =
      join nl p @ nl @ nl @ join nl (document_lines (q # ps))"
    using 3 by (subst join_append) (auto simp: neq_Nil_conv)
  with 3 show ?case by simp
qed simp_all

lemma paragraphs_document:
  assumes "\<And>p. p \<in> set ps \<Longrightarrow> p \<noteq> [] \<and> (\<forall>l \<in> set p. \<not> blank l)"
  shows "paragraphs (document_lines ps) = ps"
proof -
  have blank_Nil: "blank []" by (simp add: blank_def)
  have step: "paragraphs (p @ rest) = p # paragraphs rest"
    if "p \<noteq> []" "\<forall>l \<in> set p. \<not> blank l" "rest = [] \<or> blank (hd rest)" for p rest
  proof -
    obtain x xs where "p = x # xs" using \<open>p \<noteq> []\<close> by (meson neq_Nil_conv)
    moreover have "takeWhile (\<lambda>x. \<not> blank x) (xs @ rest) = xs"
      and "dropWhile (\<lambda>x. \<not> blank x) (xs @ rest) = rest"
      using that calculation by (cases rest; simp)+
    ultimately show ?thesis using that(2) by simp
  qed
  show ?thesis
    using assms
  proof (induction ps rule: document_lines.induct)
    case (2 p)
    then show ?case using step [of p "[]"] by simp
  next
    case (3 p q ps)
    have "paragraphs (document_lines (q # ps)) = q # ps" by (rule "3.IH") (use "3.prems" in auto)
    moreover have "paragraphs (p @ [] # document_lines (q # ps))
        = p # paragraphs ([] # document_lines (q # ps))"
      by (rule step) (use "3.prems" blank_Nil in auto)
    ultimately show ?case using blank_Nil by simp
  qed simp
qed

lemma document_lines_set: "l \<in> set (document_lines ps) \<Longrightarrow> l = [] \<or> (\<exists>p \<in> set ps. l \<in> set p)"
  by (induction ps rule: document_lines.induct) auto

lemma document_lines_last:
  "ps \<noteq> [] \<Longrightarrow> (\<And>p. p \<in> set ps \<Longrightarrow> p \<noteq> []) \<Longrightarrow> last (document_lines ps) = last (last ps)"
proof (induction ps rule: document_lines.induct)
  case (3 p q ps)
  then have "document_lines (q # ps) \<noteq> []" by (intro document_lines_nonempty) auto
  with 3 show ?case by simp
qed simp_all

lemma normal_block_lines:
  assumes "normal_block b"
  shows "splitlines b \<noteq> []" and "\<And>l. l \<in> set (splitlines b) \<Longrightarrow> clean_line l"
    and "join nl (splitlines b) = b" and "strip b = b"
  using assms splitlines_no_linebreak [of _ b]
  by (auto simp: normal_block_def clean_line_def list_all_iff)

lemma split_blocks_join:
  assumes "\<And>b. b \<in> set bs \<Longrightarrow> normal_block b"
  shows "split_blocks (join [10, 10] bs) = bs"
proof (cases "bs = []")
  case True
  then show ?thesis by (simp add: split_blocks_def)
next
  case False
  let ?ps = "map splitlines bs"
  have clean: "\<And>p. p \<in> set ?ps \<Longrightarrow> p \<noteq> [] \<and> (\<forall>l \<in> set p. clean_line l)"
    using assms normal_block_lines(1,2) by fastforce
  have bs: "map (join nl) ?ps = bs"
    using assms normal_block_lines(3) by (simp add: map_idI)
  then have doc: "join [10, 10] bs = join nl (document_lines ?ps)"
    using join_document_lines [of ?ps] clean by simp
  have "splitlines (join nl (document_lines ?ps)) = document_lines ?ps"
  proof (rule splitlines_join)
    show "document_lines ?ps \<noteq> []" using False clean by (intro document_lines_nonempty) auto
    have "last ?ps \<in> set ?ps" using False by (metis last_in_set map_is_Nil_conv)
    then have "clean_line (last (last ?ps))" using clean by auto
    then show "last (document_lines ?ps) \<noteq> []"
      using False clean by (subst document_lines_last) (auto dest: clean_line_nonempty)
  qed (use clean in \<open>fastforce dest!: document_lines_set simp: clean_line_def\<close>)
  moreover have "paragraphs (document_lines ?ps) = ?ps"
    using clean by (intro paragraphs_document) (auto simp: clean_line_def)
  ultimately have "split_blocks (join [10, 10] bs) = map block_of ?ps"
    by (simp only: split_blocks_eq_paragraphs doc)
  also have "\<dots> = map strip (map (join nl) ?ps)" by (simp add: block_of_def)
  also have "\<dots> = bs"
    unfolding bs using assms normal_block_lines(4) by (simp add: map_idI)
  finally show ?thesis .
qed

lemma split_blocks_chars: "b \<in> set (split_blocks s) \<Longrightarrow> c \<in> set b \<Longrightarrow> c \<in> set s \<or> c = 10"
proof -
  assume "b \<in> set (split_blocks s)" and c: "c \<in> set b"
  then obtain p where p: "p \<in> set (paragraphs (splitlines s))" and b: "b = block_of p"
    by (auto simp: split_blocks_eq_paragraphs)
  have join_set: "set (join nl ls) \<subseteq> insert 10 (\<Union> (set ` set ls))" for ls
    by (induction "nl" ls rule: join.induct) auto
  have line_set: "l \<in> set (splitlines s) \<Longrightarrow> set l \<subseteq> set s" for l s
  proof (induction s rule: splitlines.induct)
    case (1 s)
    have "set (fst (take_line s)) \<subseteq> set s \<and> set (snd (take_line s)) \<subseteq> set s"
      by (induction s) (auto split: list.splits if_splits)
    with 1 show ?case by (cases "s = []") (auto simp: splitlines.simps [of s])
  qed
  have "c \<in> set (join nl p)"
    using c set_rstrip [of "lstrip (join nl p)"] set_lstrip [of "join nl p"]
    by (auto simp: b block_of_def strip_def)
  with join_set [of p] obtain l where "c = 10 \<or> (l \<in> set p \<and> c \<in> set l)" by auto
  with paragraphs_lines [OF p] line_set [of l s] show ?thesis by auto
qed

lemma strip_blank: "blank b \<Longrightarrow> strip b = []"
proof -
  assume "blank b"
  then have "lstrip b = []" by (simp add: lstrip_def blank_def list_all_iff)
  then show ?thesis by (simp add: strip_def)
qed

section \<open>Properties\<close>

text \<open>
  C13. \<open>split_blocks\<close> computes what the module documents: the blocks are the maximal runs of lines that
  are not blank, each joined with line feeds and stripped.
\<close>

theorem split_blocks_paragraphs:
  "split_blocks manuscript = map block_of (paragraphs (splitlines manuscript))"
  by (rule split_blocks_eq_paragraphs)

text \<open>
  C14. No text is lost or invented by splitting: the visible characters of the blocks, in order, are
  those of the manuscript. In particular a manuscript gives no block exactly when it is blank, which
  is the zero-block path of the parse handler.
\<close>

theorem split_blocks_preserves_text:
  "visible (concat (split_blocks manuscript)) = visible manuscript
   \<and> (split_blocks manuscript = [] \<longleftrightarrow> blank manuscript)"
proof -
  have block: "visible (block_of p) = concat (map visible p)" for p
    by (simp add: block_of_def)
  have same: "visible (concat (split_blocks manuscript)) = visible manuscript"
    using visible_paragraphs [of "splitlines manuscript"]
    by (simp add: split_blocks_eq_paragraphs concat_visible block visible_splitlines o_def)
  have "blank manuscript \<Longrightarrow> split_blocks manuscript = []"
  proof (rule ccontr)
    assume "blank manuscript" and "split_blocks manuscript \<noteq> []"
    then obtain b where b: "b \<in> set (split_blocks manuscript)" by (meson last_in_set)
    then have "normal_block b" by (rule split_blocks_normal)
    then have "\<not> blank b" using strip_blank [of b] by (auto simp: normal_block_def)
    with b have "visible (concat (split_blocks manuscript)) \<noteq> []"
      by (auto simp: concat_visible)
    with same \<open>blank manuscript\<close> show False by simp
  qed
  then show ?thesis using same visible_blank [of manuscript] by fastforce
qed

text \<open>
  C15. Splitting is stable: every block is in normal form (no outer white space, no blank line, line
  feeds only), and joining the blocks with blank lines and splitting again gives the same blocks.
\<close>

theorem split_blocks_stable:
  "list_all normal_block (split_blocks manuscript)
   \<and> split_blocks (join [10, 10] (split_blocks manuscript)) = split_blocks manuscript"
  using split_blocks_normal split_blocks_join by (auto simp: list_all_iff)

lemma example_blocks: "split_blocks [97, 10, 10, 98] = [[97], [98]]"
  by (simp add: split_blocks_def splitlines_Cons is_linebreak_def strip_def lstrip_def rstrip_def is_space_def)

end
