(* ===== verification/Broker.thy ===== *)
theory Broker
  imports Events Config
begin

text \<open>
  \<open>core/infra/broker.py\<close>: the topology on RabbitMQ, publishing, and the routing of a failing message
  to the next delay queue or the dead-letter queue. The state is what the program declares and
  puts there: the exchange, the queues with their arguments and messages, the bindings, the
  consumers. A queue that exists with other arguments cannot be declared again, and a time to live
  is not negative; a message whose
  routing key has no binding is dropped.

  The topology is well formed in the sense of \<open>wf_broker\<close>; publishing then appends to exactly the
  queue that the key names, which is the contract of the locale \<open>router\<close>.
\<close>

section \<open>State\<close>

datatype header = HInt int | HFloat rat | HStr pystr | HOther

record msg =
  m_body :: body
  m_content_type :: "string option"
  m_persistent :: bool
  m_retry_count :: "header option"

record queue =
  q_durable :: bool
  q_ttl_ms :: "int option"
  q_dlx :: "(string \<times> string) option"
  q_msgs :: "msg list"

record consumer =
  c_queue :: string
  c_prefetch :: int
  c_no_ack :: bool

record broker =
  b_exchanges :: "string list"
  b_queues :: "string \<Rightarrow> queue option"
  b_bindings :: "(string \<times> string) list"
  b_consumers :: "consumer list"

definition empty_broker :: broker where
  "empty_broker = \<lparr>b_exchanges = [], b_queues = (\<lambda>_. None), b_bindings = [], b_consumers = []\<rparr>"

definition EXCHANGE :: string where
  "EXCHANGE = ''pipeline''"

definition Q_PARSE :: string where
  "Q_PARSE = ''q.parse''"

definition Q_TTS :: string where
  "Q_TTS = ''q.tts''"

definition Q_STITCH :: string where
  "Q_STITCH = ''q.stitch''"

definition Q_DLQ :: string where
  "Q_DLQ = ''q.dlq''"

definition live_queues :: "string list" where
  "live_queues = [Q_PARSE, Q_TTS, Q_STITCH]"

definition DEFAULT_RETRY_DELAYS :: "int list" where
  "DEFAULT_RETRY_DELAYS = [1, 4, 16]"

definition retry_q_name :: "string \<Rightarrow> int \<Rightarrow> string" where
  "retry_q_name live_queue delay_s = ''q.retry.'' @ live_queue @ ''.'' @ int_str delay_s @ ''s''"

lemmas queue_name_defs = Q_PARSE_def Q_TTS_def Q_STITCH_def Q_DLQ_def

section \<open>Declaring the topology\<close>

definition declare_exchange :: "string \<Rightarrow> broker \<Rightarrow> broker" where
  "declare_exchange name b =
    (if name \<in> set (b_exchanges b) then b else b\<lparr>b_exchanges := b_exchanges b @ [name]\<rparr>)"

definition declare_queue :: "string \<Rightarrow> int option \<Rightarrow> (string \<times> string) option \<Rightarrow> broker \<Rightarrow> broker res" where
  "declare_queue name ttl dlx b =
    (if (case ttl of Some t \<Rightarrow> t < 0 | None \<Rightarrow> False) then Inl PreconditionFailed
     else case b_queues b name of
       None \<Rightarrow> Inr (b\<lparr>b_queues := (b_queues b)
         (name := Some \<lparr>q_durable = True, q_ttl_ms = ttl, q_dlx = dlx, q_msgs = []\<rparr>)\<rparr>)
     | Some q \<Rightarrow> if q_durable q \<and> q_ttl_ms q = ttl \<and> q_dlx q = dlx then Inr b else Inl PreconditionFailed)"

definition bind_queue :: "string \<Rightarrow> string \<Rightarrow> broker \<Rightarrow> broker" where
  "bind_queue name routing_key b =
    (if (routing_key, name) \<in> set (b_bindings b) then b
     else b\<lparr>b_bindings := b_bindings b @ [(routing_key, name)]\<rparr>)"

definition declare_bound :: "string \<Rightarrow> int option \<Rightarrow> (string \<times> string) option \<Rightarrow> broker \<Rightarrow> broker res" where
  "declare_bound name ttl dlx b =
    bind_res (declare_queue name ttl dlx b) (\<lambda>b. Inr (bind_queue name name b))"

definition declare_minimal :: "broker \<Rightarrow> broker res" where
  "declare_minimal b = declare_bound Q_PARSE None None (declare_exchange EXCHANGE b)"

text \<open>The inner loop over the delays of one live queue, and the loop over the live queues.\<close>

fun declare_delays :: "string \<Rightarrow> int list \<Rightarrow> broker \<Rightarrow> broker res" where
  "declare_delays live_queue [] b = Inr b"
| "declare_delays live_queue (delay_s # ds) b =
    bind_res (declare_bound (retry_q_name live_queue delay_s) (Some (delay_s * 1000))
      (Some (EXCHANGE, live_queue)) b) (declare_delays live_queue ds)"

fun declare_live :: "int list \<Rightarrow> string list \<Rightarrow> broker \<Rightarrow> broker res" where
  "declare_live delays [] b = Inr b"
| "declare_live delays (live_queue # qs) b =
    bind_res (declare_bound live_queue None None b) (\<lambda>b.
    bind_res (declare_delays live_queue delays b) (declare_live delays qs))"

definition declare_full :: "int list \<Rightarrow> broker \<Rightarrow> broker res" where
  "declare_full delays b =
    bind_res (declare_bound Q_DLQ None None (declare_exchange EXCHANGE b))
      (declare_live delays live_queues)"

section \<open>Publishing and consuming\<close>

definition enqueue :: "msg \<Rightarrow> string \<Rightarrow> broker \<Rightarrow> broker" where
  "enqueue m name b =
    (case b_queues b name of
       None \<Rightarrow> b
     | Some q \<Rightarrow> b\<lparr>b_queues := (b_queues b)(name := Some (q\<lparr>q_msgs := q_msgs q @ [m]\<rparr>))\<rparr>)"

text \<open>A direct exchange delivers to every queue bound with exactly the routing key.\<close>

definition exchange_publish :: "broker \<Rightarrow> msg \<Rightarrow> string \<Rightarrow> broker" where
  "exchange_publish b m routing_key =
    fold (enqueue m) [q. (k, q) \<leftarrow> b_bindings b, k = routing_key] b"

definition publish :: "broker \<Rightarrow> event \<Rightarrow> string \<Rightarrow> broker" where
  "publish b e routing_key =
    exchange_publish b
      \<lparr>m_body = model_dump_json e, m_content_type = Some ''application/json'',
       m_persistent = True, m_retry_count = None\<rparr> routing_key"

definition publish_with_retry_count :: "broker \<Rightarrow> body \<Rightarrow> string \<Rightarrow> int \<Rightarrow> string \<Rightarrow> broker" where
  "publish_with_retry_count b bd routing_key retry_count content_type =
    exchange_publish b
      \<lparr>m_body = bd, m_content_type = Some content_type,
       m_persistent = True, m_retry_count = Some (HInt retry_count)\<rparr> routing_key"

text \<open>\<open>int(x)\<close> of a float truncates towards zero.\<close>

definition int_of_float :: "rat \<Rightarrow> int" where
  "int_of_float x = (if 0 \<le> x then \<lfloor>x\<rfloor> else \<lceil>x\<rceil>)"

definition get_retry_count :: "msg \<Rightarrow> int res" where
  "get_retry_count m =
    (case m_retry_count m of
       None \<Rightarrow> Inr 0
     | Some (HInt k) \<Rightarrow> Inr k
     | Some (HFloat x) \<Rightarrow> Inr (int_of_float x)
     | Some (HStr s) \<Rightarrow> py_int s
     | Some HOther \<Rightarrow> Inr 0)"

text \<open>Indexing a tuple: negative indices count from the end.\<close>

definition py_index :: "'a list \<Rightarrow> int \<Rightarrow> 'a res" where
  "py_index xs i =
    (let j = (if i < 0 then int (length xs) + i else i)
     in if 0 \<le> j \<and> j < int (length xs) then Inr (xs ! nat j) else Inl IndexError)"

definition retried_msg :: "msg \<Rightarrow> int \<Rightarrow> msg" where
  "retried_msg m count =
    \<lparr>m_body = m_body m,
     m_content_type = Some (case m_content_type m of Some c \<Rightarrow> if c = [] then ''application/json'' else c
       | None \<Rightarrow> ''application/json''),
     m_persistent = True, m_retry_count = Some (HInt count)\<rparr>"

definition route_retry_or_dlq :: "broker \<Rightarrow> msg \<Rightarrow> string \<Rightarrow> int \<Rightarrow> int list \<Rightarrow> broker res" where
  "route_retry_or_dlq b m live_queue max_retries delays =
    bind_res (get_retry_count m) (\<lambda>prev.
      let count = prev + 1
      in if count > max_retries then Inr (exchange_publish b (retried_msg m count) Q_DLQ)
         else bind_res (py_index delays (min (count - 1) (int (length delays) - 1))) (\<lambda>delay_s.
           Inr (exchange_publish b (retried_msg m count) (retry_q_name live_queue delay_s))))"

definition consume :: "broker \<Rightarrow> string \<Rightarrow> int \<Rightarrow> broker" where
  "consume b name prefetch =
    b\<lparr>b_consumers := b_consumers b @ [\<lparr>c_queue = name, c_prefetch = prefetch, c_no_ack = False\<rparr>]\<rparr>"

text \<open>
  The head of a delay queue after its time to live: it is published to the dead-letter exchange
  with the queue's dead-letter key. The declared arguments of the queue say where it goes.
\<close>

definition expire_head :: "broker \<Rightarrow> string \<Rightarrow> broker option" where
  "expire_head b name =
    (case b_queues b name of
       Some q \<Rightarrow>
         (case (q_msgs q, q_dlx q) of
            (m # ms, Some (_, key)) \<Rightarrow>
              Some (exchange_publish (b\<lparr>b_queues := (b_queues b)(name := Some (q\<lparr>q_msgs := ms\<rparr>))\<rparr>) m key)
          | _ \<Rightarrow> None)
     | None \<Rightarrow> None)"

section \<open>The topology is well formed\<close>

definition msgs_in :: "broker \<Rightarrow> string \<Rightarrow> msg list" where
  "msgs_in b name = (case b_queues b name of Some q \<Rightarrow> q_msgs q | None \<Rightarrow> [])"

definition bound :: "broker \<Rightarrow> string \<Rightarrow> bool" where
  "bound b key \<longleftrightarrow> (key, key) \<in> set (b_bindings b)"

text \<open>What the declarations give each queue, by its name.\<close>

definition queue_args_ok :: "string \<Rightarrow> queue \<Rightarrow> bool" where
  "queue_args_ok name q \<longleftrightarrow> q_durable q \<and>
    ((name \<in> set (Q_DLQ # live_queues) \<and> q_ttl_ms q = None \<and> q_dlx q = None)
     \<or> (\<exists>live \<in> set live_queues. \<exists>d. name = retry_q_name live d
          \<and> q_ttl_ms q = Some (d * 1000) \<and> q_dlx q = Some (EXCHANGE, live)))"

definition wf_broker :: "broker \<Rightarrow> bool" where
  "wf_broker b \<longleftrightarrow>
    distinct (b_bindings b)
    \<and> (\<forall>(k, q) \<in> set (b_bindings b). k = q \<and> b_queues b q \<noteq> None)
    \<and> (\<forall>name q. b_queues b name = Some q \<longrightarrow> queue_args_ok name q)"

lemma live_queue_names [simp]:
  "Q_DLQ \<noteq> Q_PARSE" "Q_DLQ \<noteq> Q_TTS" "Q_DLQ \<noteq> Q_STITCH" "Q_PARSE \<noteq> Q_TTS" "Q_PARSE \<noteq> Q_STITCH"
  "Q_TTS \<noteq> Q_STITCH" "Q_PARSE \<noteq> Q_DLQ" "Q_TTS \<noteq> Q_DLQ" "Q_STITCH \<noteq> Q_DLQ" "Q_TTS \<noteq> Q_PARSE"
  "Q_STITCH \<noteq> Q_PARSE" "Q_STITCH \<noteq> Q_TTS"
  by (simp_all add: queue_name_defs)

lemma retry_q_name_not_live [simp]:
  "retry_q_name l d \<noteq> Q_DLQ" "retry_q_name l d \<noteq> Q_PARSE" "retry_q_name l d \<noteq> Q_TTS"
  "retry_q_name l d \<noteq> Q_STITCH"
  by (simp_all add: retry_q_name_def queue_name_defs)

lemma retry_q_name_inj:
  assumes "l \<in> set live_queues" and "l' \<in> set live_queues"
  shows "retry_q_name l d = retry_q_name l' d' \<longleftrightarrow> l = l' \<and> d = d'"
  using assms by (auto simp: retry_q_name_def live_queues_def queue_name_defs)

lemma wf_empty_broker: "wf_broker empty_broker"
  by (simp add: wf_broker_def empty_broker_def)

text \<open>A queue name determines its arguments, so no declaration is refused.\<close>

lemma declare_bound_ok:
  assumes "wf_broker b" and "queue_args_ok name \<lparr>q_durable = True, q_ttl_ms = ttl, q_dlx = dlx, q_msgs = []\<rparr>"
    and "\<And>t. ttl = Some t \<Longrightarrow> 0 \<le> t"
  obtains b' where "declare_bound name ttl dlx b = Inr b'" "wf_broker b'" "bound b' name"
    "\<And>k. bound b k \<Longrightarrow> bound b' k" "\<And>q. msgs_in b' q = msgs_in b q"
proof -
  have args: "q_durable q \<and> q_ttl_ms q = ttl \<and> q_dlx q = dlx" if "b_queues b name = Some q" for q
  proof -
    have "queue_args_ok name q" using assms(1) that by (simp add: wf_broker_def)
    with assms(2) show ?thesis
      by (auto simp: queue_args_ok_def retry_q_name_inj) (auto simp: live_queues_def)
  qed
  define b1 where "b1 = (if b_queues b name = None then b\<lparr>b_queues := (b_queues b)
      (name := Some \<lparr>q_durable = True, q_ttl_ms = ttl, q_dlx = dlx, q_msgs = []\<rparr>)\<rparr> else b)"
  have decl: "declare_queue name ttl dlx b = Inr b1"
    using args assms(3) by (auto simp: declare_queue_def b1_def split: option.split)
  have wf1: "wf_broker b1" "b_queues b1 name \<noteq> None"
    using assms by (auto simp: b1_def wf_broker_def)
  have same: "b_bindings b1 = b_bindings b" "\<And>q. msgs_in b1 q = msgs_in b q"
    by (auto simp: b1_def msgs_in_def)
  show ?thesis
  proof (rule that)
    show "declare_bound name ttl dlx b = Inr (bind_queue name name b1)"
      by (simp add: declare_bound_def decl)
    show "wf_broker (bind_queue name name b1)"
      using wf1 by (auto simp: bind_queue_def wf_broker_def)
    show "bound (bind_queue name name b1) name" by (simp add: bind_queue_def bound_def)
    show "\<And>k. bound b k \<Longrightarrow> bound (bind_queue name name b1) k"
      by (simp add: bind_queue_def bound_def same)
    show "\<And>q. msgs_in (bind_queue name name b1) q = msgs_in b q"
      using same(2) by (simp add: bind_queue_def msgs_in_def)
  qed
qed

lemma declare_delays_ok:
  assumes "live \<in> set live_queues" and "wf_broker b" and "\<forall>d \<in> set ds. 0 \<le> d"
  shows "\<exists>b'. declare_delays live ds b = Inr b' \<and> wf_broker b'
    \<and> (\<forall>d \<in> set ds. bound b' (retry_q_name live d)) \<and> (\<forall>k. bound b k \<longrightarrow> bound b' k)
    \<and> (\<forall>q. msgs_in b' q = msgs_in b q)"
  using assms(2,3)
proof (induction ds arbitrary: b)
  case (Cons d ds)
  have "queue_args_ok (retry_q_name live d)
      \<lparr>q_durable = True, q_ttl_ms = Some (d * 1000), q_dlx = Some (EXCHANGE, live), q_msgs = []\<rparr>"
    using assms(1) by (auto simp: queue_args_ok_def)
  with Cons.prems(1) obtain b1 where b1: "declare_bound (retry_q_name live d) (Some (d * 1000))
      (Some (EXCHANGE, live)) b = Inr b1" "wf_broker b1" "bound b1 (retry_q_name live d)"
    "\<And>k. bound b k \<Longrightarrow> bound b1 k" "\<And>q. msgs_in b1 q = msgs_in b q"
    by (rule declare_bound_ok) (use Cons.prems(2) in auto)
  with Cons.IH [OF b1(2)] Cons.prems(2) show ?case by auto
qed auto

lemma declare_live_ok:
  assumes "set qs \<subseteq> set live_queues" and "wf_broker b" and "\<forall>d \<in> set ds. 0 \<le> d"
  shows "\<exists>b'. declare_live ds qs b = Inr b' \<and> wf_broker b'
    \<and> (\<forall>l \<in> set qs. bound b' l \<and> (\<forall>d \<in> set ds. bound b' (retry_q_name l d)))
    \<and> (\<forall>k. bound b k \<longrightarrow> bound b' k) \<and> (\<forall>q. msgs_in b' q = msgs_in b q)"
  using assms
proof (induction qs arbitrary: b)
  case (Cons l qs)
  have l: "l \<in> set live_queues" using Cons.prems by simp
  then have "queue_args_ok l \<lparr>q_durable = True, q_ttl_ms = None, q_dlx = None, q_msgs = []\<rparr>"
    by (auto simp: queue_args_ok_def)
  with Cons.prems(2) obtain b1 where b1: "declare_bound l None None b = Inr b1" "wf_broker b1" "bound b1 l"
    "\<And>k. bound b k \<Longrightarrow> bound b1 k" "\<And>q. msgs_in b1 q = msgs_in b q"
    by (rule declare_bound_ok) auto
  obtain b2 where b2: "declare_delays l ds b1 = Inr b2" "wf_broker b2"
    "\<forall>d \<in> set ds. bound b2 (retry_q_name l d)" "\<forall>k. bound b1 k \<longrightarrow> bound b2 k"
    "\<forall>q. msgs_in b2 q = msgs_in b1 q"
    using declare_delays_ok [OF l b1(2) Cons.prems(3)] by blast
  have "set qs \<subseteq> set live_queues" using Cons.prems by simp
  from Cons.IH [OF this b2(2) Cons.prems(3)] show ?case using b1 b2 by auto
qed auto

lemma wf_declare_exchange [simp]:
  "wf_broker (declare_exchange x b) = wf_broker b" "bound (declare_exchange x b) k = bound b k"
  "msgs_in (declare_exchange x b) q = msgs_in b q"
  by (simp_all add: declare_exchange_def wf_broker_def bound_def msgs_in_def)

lemma declare_full_ok:
  assumes "wf_broker b" and "\<forall>d \<in> set ds. 0 \<le> d"
  shows "\<exists>b'. declare_full ds b = Inr b' \<and> wf_broker b' \<and> bound b' Q_DLQ
    \<and> (\<forall>l \<in> set live_queues. bound b' l \<and> (\<forall>d \<in> set ds. bound b' (retry_q_name l d)))
    \<and> (\<forall>k. bound b k \<longrightarrow> bound b' k) \<and> (\<forall>q. msgs_in b' q = msgs_in b q)"
proof -
  have "queue_args_ok Q_DLQ \<lparr>q_durable = True, q_ttl_ms = None, q_dlx = None, q_msgs = []\<rparr>"
    by (simp add: queue_args_ok_def)
  with assms(1) obtain b1 where b1: "declare_bound Q_DLQ None None (declare_exchange EXCHANGE b) = Inr b1"
    "wf_broker b1" "bound b1 Q_DLQ" "\<And>k. bound b k \<Longrightarrow> bound b1 k" "\<And>q. msgs_in b1 q = msgs_in b q"
    using declare_bound_ok [of "declare_exchange EXCHANGE b" Q_DLQ None None] by auto
  with declare_live_ok [of live_queues b1 ds] assms(2) show ?thesis
    by (auto simp: declare_full_def)
qed

section \<open>Publishing appends to the named queue\<close>

lemma bindings_of_key:
  assumes "wf_broker b"
  shows "[q. (k, q) \<leftarrow> b_bindings b, k = key] = (if bound b key then [key] else [])"
proof -
  have unique: "distinct bs \<Longrightarrow> (\<forall>(k, q) \<in> set bs. k = q) \<Longrightarrow>
      [q. (k, q) \<leftarrow> bs, k = key] = (if (key, key) \<in> set bs then [key] else [])" for bs
  proof (induction bs)
    case (Cons p bs)
    obtain k where p: "p = (k, k)" using Cons.prems(2) by (cases p) auto
    from Cons.prems have "(key, key) \<notin> set bs \<Longrightarrow> [q. (k, q) \<leftarrow> bs, k = key] = []"
      using Cons.IH by auto
    then show ?case using Cons p by auto
  qed simp
  have "distinct (b_bindings b)" "\<forall>(k, q) \<in> set (b_bindings b). k = q"
    using assms by (auto simp: wf_broker_def)
  from unique [OF this] show ?thesis by (simp add: bound_def)
qed

lemma exchange_publish_eq:
  assumes "wf_broker b"
  shows "exchange_publish b m key = (if bound b key then enqueue m key b else b)"
  using bindings_of_key [OF assms, of key] by (simp add: exchange_publish_def)

lemma wf_enqueue: "wf_broker b \<Longrightarrow> wf_broker (enqueue m q b)"
  by (auto simp: enqueue_def wf_broker_def queue_args_ok_def split: option.split)

lemma bound_enqueue [simp]: "bound (enqueue m q b) k = bound b k"
  by (simp add: enqueue_def bound_def split: option.split)

lemma bound_queue: "wf_broker b \<Longrightarrow> bound b k \<Longrightarrow> \<exists>q. b_queues b k = Some q"
  by (auto simp: wf_broker_def bound_def)

locale router =
  fixes wf :: "'b \<Rightarrow> bool"
    and is_bound :: "'b \<Rightarrow> string \<Rightarrow> bool"
    and contents :: "'b \<Rightarrow> string \<Rightarrow> 'm list"
    and put :: "'b \<Rightarrow> 'm \<Rightarrow> string \<Rightarrow> 'b"
  assumes wf_put: "wf b \<Longrightarrow> wf (put b m k)"
    and bound_put: "wf b \<Longrightarrow> is_bound (put b m k) k' = is_bound b k'"
    and contents_put: "wf b \<Longrightarrow> contents (put b m k) q =
      (if q = k \<and> is_bound b k then contents b q @ [m] else contents b q)"
begin

text \<open>A fan-out: one message after another to the same key arrives complete and in order.\<close>

lemma fan_out:
  "wf b \<Longrightarrow> is_bound b k \<Longrightarrow>
    wf (fold (\<lambda>m b. put b m k) ms b)
    \<and> contents (fold (\<lambda>m b. put b m k) ms b) q = (if q = k then contents b q @ ms else contents b q)"
proof (induction ms arbitrary: b)
  case (Cons m ms)
  then show ?case
    using Cons.IH [of "put b m k"] by (simp add: wf_put bound_put contents_put)
qed simp

lemma fan_out_bound: "wf b \<Longrightarrow> is_bound (fold (\<lambda>m b. put b m k) ms b) k' = is_bound b k'"
  by (induction ms arbitrary: b) (simp_all add: wf_put bound_put)

end

interpretation amqp: router wf_broker bound msgs_in exchange_publish
proof
  fix b m k q k'
  assume wf: "wf_broker b"
  show "wf_broker (exchange_publish b m k)"
    using wf by (simp add: exchange_publish_eq wf_enqueue)
  show "bound (exchange_publish b m k) k' = bound b k'"
    using wf by (simp add: exchange_publish_eq)
  show "msgs_in (exchange_publish b m k) q =
      (if q = k \<and> bound b k then msgs_in b q @ [m] else msgs_in b q)"
    using wf bound_queue [OF wf, of k]
    by (auto simp: exchange_publish_eq enqueue_def msgs_in_def)
qed

section \<open>Routing a failing message\<close>

lemma py_index_last:
  assumes "xs \<noteq> []" and "0 \<le> i"
  shows "py_index xs (min i (int (length xs) - 1)) = Inr (xs ! min (nat i) (length xs - 1))"
proof -
  have "nat (min i (int (length xs) - 1)) = min (nat i) (length xs - 1)"
    using assms by (simp add: min_def nat_le_eq_zle) linarith
  then show ?thesis
    using assms by (auto simp: py_index_def Let_def min_def)
qed

lemma route_dlq:
  "get_retry_count m = Inr c \<Longrightarrow> max_retries \<le> c \<Longrightarrow>
    route_retry_or_dlq b m live max_retries ds = Inr (exchange_publish b (retried_msg m (c + 1)) Q_DLQ)"
  by (simp add: route_retry_or_dlq_def Let_def)

lemma route_retry:
  assumes "get_retry_count m = Inr c" and "0 \<le> c" and "c < max_retries" and "ds \<noteq> []"
  shows "route_retry_or_dlq b m live max_retries ds =
    Inr (exchange_publish b (retried_msg m (c + 1))
      (retry_q_name live (ds ! min (nat c) (length ds - 1))))"
  using assms py_index_last [of ds c] by (simp add: route_retry_or_dlq_def Let_def)

lemma get_retry_count_retried [simp]: "get_retry_count (retried_msg m c) = Inr c"
  by (simp add: get_retry_count_def retried_msg_def)

section \<open>The message of an event\<close>

definition event_msg :: "event \<Rightarrow> msg" where
  "event_msg e = \<lparr>m_body = model_dump_json e, m_content_type = Some ''application/json'',
     m_persistent = True, m_retry_count = None\<rparr>"

lemma publish_eq: "publish b e key = exchange_publish b (event_msg e) key"
  by (simp add: publish_def event_msg_def)

lemma event_msg_body [simp]: "m_body (event_msg e) = model_dump_json e"
  by (simp add: event_msg_def)

lemma publish_stitch_msgs:
  assumes "wf_broker b" and "bound b Q_STITCH"
  shows "msgs_in (exchange_publish b m Q_STITCH) q = msgs_in b q @ (if q = Q_STITCH then [m] else [])"
  using assms by (simp add: amqp.contents_put)

section \<open>Properties\<close>

lemma empty_declared: "\<forall>d \<in> set ds. 0 \<le> d \<Longrightarrow> \<exists>b'. declare_full ds empty_broker = Inr b' \<and> wf_broker b' \<and> bound b' Q_DLQ
    \<and> (\<forall>l \<in> set live_queues. bound b' l \<and> (\<forall>d \<in> set ds. bound b' (retry_q_name l d)))
    \<and> (\<forall>q. msgs_in b' q = [])"
proof -
  have "msgs_in empty_broker q = []" for q by (simp add: msgs_in_def empty_broker_def)
  moreover assume "\<forall>d \<in> set ds. 0 \<le> d"
  ultimately show ?thesis using declare_full_ok [OF wf_empty_broker, of ds] by simp blast
qed

text \<open>
  C23. The topology: \<open>declare_full\<close> succeeds on every broker it or an earlier boot has set up, for any
  list of delays that are not negative, also a changed one; it loses no message and removes no binding; and afterwards
  the dead-letter queue, every live queue and every delay queue of every live queue is bound.
\<close>

theorem declare_full_topology:
  assumes "wf_broker b" and "\<forall>d \<in> set ds. 0 \<le> d"
  shows "\<exists>b'. declare_full ds b = Inr b' \<and> wf_broker b' \<and> bound b' Q_DLQ
    \<and> (\<forall>l \<in> set live_queues. bound b' l \<and> (\<forall>d \<in> set ds. bound b' (retry_q_name l d)))
    \<and> (\<forall>k. bound b k \<longrightarrow> bound b' k) \<and> (\<forall>q. msgs_in b' q = msgs_in b q)"
  by (rule declare_full_ok [OF assms])

theorem declare_full_topology_witness:
  "\<exists>b'. declare_full [1, 4, 16] empty_broker = Inr b' \<and> bound b' Q_TTS \<and> bound b' (retry_q_name Q_TTS 16)"
  using declare_full_topology [OF wf_empty_broker, of "[1, 4, 16]"] by (auto simp: live_queues_def)

text \<open>
  C24. A failing message is never lost by routing and climbs the ladder: with a count below the
  maximum it goes to the delay queue of its live queue with the delay of that attempt (the last
  delay when there are fewer), otherwise to the dead-letter queue; it is appended there exactly
  once, with its body unchanged and the count one higher, and no other queue changes.
\<close>

theorem retry_ladder:
  assumes "wf_broker b" and "live \<in> set live_queues" and "ds \<noteq> []"
    and "bound b Q_DLQ" and "\<forall>d \<in> set ds. bound b (retry_q_name live d)"
    and "get_retry_count m = Inr c" and "0 \<le> c"
  shows "\<exists>b'. route_retry_or_dlq b m live max_retries ds = Inr b'
    \<and> (let target = (if max_retries \<le> c then Q_DLQ
         else retry_q_name live (ds ! min (nat c) (length ds - 1)))
       in \<forall>q. msgs_in b' q = (if q = target then msgs_in b q @ [retried_msg m (c + 1)] else msgs_in b q))
    \<and> m_body (retried_msg m (c + 1)) = m_body m \<and> get_retry_count (retried_msg m (c + 1)) = Inr (c + 1)"
proof -
  have mem: "ds ! min (nat c) (length ds - 1) \<in> set ds" using assms(3) by (intro nth_mem) (cases ds, auto)
  have body: "m_body (retried_msg m (c + 1)) = m_body m" by (simp add: retried_msg_def)
  have "max_retries \<le> c \<Longrightarrow> ?thesis"
    using assms(1,4) route_dlq [OF assms(6)] body by (simp add: amqp.contents_put)
  moreover have "c < max_retries \<Longrightarrow> ?thesis"
    using assms(1,5) mem route_retry [OF assms(6,7) _ assms(3)] body
    by (simp add: amqp.contents_put)
  ultimately show ?thesis using not_le by blast
qed

theorem retry_ladder_witness:
  "\<exists>b b'. declare_full [1, 4, 16] empty_broker = Inr b
    \<and> route_retry_or_dlq b \<lparr>m_body = NotJson, m_content_type = None, m_persistent = True, m_retry_count = Some (HInt 1)\<rparr>
        Q_TTS 3 [1, 4, 16] = Inr b'
    \<and> length (msgs_in b' (retry_q_name Q_TTS 4)) = 1"
proof -
  obtain b where b: "declare_full [1, 4, 16] empty_broker = Inr b" "wf_broker b" "bound b Q_DLQ"
    "\<forall>l \<in> set live_queues. bound b l \<and> (\<forall>d \<in> set [1, 4, 16]. bound b (retry_q_name l d))"
    "\<forall>q. msgs_in b q = []"
    using empty_declared [of "[1, 4, 16]"] by (simp only: list.set ball_simps) auto
  have live: "Q_TTS \<in> set live_queues" by (simp add: live_queues_def)
  let ?m = "\<lparr>m_body = NotJson, m_content_type = None, m_persistent = True, m_retry_count = Some (HInt 1)\<rparr>"
  have "get_retry_count ?m = Inr 1" by (simp add: get_retry_count_def)
  from retry_ladder [OF b(2) live _ b(3) _ this, of "[1, 4, 16]" 3] b(4) live
  obtain b' where "route_retry_or_dlq b ?m Q_TTS 3 [1, 4, 16] = Inr b'"
    "\<forall>q. msgs_in b' q = (if q = retry_q_name Q_TTS 4 then msgs_in b q @ [retried_msg ?m 2] else msgs_in b q)"
    by (auto simp: Let_def)
  with b(1,5) show ?thesis by auto
qed

text \<open>A broker with the whole topology declared.\<close>

definition ready_broker :: broker where
  "ready_broker = (case declare_full DEFAULT_RETRY_DELAYS empty_broker of Inr b \<Rightarrow> b | Inl _ \<Rightarrow> empty_broker)"

lemma ready_broker_ok:
  "wf_broker ready_broker" "bound ready_broker Q_PARSE" "bound ready_broker Q_TTS" "bound ready_broker Q_STITCH"
  "bound ready_broker Q_DLQ" "msgs_in ready_broker q = []"
proof -
  have "\<forall>d \<in> set DEFAULT_RETRY_DELAYS. 0 \<le> d" by (simp add: DEFAULT_RETRY_DELAYS_def)
  from empty_declared [OF this] obtain b where "declare_full DEFAULT_RETRY_DELAYS empty_broker = Inr b"
    "wf_broker b" "bound b Q_DLQ" "\<forall>l \<in> set live_queues. bound b l" "\<forall>q. msgs_in b q = []"
    by blast
  then show "wf_broker ready_broker" "bound ready_broker Q_PARSE" "bound ready_broker Q_TTS"
    "bound ready_broker Q_STITCH" "bound ready_broker Q_DLQ" "msgs_in ready_broker q = []"
    by (simp_all add: ready_broker_def live_queues_def)
qed

end
