(* ===== verification/Content_Hash.thy ===== *)
theory Content_Hash
  imports Text_Blocks
begin

text \<open>
  \<open>core/domain/hash.py\<close>: \<open>content_hash\<close>, the SHA-256 digest of the UTF-8 encoding of a block. The
  parts of the standard library it calls are modelled: \<open>str.encode\<close> and \<open>bytes.decode\<close> (strict
  UTF-8, also used by the storage adapter) and \<open>hashlib.sha256(..).hexdigest()\<close> on 32-bit words.
  Decoding undoes encoding, and the digest is always 64 lower-case hexadecimal characters.
\<close>

section \<open>UTF-8\<close>

text \<open>The code points that UTF-8 can encode: all but the surrogates.\<close>

definition scalar :: "nat \<Rightarrow> bool" where
  "scalar c \<longleftrightarrow> c < 1114112 \<and> \<not> (55296 \<le> c \<and> c \<le> 57343)"

definition utf8_char :: "nat \<Rightarrow> nat list" where
  "utf8_char c =
    (if c < 128 then [c]
     else if c < 2048 then [192 + c div 64, 128 + c mod 64]
     else if c < 65536 then [224 + c div 4096, 128 + c div 64 mod 64, 128 + c mod 64]
     else [240 + c div 262144, 128 + c div 4096 mod 64, 128 + c div 64 mod 64, 128 + c mod 64])"

definition utf8_encode :: "pystr \<Rightarrow> bytes res" where
  "utf8_encode s =
    (if list_all scalar s then Inr (map word_of_nat (concat (map utf8_char s)))
     else Inl UnicodeEncodeError)"

definition continuation :: "nat \<Rightarrow> bool" where
  "continuation b \<longleftrightarrow> 128 \<le> b \<and> b < 192"

fun utf8_scan :: "nat list \<Rightarrow> pystr option" where
  "utf8_scan [] = Some []"
| "utf8_scan (b # bs) =
    (if b < 128 then map_option ((#) b) (utf8_scan bs)
     else if b < 194 then None
     else if b < 224 then
       (case bs of
          b1 # r \<Rightarrow>
            if continuation b1
            then map_option ((#) ((b - 192) * 64 + (b1 - 128))) (utf8_scan r) else None
        | _ \<Rightarrow> None)
     else if b < 240 then
       (case bs of
          b1 # b2 # r \<Rightarrow>
            (let c = (b - 224) * 4096 + (b1 - 128) * 64 + (b2 - 128)
             in if continuation b1 \<and> continuation b2 \<and> 2048 \<le> c \<and> scalar c
                then map_option ((#) c) (utf8_scan r) else None)
        | _ \<Rightarrow> None)
     else if b < 245 then
       (case bs of
          b1 # b2 # b3 # r \<Rightarrow>
            (let c = (b - 240) * 262144 + (b1 - 128) * 4096 + (b2 - 128) * 64 + (b3 - 128)
             in if continuation b1 \<and> continuation b2 \<and> continuation b3 \<and> 65536 \<le> c \<and> scalar c
                then map_option ((#) c) (utf8_scan r) else None)
        | _ \<Rightarrow> None)
     else None)"

declare utf8_scan.simps(2) [simp del]

definition utf8_decode :: "bytes \<Rightarrow> pystr res" where
  "utf8_decode b = (case utf8_scan (map unat b) of Some s \<Rightarrow> Inr s | None \<Rightarrow> Inl UnicodeDecodeError)"

lemma utf8_char_range: "scalar c \<Longrightarrow> x \<in> set (utf8_char c) \<Longrightarrow> x < 256"
  by (auto simp: utf8_char_def scalar_def split: if_splits)

lemma div_mod_64: "c div 64 * 64 + c mod 64 = (c :: nat)"
  by simp

lemma div_mod_4096: "c div 4096 * 4096 + c div 64 mod 64 * 64 + c mod 64 = (c :: nat)"
proof -
  have "c div 4096 = c div 64 div 64" by (simp add: div_mult2_eq [symmetric])
  moreover have "c div 64 div 64 * 64 + c div 64 mod 64 = c div 64" by (rule div_mult_mod_eq)
  moreover have "c div 64 * 64 + c mod 64 = c" by (rule div_mult_mod_eq)
  ultimately show ?thesis by linarith
qed

lemma div_mod_262144:
  "c div 262144 * 262144 + c div 4096 mod 64 * 4096 + c div 64 mod 64 * 64 + c mod 64 = (c :: nat)"
proof -
  have "c div 262144 = c div 4096 div 64" by (simp add: div_mult2_eq [symmetric])
  moreover have "c div 4096 div 64 * 64 + c div 4096 mod 64 = c div 4096" by (rule div_mult_mod_eq)
  ultimately show ?thesis using div_mod_4096 [of c] by linarith
qed

lemma continuation_low [simp]: "continuation (128 + x mod 64)"
  by (simp add: continuation_def)

lemma utf8_scan_char:
  assumes "scalar c"
  shows "utf8_scan (utf8_char c @ r) = map_option ((#) c) (utf8_scan r)"
proof -
  consider "c < 128" | "128 \<le> c" "c < 2048" | "2048 \<le> c" "c < 65536" | "65536 \<le> c"
    by linarith
  then show ?thesis
  proof cases
    case 1
    then show ?thesis by (simp add: utf8_char_def utf8_scan.simps(2))
  next
    case 2
    then have "2 \<le> c div 64" "c div 64 < 32" by auto
    with 2 show ?thesis
      by (simp add: utf8_char_def utf8_scan.simps(2) div_mod_64)
  next
    case 3
    then have "c div 4096 < 16" by auto
    with 3 assms show ?thesis
      by (simp add: utf8_char_def utf8_scan.simps(2) div_mod_4096 Let_def)
  next
    case 4
    with assms have "c div 262144 < 5" by (auto simp: scalar_def)
    with 4 assms show ?thesis
      by (simp add: utf8_char_def utf8_scan.simps(2) div_mod_262144 Let_def)
  qed
qed

lemma utf8_scan_concat: "list_all scalar s \<Longrightarrow> utf8_scan (concat (map utf8_char s)) = Some s"
  by (induction s) (simp_all add: utf8_scan_char)

lemma unat_byte: "n < 256 \<Longrightarrow> unat (word_of_nat n :: 8 word) = n"
  by (simp add: unat_of_nat)

lemma utf8_decode_encode: "utf8_encode s = Inr b \<Longrightarrow> utf8_decode b = Inr s"
proof -
  assume "utf8_encode s = Inr b"
  then have s: "list_all scalar s" and b: "b = map word_of_nat (concat (map utf8_char s))"
    by (auto simp: utf8_encode_def split: if_splits)
  have "map unat b = concat (map utf8_char s)"
    using s unfolding b map_map
    by (intro map_idI) (auto simp: list_all_iff intro!: unat_byte dest: utf8_char_range)
  with s show ?thesis by (simp add: utf8_decode_def utf8_scan_concat)
qed

lemma utf8_scan_Cons:
  assumes "utf8_scan (b # bs) = Some s"
  obtains c r s' where "s = c # s'" "utf8_scan r = Some s'" "length r \<le> length bs" "scalar c"
proof -
  consider "b < 128" | "194 \<le> b" "b < 224" | "224 \<le> b" "b < 240" | "240 \<le> b" "b < 245"
    using assms by (force simp: utf8_scan.simps(2) split: if_splits)
  then show ?thesis
  proof cases
    case 1
    with assms that [of b _ bs] show ?thesis
      by (auto simp: utf8_scan.simps(2) scalar_def)
  next
    case 2
    with assms obtain b1 r where bs: "bs = b1 # r" "continuation b1"
      "map_option ((#) ((b - 192) * 64 + (b1 - 128))) (utf8_scan r) = Some s"
      by (auto simp: utf8_scan.simps(2) split: list.splits if_splits)
    have "(b - 192) * 64 + (b1 - 128) < 2048" using 2 bs(2) unfolding continuation_def by arith
    then have "scalar ((b - 192) * 64 + (b1 - 128))" by (simp add: scalar_def)
    with bs that [of "(b - 192) * 64 + (b1 - 128)" _ r] show ?thesis by auto
  next
    case 3
    with assms obtain b1 b2 r c where "bs = b1 # b2 # r" "scalar c"
      "map_option ((#) c) (utf8_scan r) = Some s"
      by (auto simp: utf8_scan.simps(2) Let_def split: list.splits if_splits)
    with that [of c _ r] show ?thesis by auto
  next
    case 4
    with assms obtain b1 b2 b3 r c where "bs = b1 # b2 # b3 # r" "scalar c"
      "map_option ((#) c) (utf8_scan r) = Some s"
      by (auto simp: utf8_scan.simps(2) Let_def split: list.splits if_splits)
    with that [of c _ r] show ?thesis by auto
  qed
qed

lemma utf8_scan_scalar: "utf8_scan bs = Some s \<Longrightarrow> list_all scalar s"
proof (induction bs arbitrary: s rule: length_induct)
  case (1 bs)
  show ?case
  proof (cases bs)
    case Nil
    with "1.prems" show ?thesis by simp
  next
    case (Cons b bs')
    with "1.prems" obtain c r s' where "s = c # s'" "utf8_scan r = Some s'" "length r \<le> length bs'"
      "scalar c"
      by (metis utf8_scan_Cons)
    moreover have "length r < length bs" using Cons calculation(3) by simp
    ultimately show ?thesis using "1.IH" by auto
  qed
qed

lemma utf8_decode_scalar: "utf8_decode b = Inr s \<Longrightarrow> list_all scalar s"
  by (auto simp: utf8_decode_def utf8_scan_scalar split: option.splits)

section \<open>SHA-256\<close>

type_synonym w32 = "32 word"

unbundle bit_operations_syntax

definition sha_k :: "w32 list" where
  "sha_k =
    [0x428a2f98, 0x71374491, 0xb5c0fbcf, 0xe9b5dba5, 0x3956c25b, 0x59f111f1, 0x923f82a4, 0xab1c5ed5,
     0xd807aa98, 0x12835b01, 0x243185be, 0x550c7dc3, 0x72be5d74, 0x80deb1fe, 0x9bdc06a7, 0xc19bf174,
     0xe49b69c1, 0xefbe4786, 0x0fc19dc6, 0x240ca1cc, 0x2de92c6f, 0x4a7484aa, 0x5cb0a9dc, 0x76f988da,
     0x983e5152, 0xa831c66d, 0xb00327c8, 0xbf597fc7, 0xc6e00bf3, 0xd5a79147, 0x06ca6351, 0x14292967,
     0x27b70a85, 0x2e1b2138, 0x4d2c6dfc, 0x53380d13, 0x650a7354, 0x766a0abb, 0x81c2c92e, 0x92722c85,
     0xa2bfe8a1, 0xa81a664b, 0xc24b8b70, 0xc76c51a3, 0xd192e819, 0xd6990624, 0xf40e3585, 0x106aa070,
     0x19a4c116, 0x1e376c08, 0x2748774c, 0x34b0bcb5, 0x391c0cb3, 0x4ed8aa4a, 0x5b9cca4f, 0x682e6ff3,
     0x748f82ee, 0x78a5636f, 0x84c87814, 0x8cc70208, 0x90befffa, 0xa4506ceb, 0xbef9a3f7, 0xc67178f2]"

record sha_state =
  sha_a :: w32
  sha_b :: w32
  sha_c :: w32
  sha_d :: w32
  sha_e :: w32
  sha_f :: w32
  sha_g :: w32
  sha_h :: w32

definition sha_init :: sha_state where
  "sha_init = \<lparr>sha_a = 0x6a09e667, sha_b = 0xbb67ae85, sha_c = 0x3c6ef372, sha_d = 0xa54ff53a,
     sha_e = 0x510e527f, sha_f = 0x9b05688c, sha_g = 0x1f83d9ab, sha_h = 0x5be0cd19\<rparr>"

definition be_bytes :: "nat \<Rightarrow> 'a::len word \<Rightarrow> bytes" where
  "be_bytes len w = map (\<lambda>i. ucast (drop_bit (8 * i) w)) (rev [0..<len])"

definition sha_pad :: "bytes \<Rightarrow> bytes" where
  "sha_pad m = m @ [0x80] @ replicate ((119 - length m mod 64) mod 64) 0 @ be_bytes 8 (word_of_nat (8 * length m) :: 64 word)"

fun be_words :: "bytes \<Rightarrow> w32 list" where
  "be_words (a # b # c # d # r) =
    (push_bit 24 (ucast a) OR push_bit 16 (ucast b) OR push_bit 8 (ucast c) OR ucast d) # be_words r"
| "be_words _ = []"

primrec sha_schedule :: "nat \<Rightarrow> w32 list \<Rightarrow> w32 list" where
  "sha_schedule 0 w = w"
| "sha_schedule (Suc n) w =
    (let t = length w;
         x = w ! (t - 15); y = w ! (t - 2);
         s0 = word_rotr 7 x XOR word_rotr 18 x XOR drop_bit 3 x;
         s1 = word_rotr 17 y XOR word_rotr 19 y XOR drop_bit 10 y
     in sha_schedule n (w @ [w ! (t - 16) + s0 + w ! (t - 7) + s1]))"

definition sha_round :: "sha_state \<Rightarrow> w32 \<times> w32 \<Rightarrow> sha_state" where
  "sha_round s kw =
    (let a = sha_a s; e = sha_e s;
         s1 = word_rotr 6 e XOR word_rotr 11 e XOR word_rotr 25 e;
         ch = (e AND sha_f s) XOR (NOT e AND sha_g s);
         t1 = sha_h s + s1 + ch + fst kw + snd kw;
         s0 = word_rotr 2 a XOR word_rotr 13 a XOR word_rotr 22 a;
         maj = (a AND sha_b s) XOR (a AND sha_c s) XOR (sha_b s AND sha_c s)
     in \<lparr>sha_a = t1 + (s0 + maj), sha_b = a, sha_c = sha_b s, sha_d = sha_c s,
         sha_e = sha_d s + t1, sha_f = e, sha_g = sha_f s, sha_h = sha_g s\<rparr>)"

definition sha_block :: "sha_state \<Rightarrow> bytes \<Rightarrow> sha_state" where
  "sha_block s blk =
    (let r = foldl sha_round s (zip sha_k (sha_schedule 48 (be_words blk)))
     in \<lparr>sha_a = sha_a s + sha_a r, sha_b = sha_b s + sha_b r, sha_c = sha_c s + sha_c r,
         sha_d = sha_d s + sha_d r, sha_e = sha_e s + sha_e r, sha_f = sha_f s + sha_f r,
         sha_g = sha_g s + sha_g r, sha_h = sha_h s + sha_h r\<rparr>)"

function chunks64 :: "bytes \<Rightarrow> bytes list" where
  "chunks64 b = (if b = [] then [] else take 64 b # chunks64 (drop 64 b))"
  by pat_completeness auto
termination
  by (relation "measure length") auto

declare chunks64.simps [simp del]

definition sha_words :: "sha_state \<Rightarrow> w32 list" where
  "sha_words s = [sha_a s, sha_b s, sha_c s, sha_d s, sha_e s, sha_f s, sha_g s, sha_h s]"

definition sha256 :: "bytes \<Rightarrow> bytes" where
  "sha256 m = concat (map (\<lambda>w. be_bytes 4 w)
    (sha_words (foldl sha_block sha_init (chunks64 (sha_pad m)))))"

definition hex_digits :: string where
  "hex_digits = ''0123456789abcdef''"

definition hexdigest :: "bytes \<Rightarrow> string" where
  "hexdigest b = concat (map (\<lambda>x. [hex_digits ! (unat x div 16), hex_digits ! (unat x mod 16)]) b)"

section \<open>The content hash\<close>

definition content_hash :: "pystr \<Rightarrow> string res" where
  "content_hash text = bind_res (utf8_encode text) (\<lambda>b. Inr (hexdigest (sha256 b)))"

lemma sha256_length [simp]: "length (sha256 m) = 32"
  by (simp add: sha256_def sha_words_def be_bytes_def)

lemma hexdigest_length [simp]: "length (hexdigest b) = 2 * length b"
  by (induction b) (simp_all add: hexdigest_def)

lemma hex_digit_mem: "n < 16 \<Longrightarrow> hex_digits ! n \<in> set hex_digits"
  by (rule nth_mem) (simp add: hex_digits_def)

lemma hexdigest_chars: "set (hexdigest b) \<subseteq> set hex_digits"
proof -
  have "unat x div 16 < 16" for x :: "8 word"
    using unsigned_less [of x, where ?'a = nat] by (simp add: less_mult_imp_div_less)
  then show ?thesis
    by (auto simp: hexdigest_def hex_digit_mem)
qed

lemma content_hash_scalar:
  "list_all scalar s \<Longrightarrow> \<exists>h. content_hash s = Inr h"
  by (simp add: content_hash_def utf8_encode_def)

lemma content_hash_Inr_iff: "(\<exists>h. content_hash s = Inr h) \<longleftrightarrow> list_all scalar s"
  by (auto simp: content_hash_def utf8_encode_def split: if_splits)

lemma split_blocks_scalar:
  assumes "list_all scalar s" and "b \<in> set (split_blocks s)"
  shows "list_all scalar b"
proof -
  have "scalar 10" by (simp add: scalar_def)
  with assms split_blocks_chars [OF assms(2)] show ?thesis by (auto simp: list_all_iff)
qed

section \<open>Properties\<close>

text \<open>
  C16. \<open>content_hash\<close> is total on what a stored manuscript can contain (text without lone surrogates)
  and gives 64 lower-case hexadecimal digits, so every key \<open>tts/<hash>.wav\<close> is well formed.
\<close>

theorem content_hash_well_formed:
  assumes "list_all scalar text"
  shows "\<exists>h. content_hash text = Inr h \<and> length h = 64 \<and> set h \<subseteq> set ''0123456789abcdef''"
proof -
  obtain h where h: "content_hash text = Inr h" using content_hash_scalar [OF assms] by blast
  then obtain b where "h = hexdigest (sha256 b)"
    by (auto simp: content_hash_def bind_res_Inr_iff)
  then show ?thesis using h hexdigest_chars [of "sha256 b"] by (auto simp: hex_digits_def)
qed

theorem content_hash_well_formed_witness:
  "\<exists>h. content_hash [233, 10, 128512] = Inr h \<and> length h = 64 \<and> set h \<subseteq> set ''0123456789abcdef''"
  by (rule content_hash_well_formed) (simp add: scalar_def)

end
