(* ===== verification/Storage.thy ===== *)
theory Storage
  imports Content_Hash "HOL-Library.AList" "HOL-Library.List_Lexorder" "HOL-Library.Char_ord"
begin

text \<open>
  \<open>core/infra/storage.py\<close>: the bucket and its objects. Every function of the adapter is one call to
  the object store; a call on a missing bucket or a read of a missing key raises \<open>S3Error\<close>. Text is
  stored as UTF-8 and decoded on the way back. The contract of the store, what a read returns
  after a write, is the locale \<open>object_store\<close>.
\<close>

record minio =
  buckets :: "string list"
  objects :: "(string \<times> (bytes \<times> string)) list"

definition empty_minio :: minio where
  "empty_minio = \<lparr>buckets = [], objects = []\<rparr>"

definition BUCKET :: string where
  "BUCKET = ''audio-drama''"

definition ensure_bucket :: "minio \<Rightarrow> minio" where
  "ensure_bucket s = (if BUCKET \<notin> set (buckets s) then s\<lparr>buckets := buckets s @ [BUCKET]\<rparr> else s)"

definition put_bytes :: "minio \<Rightarrow> string \<Rightarrow> bytes \<Rightarrow> string \<Rightarrow> minio res" where
  "put_bytes s key data content_type =
    (if BUCKET \<in> set (buckets s) then Inr (s\<lparr>objects := AList.update key (data, content_type) (objects s)\<rparr>)
     else Inl S3Error)"

definition get_bytes :: "minio \<Rightarrow> string \<Rightarrow> bytes res" where
  "get_bytes s key =
    (if BUCKET \<in> set (buckets s)
     then (case map_of (objects s) key of Some (data, _) \<Rightarrow> Inr data | None \<Rightarrow> Inl S3Error)
     else Inl S3Error)"

definition put_text :: "minio \<Rightarrow> string \<Rightarrow> pystr \<Rightarrow> minio res" where
  "put_text s key text =
    bind_res (utf8_encode text) (\<lambda>data. put_bytes s key data ''text/plain; charset=utf-8'')"

definition get_text :: "minio \<Rightarrow> string \<Rightarrow> pystr res" where
  "get_text s key = bind_res (get_bytes s key) utf8_decode"

definition list_prefix :: "minio \<Rightarrow> string \<Rightarrow> string list res" where
  "list_prefix s prefix =
    (if BUCKET \<in> set (buckets s)
     then Inr (sort (filter (\<lambda>k. k \<noteq> [] \<and> take (length prefix) k = prefix) (map fst (objects s))))
     else Inl S3Error)"

definition key_exists :: "minio \<Rightarrow> string \<Rightarrow> bool" where
  "key_exists s key = (case get_bytes s key of Inr _ \<Rightarrow> True | Inl _ \<Rightarrow> False)"

section \<open>The contract of the store\<close>

locale object_store =
  fixes wr :: "'s \<Rightarrow> 'k \<Rightarrow> 'd \<Rightarrow> 'c \<Rightarrow> 's res"
    and rd :: "'s \<Rightarrow> 'k \<Rightarrow> 'd res"
  assumes read_write: "wr s k d c = Inr s' \<Longrightarrow> rd s' k' = (if k' = k then Inr d else rd s k')"
begin

text \<open>Writing the same object again, as a redelivered handler does, changes nothing a reader sees.\<close>

lemma rewrite_same:
  "wr s k d c = Inr s1 \<Longrightarrow> wr s1 k d c' = Inr s2 \<Longrightarrow> rd s2 k' = rd s1 k'"
  by (simp add: read_write)

lemma later_write_wins:
  "wr s k d c = Inr s1 \<Longrightarrow> wr s1 k d' c' = Inr s2 \<Longrightarrow> rd s2 k = Inr d'"
  by (simp add: read_write)

lemma write_commute:
  assumes "k \<noteq> l" and "wr s k d c = Inr s1" "wr s1 l e c' = Inr s2"
    and "wr s l e c' = Inr t1" "wr t1 k d c = Inr t2"
  shows "rd s2 x = rd t2 x"
  using assms by (simp add: read_write)

end

interpretation bucket: object_store put_bytes get_bytes
  by unfold_locales (auto simp: put_bytes_def get_bytes_def update_conv split: if_splits)

lemma put_bytes_buckets: "put_bytes s k d c = Inr s' \<Longrightarrow> buckets s' = buckets s"
  by (auto simp: put_bytes_def split: if_splits)

lemma get_text_put_text:
  "put_text s k text = Inr s' \<Longrightarrow> get_text s' k = Inr text"
  by (auto simp: put_text_def get_text_def bind_res_Inr_iff bucket.read_write utf8_decode_encode)

lemma get_text_put_other:
  "put_text s k text = Inr s' \<Longrightarrow> k' \<noteq> k \<Longrightarrow> get_text s' k' = get_text s k'"
  by (auto simp: put_text_def get_text_def bind_res_Inr_iff bucket.read_write)

lemma get_text_put_bytes:
  "put_bytes s k d c = Inr s' \<Longrightarrow> k' \<noteq> k \<Longrightarrow> get_text s' k' = get_text s k'"
  by (auto simp: get_text_def bucket.read_write)

lemma get_text_scalar: "get_text s k = Inr text \<Longrightarrow> list_all scalar text"
  by (auto simp: get_text_def bind_res_Inr_iff utf8_decode_scalar)

section \<open>Properties\<close>

text \<open>
  Text written to the object store is read back unchanged, every other key keeps its content,
  and writing succeeds for every text without lone surrogates once the bucket has been ensured.
\<close>

theorem stored_text_roundtrip:
  "(put_text s k text = Inr s' \<longrightarrow> get_text s' k = Inr text \<and> (\<forall>k'. k' \<noteq> k \<longrightarrow> get_text s' k' = get_text s k'))
   \<and> (list_all scalar text \<longrightarrow> (\<exists>s'. put_text (ensure_bucket s) k text = Inr s'))"
  using get_text_put_text [of s k "text" s'] get_text_put_other [of s k "text" s']
  by (auto simp: put_text_def put_bytes_def ensure_bucket_def utf8_encode_def)

theorem stored_text_roundtrip_witness:
  "\<exists>s'. put_text (ensure_bucket empty_minio) ''raw/j.txt'' [104, 233] = Inr s' \<and> get_text s' ''raw/j.txt'' = Inr [104, 233]"
proof -
  obtain s' where s': "put_text (ensure_bucket empty_minio) ''raw/j.txt'' [104, 233] = Inr s'"
    using stored_text_roundtrip [of empty_minio "''raw/j.txt''" "[104, 233]"] by (auto simp: scalar_def)
  with stored_text_roundtrip [of "ensure_bucket empty_minio" "''raw/j.txt''" "[104, 233]" s'] show ?thesis
    by auto
qed

section \<open>A store with a manuscript\<close>

lemma put_text_ensured:
  "list_all scalar t \<Longrightarrow> \<exists>s'. put_text (ensure_bucket s) k t = Inr s' \<and> BUCKET \<in> set (buckets s')"
  by (auto simp: put_text_def put_bytes_def ensure_bucket_def utf8_encode_def)

definition example_minio :: minio where
  "example_minio = (case put_text (ensure_bucket empty_minio) ''raw/j.txt'' [97, 10, 10, 98] of Inr s \<Rightarrow> s | Inl _ \<Rightarrow> empty_minio)"

lemma example_minio_ok:
  "get_text example_minio ''raw/j.txt'' = Inr [97, 10, 10, 98]" "BUCKET \<in> set (buckets example_minio)"
proof -
  obtain s where s: "put_text (ensure_bucket empty_minio) ''raw/j.txt'' [97, 10, 10, 98] = Inr s"
    "BUCKET \<in> set (buckets s)"
    using put_text_ensured [of "[97, 10, 10, 98]" empty_minio "''raw/j.txt''"] by (auto simp: scalar_def)
  then show "get_text example_minio ''raw/j.txt'' = Inr [97, 10, 10, 98]" "BUCKET \<in> set (buckets example_minio)"
    by (simp_all add: example_minio_def get_text_put_text)
qed

end
