(* ===== verification/Vendor.thy ===== *)
theory Vendor
  imports Content_Hash Complex_Main
begin

text \<open>
  \<open>core/domain/vendor.py\<close>: the simulated vendor. The draw of the random generator is an argument.
  A manuscript with the poison marker fails on every draw; the audio of a block depends on its
  content hash only.
\<close>

definition POISON_MARKER :: pystr where
  "POISON_MARKER = lit ''__POISON__''"

definition PARSE_FAILURE_RATE_DEFAULT :: rat where
  "PARSE_FAILURE_RATE_DEFAULT = 15 / 100"

fun starts_with :: "pystr \<Rightarrow> pystr \<Rightarrow> bool" where
  "starts_with [] s = True"
| "starts_with (p # ps) [] = False"
| "starts_with (p # ps) (c # cs) = (p = c \<and> starts_with ps cs)"

text \<open>The operator \<open>in\<close> on strings.\<close>

fun contains :: "pystr \<Rightarrow> pystr \<Rightarrow> bool" where
  "contains p [] = (p = [])"
| "contains p (c # cs) = (starts_with p (c # cs) \<or> contains p cs)"

definition simulate_parse :: "pystr \<Rightarrow> rat \<Rightarrow> rat \<Rightarrow> pystr list res" where
  "simulate_parse text failure_rate draw =
    (if contains POISON_MARKER text then Inl VendorError
     else if draw < failure_rate then Inl VendorError
     else Inr (split_blocks text))"

definition ascii :: "string \<Rightarrow> bytes" where
  "ascii s = map of_char s"

definition tts_fake_audio :: "pystr \<Rightarrow> bytes res" where
  "tts_fake_audio text = bind_res (content_hash text) (\<lambda>h. Inr (ascii (''FAKE_AUDIO:'' @ h)))"

lemma starts_with_iff: "starts_with p s \<longleftrightarrow> (\<exists>r. s = p @ r)"
  by (induction p s rule: starts_with.induct) auto

lemma contains_iff: "contains p s \<longleftrightarrow> (\<exists>a b. s = a @ p @ b)"
proof (induction s)
  case (Cons c cs)
  note IH = Cons.IH
  show ?case
  proof
    assume "contains p (c # cs)"
    then consider r where "c # cs = p @ r" | "contains p cs" by (auto simp: starts_with_iff)
    then show "\<exists>a b. c # cs = a @ p @ b"
    proof cases
      case 1
      then show ?thesis by (metis append_Nil)
    next
      case 2
      then show ?thesis using Cons.IH by (metis append_Cons)
    qed
  next
    assume "\<exists>a b. c # cs = a @ p @ b"
    then obtain a b where ab: "c # cs = a @ p @ b" by blast
    show "contains p (c # cs)"
    proof (cases a)
      case Nil
      with ab have "starts_with p (c # cs)" by (simp add: starts_with_iff)
      then show ?thesis by simp
    next
      case (Cons x xs)
      with ab have "contains p cs" using IH by auto
      then show ?thesis by simp
    qed
  qed
qed auto

lemma simulate_parse_Inr_iff:
  "simulate_parse text rate draw = Inr bs \<longleftrightarrow>
    \<not> contains POISON_MARKER text \<and> rate \<le> draw \<and> bs = split_blocks text"
  by (auto simp: simulate_parse_def)

lemma tts_fake_audio_hash: "content_hash s = content_hash t \<Longrightarrow> tts_fake_audio s = tts_fake_audio t"
  by (simp add: tts_fake_audio_def)

lemma example_not_poison: "\<not> contains POISON_MARKER [97, 10, 10, 98]"
  by (simp add: POISON_MARKER_def)

end
