(* ===== verification/Ssrf.thy ===== *)
theory Ssrf
  imports Config
begin

text \<open>
  \<open>worker/ssrf.py\<close>: the guard of the webhook. The parts of the standard library it rests on are
  modelled: \<open>urllib.parse.urlparse(..).hostname\<close>, the parser of \<open>ipaddress.ip_address\<close> for both
  families and the address classes (of CPython 3.13, in which an IPv4-mapped address is classified
  as the address it maps). The answer of \<open>socket.getaddrinfo\<close> is an argument, and so are the two
  Unicode functions that matter for host names with other than ASCII characters.
\<close>

section \<open>Strings\<close>

record unidata =
  u_lower :: "pystr \<Rightarrow> pystr"
  u_nfkc :: "pystr \<Rightarrow> pystr"

definition is_ascii :: "pystr \<Rightarrow> bool" where
  "is_ascii s = list_all (\<lambda>c. c < 128) s"

definition ascii_lower :: "nat \<Rightarrow> nat" where
  "ascii_lower c = (if 65 \<le> c \<and> c \<le> 90 then c + 32 else c)"

definition lower :: "unidata \<Rightarrow> pystr \<Rightarrow> pystr" where
  "lower ud s = (if is_ascii s then map ascii_lower s else u_lower ud s)"

text \<open>\<open>s.partition(c)\<close> and \<open>s.rpartition(c)\<close>, with a flag that tells whether \<open>c\<close> was found.\<close>

definition partition_at :: "nat \<Rightarrow> pystr \<Rightarrow> pystr \<times> bool \<times> pystr" where
  "partition_at c s = (takeWhile (\<lambda>x. x \<noteq> c) s, c \<in> set s, drop 1 (dropWhile (\<lambda>x. x \<noteq> c) s))"

definition after_last :: "nat \<Rightarrow> pystr \<Rightarrow> pystr" where
  "after_last c s = rev (takeWhile (\<lambda>x. x \<noteq> c) (rev s))"

section \<open>Addresses\<close>

datatype ip = IPv4Address nat | IPv6Address nat

definition parse_octet :: "pystr \<Rightarrow> nat option" where
  "parse_octet s =
    (if s = [] \<or> \<not> list_all is_digit s \<or> 3 < length s then None
     else if s \<noteq> [48] \<and> hd s = 48 then None
     else case int_unsigned s of Some n \<Rightarrow> if 255 < n then None else Some n | None \<Rightarrow> None)"

definition parse_ipv4 :: "pystr \<Rightarrow> nat option" where
  "parse_ipv4 s =
    (case str_split 46 s of
       [a, b, c, d] \<Rightarrow>
         (case (parse_octet a, parse_octet b, parse_octet c, parse_octet d) of
            (Some a, Some b, Some c, Some d) \<Rightarrow> Some (((a * 256 + b) * 256 + c) * 256 + d)
          | _ \<Rightarrow> None)
     | _ \<Rightarrow> None)"

definition hex_value :: "nat \<Rightarrow> nat option" where
  "hex_value c =
    (if is_digit c then Some (c - 48)
     else if 97 \<le> c \<and> c \<le> 102 then Some (c - 87)
     else if 65 \<le> c \<and> c \<le> 70 then Some (c - 55)
     else None)"

fun hex_number :: "nat \<Rightarrow> pystr \<Rightarrow> nat option" where
  "hex_number acc [] = Some acc"
| "hex_number acc (c # cs) = (case hex_value c of Some v \<Rightarrow> hex_number (16 * acc + v) cs | None \<Rightarrow> None)"

definition parse_hextet :: "pystr \<Rightarrow> nat option" where
  "parse_hextet s = (if s = [] \<or> 4 < length s then None else hex_number 0 s)"

fun hex_str :: "nat \<Rightarrow> pystr" where
  "hex_str n =
    (let d = n mod 16; c = (if d < 10 then 48 + d else 87 + d)
     in if n < 16 then [c] else hex_str (n div 16) @ [c])"

declare hex_str.simps [simp del]

fun parse_hextets :: "nat \<Rightarrow> pystr list \<Rightarrow> nat option" where
  "parse_hextets acc [] = Some acc"
| "parse_hextets acc (p # ps) =
    (case parse_hextet p of Some h \<Rightarrow> parse_hextets (acc * 65536 + h) ps | None \<Rightarrow> None)"

text \<open>The parts between the colons, with an IPv4 suffix replaced by two hexadecimal parts.\<close>

definition ipv6_parts :: "pystr \<Rightarrow> pystr list option" where
  "ipv6_parts s =
    (let parts = str_split 58 s
     in if length parts < 3 then None
        else if 46 \<in> set (last parts)
        then (case parse_ipv4 (last parts) of
            Some v \<Rightarrow> Some (butlast parts @ [hex_str (v div 65536), hex_str (v mod 65536)])
          | None \<Rightarrow> None)
        else Some parts)"

text \<open>The indices of the empty inner parts: at most one, the place of the double colon.\<close>

definition inner_empty :: "pystr list \<Rightarrow> nat list" where
  "inner_empty parts = filter (\<lambda>i. parts ! i = []) [1..<length parts - 1]"

definition join_parts :: "pystr list \<Rightarrow> nat option" where
  "join_parts parts =
    (case inner_empty parts of
       [] \<Rightarrow> if length parts \<noteq> 8 \<or> hd parts = [] \<or> last parts = [] then None else parse_hextets 0 parts
     | [skip] \<Rightarrow>
         (let hi = (if hd parts = [] then skip - 1 else skip);
              lo = (if last parts = [] then length parts - skip - 2 else length parts - skip - 1)
          in if (hd parts = [] \<and> hi \<noteq> 0) \<or> (last parts = [] \<and> lo \<noteq> 0) \<or> 8 < hi + lo + 1 then None
             else (case parse_hextets 0 (take hi parts) of
                 Some high \<Rightarrow> parse_hextets (high * 65536 ^ (8 - (hi + lo))) (drop (length parts - lo) parts)
               | None \<Rightarrow> None))
     | _ \<Rightarrow> None)"

definition parse_ipv6 :: "pystr \<Rightarrow> nat option" where
  "parse_ipv6 s =
    (let (addr, found, scope) = partition_at 37 s
     in if 47 \<in> set s \<or> (found \<and> (scope = [] \<or> 37 \<in> set scope)) then None
        else case ipv6_parts addr of
            None \<Rightarrow> None
          | Some parts \<Rightarrow> if 9 < length parts then None else join_parts parts)"

definition ip_address :: "pystr \<Rightarrow> ip res" where
  "ip_address s =
    (case parse_ipv4 s of
       Some a \<Rightarrow> Inr (IPv4Address a)
     | None \<Rightarrow> (case parse_ipv6 s of Some a \<Rightarrow> Inr (IPv6Address a) | None \<Rightarrow> Inl ValueError))"

text \<open>A network: its address bits above the host part, and the number of host bits.\<close>

definition in_net :: "nat \<Rightarrow> nat \<times> nat \<Rightarrow> bool" where
  "in_net a net = (a div 2 ^ snd net = fst net)"

text \<open>Of a dotted quad and a prefix length; of the first two hextets and a prefix length up to 32.\<close>

definition net4 :: "nat \<Rightarrow> nat \<Rightarrow> nat \<Rightarrow> nat \<Rightarrow> nat \<Rightarrow> nat \<times> nat" where
  "net4 a b c d len = ((((a * 256 + b) * 256 + c) * 256 + d) div 2 ^ (32 - len), 32 - len)"

definition net6 :: "nat list \<Rightarrow> nat \<Rightarrow> nat \<times> nat" where
  "net6 hextets len =
    ((foldl (\<lambda>acc h. acc * 65536 + h) 0 hextets * 65536 ^ (8 - length hextets)) div 2 ^ (128 - len), 128 - len)"

definition private4 :: "(nat \<times> nat) list" where
  "private4 =
    [net4 0 0 0 0 8, net4 10 0 0 0 8, net4 127 0 0 0 8, net4 169 254 0 0 16, net4 172 16 0 0 12,
     net4 192 0 0 0 24, net4 192 0 0 170 31, net4 192 0 2 0 24, net4 192 168 0 0 16, net4 198 18 0 0 15,
     net4 198 51 100 0 24, net4 203 0 113 0 24, net4 240 0 0 0 4, net4 255 255 255 255 32]"

definition private4_exceptions :: "(nat \<times> nat) list" where
  "private4_exceptions = [net4 192 0 0 9 32, net4 192 0 0 10 32]"

definition private6 :: "(nat \<times> nat) list" where
  "private6 =
    [net6 [0,0,0,0,0,0,0,1] 128, net6 [] 128, net6 [0,0,0,0,0,0xffff] 96, net6 [0x64,0xff9b,1] 48,
     net6 [0x100] 64, net6 [0x2001] 23, net6 [0x2001,0xdb8] 32, net6 [0x2002] 16, net6 [0xfc00] 7,
     net6 [0xfe80] 10]"

definition private6_exceptions :: "(nat \<times> nat) list" where
  "private6_exceptions =
    [net6 [0x2001,1,0,0,0,0,0,1] 128, net6 [0x2001,1,0,0,0,0,0,2] 128, net6 [0x2001,3] 32,
     net6 [0x2001,4,0x112] 48, net6 [0x2001,0x20] 28, net6 [0x2001,0x30] 28]"

definition reserved6 :: "(nat \<times> nat) list" where
  "reserved6 =
    [net6 [] 8, net6 [0x100] 8, net6 [0x200] 7, net6 [0x400] 6, net6 [0x800] 5, net6 [0x1000] 4,
     net6 [0x4000] 3, net6 [0x6000] 3, net6 [0x8000] 3, net6 [0xa000] 3, net6 [0xc000] 3,
     net6 [0xe000] 4, net6 [0xf000] 5, net6 [0xf800] 6, net6 [0xfe00] 9]"

definition blocked4 :: "nat \<Rightarrow> bool" where
  "blocked4 a \<longleftrightarrow>
    (list_ex (in_net a) private4 \<and> \<not> list_ex (in_net a) private4_exceptions)
    \<or> in_net a (net4 127 0 0 0 8)
    \<or> in_net a (net4 169 254 0 0 16)
    \<or> in_net a (net4 240 0 0 0 4)
    \<or> in_net a (net4 224 0 0 0 4)
    \<or> a = 0"

definition ipv4_mapped :: "nat \<Rightarrow> nat option" where
  "ipv4_mapped a = (if a div 2 ^ 32 = 0xffff then Some (a mod 2 ^ 32) else None)"

definition blocked6 :: "nat \<Rightarrow> bool" where
  "blocked6 a =
    (case ipv4_mapped a of
       Some v \<Rightarrow> blocked4 v
     | None \<Rightarrow>
         (list_ex (in_net a) private6 \<and> \<not> list_ex (in_net a) private6_exceptions)
         \<or> a = 1
         \<or> in_net a (net6 [0xfe80] 10)
         \<or> list_ex (in_net a) reserved6
         \<or> in_net a (net6 [0xff00] 8)
         \<or> a = 0)"

text \<open>\<open>_is_blocked_ip\<close>: an address that does not parse is unsafe.\<close>

definition is_blocked_ip :: "pystr \<Rightarrow> bool" where
  "is_blocked_ip ip =
    (case ip_address ip of
       Inl _ \<Rightarrow> True
     | Inr (IPv4Address a) \<Rightarrow> blocked4 a
     | Inr (IPv6Address a) \<Rightarrow> blocked6 a)"

section \<open>The host of a URL\<close>

definition is_alpha :: "nat \<Rightarrow> bool" where
  "is_alpha c \<longleftrightarrow> (65 \<le> c \<and> c \<le> 90) \<or> (97 \<le> c \<and> c \<le> 122)"

definition scheme_char :: "nat \<Rightarrow> bool" where
  "scheme_char c \<longleftrightarrow> is_alpha c \<or> is_digit c \<or> c = 43 \<or> c = 45 \<or> c = 46"

text \<open>Leading control characters and blanks go, and every tab, carriage return and line feed.\<close>

definition clean_url :: "pystr \<Rightarrow> pystr" where
  "clean_url url = filter (\<lambda>c. c \<noteq> 9 \<and> c \<noteq> 13 \<and> c \<noteq> 10) (dropWhile (\<lambda>c. c \<le> 32) url)"

definition after_scheme :: "pystr \<Rightarrow> pystr" where
  "after_scheme url =
    (let (s, found, rest) = partition_at 58 url
     in if found \<and> s \<noteq> [] \<and> is_alpha (hd s) \<and> list_all scheme_char s then rest else url)"

definition url_netloc :: "pystr \<Rightarrow> pystr" where
  "url_netloc url =
    (let rest = after_scheme url
     in if take 2 rest = [47, 47] then takeWhile (\<lambda>c. c \<noteq> 47 \<and> c \<noteq> 63 \<and> c \<noteq> 35) (drop 2 rest) else [])"

definition ipvfuture :: "pystr \<Rightarrow> bool" where
  "ipvfuture s =
    (let (v, found, rest) = partition_at 46 s
     in found \<and> 1 < length v \<and> hd v = 118 \<and> list_all (\<lambda>c. hex_value c \<noteq> None) (tl v)
        \<and> rest \<noteq> [] \<and> 10 \<notin> set rest)"

definition bracketed_host_ok :: "pystr \<Rightarrow> bool" where
  "bracketed_host_ok host =
    (if host \<noteq> [] \<and> hd host = 118 then ipvfuture host
     else (case ip_address host of Inr (IPv6Address _) \<Rightarrow> True | _ \<Rightarrow> False))"

definition nfkc_ok :: "unidata \<Rightarrow> pystr \<Rightarrow> bool" where
  "nfkc_ok ud netloc =
    (if is_ascii netloc then True
     else
       (let n = filter (\<lambda>c. c \<notin> {64, 58, 35, 63}) netloc; m = u_nfkc ud n
        in n = m \<or> list_all (\<lambda>c. c \<notin> {47, 63, 35, 64, 58}) m))"

definition urlparse_netloc :: "unidata \<Rightarrow> pystr \<Rightarrow> pystr res" where
  "urlparse_netloc ud url =
    (let netloc = url_netloc (clean_url url);
         opening = (91 \<in> set netloc); closing = (93 \<in> set netloc);
         host = fst (partition_at 93 (snd (snd (partition_at 91 netloc))))
     in if opening \<noteq> closing then Inl ValueError
        else if opening \<and> closing \<and> \<not> bracketed_host_ok host then Inl ValueError
        else if \<not> nfkc_ok ud netloc then Inl ValueError
        else Inr netloc)"

definition hostname :: "unidata \<Rightarrow> pystr \<Rightarrow> pystr option" where
  "hostname ud netloc =
    (let hostinfo = after_last 64 netloc;
         (_, have_open_br, bracketed) = partition_at 91 hostinfo;
         host = (if have_open_br then fst (partition_at 93 bracketed) else fst (partition_at 58 hostinfo));
         (name, percent, zone) = partition_at 37 host
     in if host = [] then None
        else Some (lower ud name @ (if percent then 37 # zone else [])))"

section \<open>The guard\<close>

datatype resolution = Addresses "pystr list" | GaiError | ResolverError exn

definition is_allowed :: "unidata \<Rightarrow> (pystr \<Rightarrow> resolution) \<Rightarrow> pystr \<Rightarrow> pystr list \<Rightarrow> bool res" where
  "is_allowed ud getaddrinfo url allowlist =
    bind_res (urlparse_netloc ud url) (\<lambda>netloc.
      case hostname ud netloc of
        None \<Rightarrow> Inr False
      | Some host \<Rightarrow>
          if allowlist \<noteq> [] \<and> host \<notin> set allowlist then Inr False
          else (case getaddrinfo host of
              GaiError \<Rightarrow> Inr False
            | ResolverError e \<Rightarrow> Inl e
            | Addresses infos \<Rightarrow> Inr (list_all (\<lambda>ip. \<not> is_blocked_ip ip) infos)))"

section \<open>Numerals and addresses\<close>

definition dotted :: "nat \<Rightarrow> nat \<Rightarrow> nat \<Rightarrow> nat \<Rightarrow> pystr" where
  "dotted a b c d = join [46] (map (\<lambda>n. lit (nat_str n)) [a, b, c, d])"

definition quad :: "nat \<Rightarrow> nat \<Rightarrow> nat \<Rightarrow> nat \<Rightarrow> nat" where
  "quad a b c d = ((a * 256 + b) * 256 + c) * 256 + d"

lemma nat_str_head: "hd (lit (nat_str n)) = 48 \<longleftrightarrow> n = 0"
proof (induction n rule: nat_str.induct)
  case (1 n)
  show ?case
  proof (cases "n < 10")
    case True
    then show ?thesis by (simp add: nat_str.simps [of n] of_digit_char)
  next
    case False
    then have "hd (lit (nat_str n)) = hd (lit (nat_str (n div 10)))"
      by (simp add: nat_str.simps [of n] hd_append) (metis length_0_conv lit_simps(4) nat_str_nonempty)
    with False "1.IH" show ?thesis by simp
  qed
qed

lemma nat_str_length: "n < 1000 \<Longrightarrow> length (nat_str n) \<le> 3"
  by (simp add: nat_str.simps [of n] nat_str.simps [of "n div 10"] nat_str.simps [of "n div 10 div 10"])

lemma parse_octet_nat_str: "n < 256 \<Longrightarrow> parse_octet (lit (nat_str n)) = Some n"
proof -
  assume n: "n < 256"
  have "lit (nat_str n) \<noteq> []" by (metis length_0_conv lit_simps(4) nat_str_nonempty)
  moreover have "lit (nat_str n) \<noteq> [48] \<Longrightarrow> hd (lit (nat_str n)) \<noteq> 48"
    by (cases "n = 0") (simp_all add: nat_str_head)
  moreover have "length (nat_str n) \<le> 3" using n by (intro nat_str_length) simp
  ultimately show ?thesis
    using n lit_nat_str_digits [of n] int_unsigned_nat_str [of n] by (auto simp: parse_octet_def)
qed

lemma lit_nat_str_no: "c < 48 \<Longrightarrow> c \<notin> set (lit (nat_str n))" "57 < c \<Longrightarrow> c \<notin> set (lit (nat_str n))"
  using lit_nat_str_digits [of n] by (auto simp: list_all_iff is_digit_def)

lemma parse_ipv4_dotted:
  assumes "a < 256" "b < 256" "c < 256" "d < 256"
  shows "parse_ipv4 (dotted a b c d) = Some (quad a b c d)"
proof -
  have "str_split 46 (dotted a b c d) = map (\<lambda>n. lit (nat_str n)) [a, b, c, d]"
    unfolding dotted_def by (rule str_split_join) (auto simp: lit_nat_str_no)
  then show ?thesis using assms by (simp add: parse_ipv4_def parse_octet_nat_str quad_def)
qed

lemma dotted_chars: "x \<in> set (dotted a b c d) \<Longrightarrow> x = 46 \<or> is_digit x"
  using lit_nat_str_digits by (auto simp: dotted_def list_all_iff)

lemma hex_number_append:
  "hex_number acc (s @ [c]) =
    (case hex_number acc s of Some n \<Rightarrow> map_option (\<lambda>v. 16 * n + v) (hex_value c) | None \<Rightarrow> None)"
  by (induction s arbitrary: acc) (auto split: option.split)

lemma hex_digit_value: "d < 16 \<Longrightarrow> hex_value (if d < 10 then 48 + d else 87 + d) = Some d"
  by (simp add: hex_value_def is_digit_def)

lemma hex_number_hex_str: "hex_number 0 (hex_str n) = Some n"
proof (induction n rule: hex_str.induct)
  case (1 n)
  show ?case
    using 1 hex_digit_value [of "n mod 16"]
    by (cases "n < 16") (auto simp: hex_str.simps [of n] Let_def hex_number_append)
qed

lemma hex_str_length: "n < 65536 \<Longrightarrow> hex_str n \<noteq> [] \<and> length (hex_str n) \<le> 4"
  by (simp add: hex_str.simps [of n] hex_str.simps [of "n div 16"] hex_str.simps [of "n div 16 div 16"]
      hex_str.simps [of "n div 16 div 16 div 16"] Let_def)

lemma parse_hextet_hex_str: "n < 65536 \<Longrightarrow> parse_hextet (hex_str n) = Some n"
  using hex_str_length [of n] by (auto simp: parse_hextet_def hex_number_hex_str)

lemma quad_bound: "a < 256 \<Longrightarrow> b < 256 \<Longrightarrow> c < 256 \<Longrightarrow> d < 256 \<Longrightarrow> quad a b c d < 2 ^ 32"
  by (simp add: quad_def)

lemma parse_ipv4_mapped_None: "parse_ipv4 (lit ''::ffff:'' @ s) = None"
proof -
  have "\<exists>w ws. str_split 46 (lit ''::ffff:'' @ s) = w # ws \<and> w \<noteq> [] \<and> hd w = 58"
    by (auto split: list.split)
  then obtain w ws where "str_split 46 (lit ''::ffff:'' @ s) = w # ws" "w \<noteq> []" "hd w = 58" by blast
  moreover then have "parse_octet w = None" by (cases w) (auto simp: parse_octet_def is_digit_def)
  ultimately show ?thesis by (auto simp: parse_ipv4_def split: list.split option.split)
qed

lemma quad_halves: "((65535 * 65536 + q div 65536) * 65536 + q mod 65536 :: nat) = 281470681743360 + q"
  using div_mult_mod_eq [of q 65536] by simp

lemma div_mod_above: "(q :: nat) < m \<Longrightarrow> (k * m + q) div m = k \<and> (k * m + q) mod m = q"
  by simp

text \<open>An IPv4-mapped address parses to the number that maps the dotted quad.\<close>

lemma ip_address_mapped:
  assumes "a < 256" "b < 256" "c < 256" "d < 256"
  shows "ip_address (lit ''::ffff:'' @ dotted a b c d) = Inr (IPv6Address (0xffff * 2 ^ 32 + quad a b c d))"
proof -
  let ?q = "quad a b c d" and ?s = "dotted a b c d"
  have chars: "58 \<notin> set ?s" "37 \<notin> set ?s" "47 \<notin> set ?s" "46 \<in> set ?s"
    using dotted_chars [of 58 a b c d] dotted_chars [of 37 a b c d] dotted_chars [of 47 a b c d]
    by (auto simp: is_digit_def) (simp add: dotted_def)
  have split: "str_split 58 (lit ''::ffff:'' @ ?s) = [[], [], lit ''ffff'', ?s]"
    using str_split_last [OF chars(1)] by simp
  have parts: "ipv6_parts (lit ''::ffff:'' @ ?s) =
      Some [[], [], lit ''ffff'', hex_str (?q div 65536), hex_str (?q mod 65536)]"
    using chars(4) parse_ipv4_dotted [OF assms] unfolding ipv6_parts_def split by (simp add: Let_def)
  have bound: "?q div 65536 < 65536" "?q mod 65536 < 65536"
    using quad_bound [OF assms] by (simp_all add: less_mult_imp_div_less)
  have ffff: "parse_hextet [102, 102, 102, 102] = Some 65535"
    by (simp add: parse_hextet_def hex_value_def is_digit_def)
  define m where "m = lit ''::ffff:'' @ ?s"
  have whole: "takeWhile (\<lambda>x. x \<noteq> 37) m = m" "37 \<notin> set m" "47 \<notin> set m"
    using chars by (auto simp: m_def takeWhile_eq_all_conv)
  have "parse_ipv6 m = join_parts [[], [], lit ''ffff'', hex_str (?q div 65536), hex_str (?q mod 65536)]"
    using whole(2,3) parts
    unfolding parse_ipv6_def partition_at_def m_def [symmetric] whole(1) by simp
  also have "\<dots> = Some (0xffff * 2 ^ 32 + ?q)"
    using bound hex_str_length [OF bound(1)] hex_str_length [OF bound(2)]
      ffff quad_halves [of ?q]
    by (simp add: join_parts_def inner_empty_def upt_rec Let_def parse_hextet_hex_str)
  finally show ?thesis
    unfolding m_def by (simp only: ip_address_def parse_ipv4_mapped_None option.case)
qed

lemma quad_div:
  assumes "b < 256" "c < 256" "d < 256"
  shows "quad a b c d div 2 ^ 24 = a" "quad a b c d div 2 ^ 16 = a * 256 + b"
    "quad a b c d div 2 ^ 20 = a * 16 + b div 16" "quad a b c d div 2 ^ 28 = a div 16"
proof -
  show high: "quad a b c d div 2 ^ 24 = a" and mid: "quad a b c d div 2 ^ 16 = a * 256 + b"
    using assms by (simp_all add: quad_def)
  have "quad a b c d div 2 ^ 20 = quad a b c d div 2 ^ 16 div 2 ^ 4"
    by (simp add: div_mult2_eq [symmetric])
  also have "\<dots> = a * 16 + b div 16" using mid by simp
  finally show "quad a b c d div 2 ^ 20 = a * 16 + b div 16" .
  have "quad a b c d div 2 ^ 28 = quad a b c d div 2 ^ 24 div 2 ^ 4"
    by (simp add: div_mult2_eq [symmetric])
  then show "quad a b c d div 2 ^ 28 = a div 16" using high by simp
qed

text \<open>
  The ranges of addresses that are not on the public Internet: this network, private use,
  loopback, link-local (with the metadata endpoint 169.254.169.254), multicast and reserved.
\<close>

definition internal_quad :: "nat \<Rightarrow> nat \<Rightarrow> bool" where
  "internal_quad a b \<longleftrightarrow> a = 0 \<or> a = 10 \<or> a = 127 \<or> (a = 169 \<and> b = 254)
    \<or> (a = 172 \<and> 16 \<le> b \<and> b < 32) \<or> (a = 192 \<and> b = 168) \<or> 224 \<le> a"

lemma blocked4_internal:
  assumes "internal_quad a b" and "a < 256" "b < 256" "c < 256" "d < 256"
  shows "blocked4 (quad a b c d)"
proof -
  note div = quad_div [OF assms(3-5), of a]
  have exc: "\<not> list_ex (in_net (quad a b c d)) private4_exceptions" if "a * 256 + b \<noteq> 192 * 256"
  proof
    assume "list_ex (in_net (quad a b c d)) private4_exceptions"
    then have "quad a b c d = 3221225481 \<or> quad a b c d = 3221225482"
      by (simp add: private4_exceptions_def in_net_def net4_def)
    then have "quad a b c d div 2 ^ 16 = 192 * 256" by auto
    with div(2) that show False by simp
  qed
  have priv: "list_ex (in_net (quad a b c d)) private4"
    if "a \<in> {0, 10, 127} \<or> (a = 172 \<and> b div 16 = 1) \<or> (a = 192 \<and> b = 168)"
    using that div by (auto simp: private4_def in_net_def net4_def)
  from assms(1) consider "a \<in> {0, 10, 127} \<or> (a = 172 \<and> b div 16 = 1) \<or> (a = 192 \<and> b = 168)"
    | "a = 169" "b = 254" | "a div 16 = 14 \<or> a div 16 = 15"
    using assms(2) unfolding internal_quad_def by fastforce
  then show ?thesis
  proof cases
    case 1
    then have "a * 256 + b \<noteq> 192 * 256" using assms(3) by auto
    with priv [OF 1] exc show ?thesis by (simp add: blocked4_def)
  next
    case 2
    with div(2) show ?thesis by (simp add: blocked4_def in_net_def net4_def)
  next
    case 3
    with div(4) show ?thesis by (auto simp: blocked4_def in_net_def net4_def)
  qed
qed

lemma is_blocked_dotted:
  assumes "a < 256" "b < 256" "c < 256" "d < 256"
  shows "is_blocked_ip (dotted a b c d) = blocked4 (quad a b c d)"
  by (simp add: is_blocked_ip_def ip_address_def parse_ipv4_dotted [OF assms])

lemma is_blocked_mapped:
  assumes "a < 256" "b < 256" "c < 256" "d < 256"
  shows "is_blocked_ip (lit ''::ffff:'' @ dotted a b c d) = is_blocked_ip (dotted a b c d)"
proof -
  have "ipv4_mapped (0xffff * 2 ^ 32 + quad a b c d) = Some (quad a b c d)"
    using div_mod_above [OF quad_bound [OF assms], of "0xffff"] by (simp only: ipv4_mapped_def simp_thms if_True)
  then show ?thesis
    unfolding is_blocked_dotted [OF assms]
    by (simp only: is_blocked_ip_def ip_address_mapped [OF assms] sum.case ip.case blocked6_def option.case)
qed

section \<open>Properties\<close>





end
