(* ===== verification/Prog.thy ===== *)
theory Prog
  imports Prelude
begin

text \<open>
  Asynchronous Python code as programs of atomic steps. An \<open>await\<close> on a service is one step: it
  reads an input of the environment and the shared world and gives the next world and the rest of
  the program, or blocks. Between two steps of a program any other program may run, and the
  program may stop for good (a crash). \<open>run\<close> is the execution without interference; \<open>safe\<close> is
  rely/guarantee reasoning for all interleavings.
\<close>

section \<open>Programs\<close>

datatype ('i, 'w, 'a) prog =
    Ret 'a
  | Raise exn
  | Step "'i \<Rightarrow> 'w \<Rightarrow> ('w \<times> ('i, 'w, 'a) prog) option"

primrec pbind :: "('i, 'w, 'a) prog \<Rightarrow> ('a \<Rightarrow> ('i, 'w, 'b) prog) \<Rightarrow> ('i, 'w, 'b) prog" where
  "pbind (Ret a) k = k a"
| "pbind (Raise e) k = Raise e"
| "pbind (Step f) k = Step (\<lambda>i w. map_option (map_prod id (\<lambda>p. pbind p k)) (f i w))"

text \<open>\<open>try\<close>: the exception or the value as a result.\<close>

primrec ptry :: "('i, 'w, 'a) prog \<Rightarrow> ('i, 'w, 'a res) prog" where
  "ptry (Ret a) = Ret (Inr a)"
| "ptry (Raise e) = Ret (Inl e)"
| "ptry (Step f) = Step (\<lambda>i w. map_option (map_prod id ptry) (f i w))"

definition plift :: "'a res \<Rightarrow> ('i, 'w, 'a) prog" where
  "plift r = (case r of Inl e \<Rightarrow> Raise e | Inr a \<Rightarrow> Ret a)"

text \<open>\<open>try .. except Exception as e: h(e)\<close> and \<open>try .. finally\<close>.\<close>

definition pcatch :: "('i, 'w, 'a) prog \<Rightarrow> (exn \<Rightarrow> ('i, 'w, 'a) prog) \<Rightarrow> ('i, 'w, 'a) prog" where
  "pcatch p h = pbind (ptry p) (\<lambda>r. case r of Inl e \<Rightarrow> h e | Inr a \<Rightarrow> Ret a)"

definition pfinally :: "('i, 'w, 'a) prog \<Rightarrow> ('i, 'w, unit) prog \<Rightarrow> ('i, 'w, 'a) prog" where
  "pfinally p q = pbind (ptry p) (\<lambda>r. pbind q (\<lambda>_. plift r))"

definition pskip :: "('i, 'w, unit) prog" where
  "pskip = Step (\<lambda>i w. Some (w, Ret ()))"

text \<open>A loop over a list, and a comprehension.\<close>

fun pfor :: "'a list \<Rightarrow> ('a \<Rightarrow> ('i, 'w, unit) prog) \<Rightarrow> ('i, 'w, unit) prog" where
  "pfor [] body = Ret ()"
| "pfor (x # xs) body = pbind (body x) (\<lambda>_. pfor xs body)"

fun pmap :: "'a list \<Rightarrow> ('a \<Rightarrow> ('i, 'w, 'b) prog) \<Rightarrow> ('i, 'w, 'b list) prog" where
  "pmap [] f = Ret []"
| "pmap (x # xs) f = pbind (f x) (\<lambda>y. pbind (pmap xs f) (\<lambda>ys. Ret (y # ys)))"

section \<open>Execution without interference\<close>

datatype 'a outcome = Done 'a | Exn exn | Blocked

primrec run :: "'i \<Rightarrow> ('i, 'w, 'a) prog \<Rightarrow> 'w \<Rightarrow> 'w \<times> 'a outcome" where
  "run i (Ret a) = (\<lambda>w. (w, Done a))"
| "run i (Raise e) = (\<lambda>w. (w, Exn e))"
| "run i (Step f) =
    (\<lambda>w. case map_option (map_prod id (run i)) (f i w) of
       None \<Rightarrow> (w, Blocked) | Some (w', r) \<Rightarrow> r w')"

lemma run_Step [simp]:
  "run i (Step f) w = (case f i w of None \<Rightarrow> (w, Blocked) | Some (w', p) \<Rightarrow> run i p w')"
  by (auto split: option.splits)

declare run.simps(3) [simp del]

lemma run_pbind:
  "run i (pbind p k) w =
    (case run i p w of
       (w', Done a) \<Rightarrow> run i (k a) w'
     | (w', Exn e) \<Rightarrow> (w', Exn e)
     | (w', Blocked) \<Rightarrow> (w', Blocked))"
proof (induction p arbitrary: w)
  case (Step f)
  show ?case
  proof (cases "f i w")
    case (Some q)
    moreover obtain w' p where "q = (w', p)" by (cases q)
    ultimately show ?thesis
      using Step.IH [of "f i" "f i w" "(w', p)" p w'] rangeI [of "f i" w] by simp
  qed simp
qed simp_all

lemma run_ptry:
  "run i (ptry p) w =
    (case run i p w of
       (w', Done a) \<Rightarrow> (w', Done (Inr a))
     | (w', Exn e) \<Rightarrow> (w', Done (Inl e))
     | (w', Blocked) \<Rightarrow> (w', Blocked))"
proof (induction p arbitrary: w)
  case (Step f)
  show ?case
  proof (cases "f i w")
    case (Some q)
    moreover obtain w' p where "q = (w', p)" by (cases q)
    ultimately show ?thesis
      using Step.IH [of "f i" "f i w" "(w', p)" p w'] rangeI [of "f i" w] by simp
  qed simp
qed simp_all

lemma run_plift [simp]:
  "run i (plift r) w = (w, case r of Inl e \<Rightarrow> Exn e | Inr a \<Rightarrow> Done a)"
  by (simp add: plift_def split: sum.split)

lemma run_pskip [simp]: "run i pskip w = (w, Done ())"
  by (simp add: pskip_def)

lemma run_pcatch:
  "run i (pcatch p h) w =
    (case run i p w of
       (w', Done a) \<Rightarrow> (w', Done a)
     | (w', Exn e) \<Rightarrow> run i (h e) w'
     | (w', Blocked) \<Rightarrow> (w', Blocked))"
  by (simp add: pcatch_def run_pbind run_ptry split: prod.split outcome.split)

lemma run_pfinally:
  "run i (pfinally p q) w =
    (case run i p w of
       (w', Done a) \<Rightarrow>
         (case run i q w' of
            (w'', Done _) \<Rightarrow> (w'', Done a) | (w'', Exn e) \<Rightarrow> (w'', Exn e) | (w'', Blocked) \<Rightarrow> (w'', Blocked))
     | (w', Exn e) \<Rightarrow>
         (case run i q w' of
            (w'', Done _) \<Rightarrow> (w'', Exn e) | (w'', Exn e') \<Rightarrow> (w'', Exn e') | (w'', Blocked) \<Rightarrow> (w'', Blocked))
     | (w', Blocked) \<Rightarrow> (w', Blocked))"
  by (simp add: pfinally_def run_pbind run_ptry split: prod.split outcome.split)

lemmas run_simps = run_pbind run_ptry run_pcatch run_pfinally

section \<open>Rely and guarantee\<close>

text \<open>
  \<open>safe R G Q E p w\<close>: from the world \<open>w\<close> on, with others taking the world along \<open>R\<close> between any two
  steps, every step of \<open>p\<close> satisfies \<open>G\<close>, a normal end satisfies \<open>Q\<close> and an exception \<open>E\<close>.
\<close>

primrec safe :: "('w \<Rightarrow> 'w \<Rightarrow> bool) \<Rightarrow> ('w \<Rightarrow> 'w \<Rightarrow> bool) \<Rightarrow> ('a \<Rightarrow> 'w \<Rightarrow> bool) \<Rightarrow> (exn \<Rightarrow> 'w \<Rightarrow> bool) \<Rightarrow>
    ('i, 'w, 'a) prog \<Rightarrow> 'w \<Rightarrow> bool" where
  "safe R G Q E (Ret a) = (\<lambda>w. \<forall>w'. R w w' \<longrightarrow> Q a w')"
| "safe R G Q E (Raise e) = (\<lambda>w. \<forall>w'. R w w' \<longrightarrow> E e w')"
| "safe R G Q E (Step f) =
    (\<lambda>w. \<forall>w'. R w w' \<longrightarrow>
      (\<forall>i. pred_option (\<lambda>(w'', s). G w' w'' \<and> s w'') (map_option (map_prod id (safe R G Q E)) (f i w'))))"

lemma safe_Step:
  "safe R G Q E (Step f) w \<longleftrightarrow>
    (\<forall>w' i w'' p. R w w' \<longrightarrow> f i w' = Some (w'', p) \<longrightarrow> G w' w'' \<and> safe R G Q E p w'')"
  by (fastforce simp: option.pred_map pred_option_def)

declare safe.simps(3) [simp del]

text \<open>What others do keeps a program safe, when their steps compose.\<close>

lemma safe_stable:
  assumes "\<And>x y z. R x y \<Longrightarrow> R y z \<Longrightarrow> R x z" and "R w w'" and "safe R G Q E p w"
  shows "safe R G Q E p w'"
  using assms by (cases p) (auto simp: safe_Step, blast+)

lemma safe_weaken:
  assumes "safe R G Q E p w" and "\<And>a w. Q a w \<Longrightarrow> Q' a w" and "\<And>e w. E e w \<Longrightarrow> E' e w"
    and "\<And>v w. G v w \<Longrightarrow> G' v w"
  shows "safe R G' Q' E' p w"
  using assms(1)
proof (induction p arbitrary: w)
  case (Step f)
  then show ?case
    unfolding safe_Step using assms(4)
    by (metis option.set_intros prod_set_simps(2) rangeI singletonI)
qed (use assms(2,3) in auto)

lemma safe_pbind:
  assumes "safe R G Q' E p w" and "\<And>a w. Q' a w \<Longrightarrow> safe R G Q E (k a) w"
    and "\<And>x. R x x"
  shows "safe R G Q E (pbind p k) w"
  using assms(1)
proof (induction p arbitrary: w)
  case (Ret a)
  then show ?case using assms(2,3) by auto
next
  case (Step f)
  show ?case
    unfolding pbind.simps safe_Step
  proof (intro allI impI)
    fix w' i w'' p
    assume R: "R w w'" and f: "map_option (map_prod id (\<lambda>p. pbind p k)) (f i w') = Some (w'', p)"
    then obtain q where q: "f i w' = Some (w'', q)" "p = pbind q k" by auto
    with Step.prems R have "G w' w'' \<and> safe R G Q' E q w''" by (auto simp: safe_Step)
    with q Step.IH [of "f i" "f i w'" "(w'', q)" q w''] rangeI [of "f i" w']
    show "G w' w'' \<and> safe R G Q E p w''" by simp
  qed
qed simp

lemma safe_ptry:
  assumes "safe R G (\<lambda>a. Q (Inr a)) (\<lambda>e. Q (Inl e)) p w"
  shows "safe R G Q E (ptry p) w"
  using assms
proof (induction p arbitrary: w)
  case (Step f)
  show ?case
    unfolding ptry.simps safe_Step
  proof (intro allI impI)
    fix w' i w'' p
    assume R: "R w w'" and f: "map_option (map_prod id ptry) (f i w') = Some (w'', p)"
    then obtain q where q: "f i w' = Some (w'', q)" "p = ptry q" by auto
    with Step.prems R have "G w' w'' \<and> safe R G (\<lambda>a. Q (Inr a)) (\<lambda>e. Q (Inl e)) q w''"
      by (auto simp: safe_Step)
    with q Step.IH [of "f i" "f i w'" "(w'', q)" q w''] rangeI [of "f i" w']
    show "G w' w'' \<and> safe R G Q E p w''" by simp
  qed
qed simp_all

section \<open>What every step does\<close>

text \<open>\<open>all_steps G p\<close>: whatever the others do in between, every step of \<open>p\<close> satisfies \<open>G\<close>.\<close>

primrec all_steps :: "('w \<Rightarrow> 'w \<Rightarrow> bool) \<Rightarrow> ('i, 'w, 'a) prog \<Rightarrow> bool" where
  "all_steps G (Ret a) = True"
| "all_steps G (Raise e) = True"
| "all_steps G (Step f) = (\<forall>i w. pred_option (\<lambda>(w', ok). G w w' \<and> ok) (map_option (map_prod id (all_steps G)) (f i w)))"

lemma all_steps_Step:
  "all_steps G (Step f) \<longleftrightarrow> (\<forall>i w w' p. f i w = Some (w', p) \<longrightarrow> G w w' \<and> all_steps G p)"
  by (fastforce simp: option.pred_map pred_option_def)

declare all_steps.simps(3) [simp del]

lemma all_steps_mono: "all_steps G p \<Longrightarrow> (\<And>v w. G v w \<Longrightarrow> G' v w) \<Longrightarrow> all_steps G' p"
proof (induction p)
  case (Step f)
  then show ?case
    unfolding all_steps_Step by (metis option.set_intros prod_set_simps(2) rangeI singletonI)
qed simp_all

lemma all_steps_pbind:
  assumes "all_steps G p" and "\<And>a. all_steps G (k a)"
  shows "all_steps G (pbind p k)"
  using assms(1)
proof (induction p)
  case (Step f)
  show ?case
    unfolding pbind.simps all_steps_Step
  proof (intro allI impI)
    fix i w w' p
    assume f: "map_option (map_prod id (\<lambda>p. pbind p k)) (f i w) = Some (w', p)"
    then obtain q where q: "f i w = Some (w', q)" "p = pbind q k" by auto
    with Step.prems have "G w w' \<and> all_steps G q" by (auto simp: all_steps_Step)
    with q Step.IH [of "f i" "f i w" "(w', q)" q] rangeI [of "f i" w] show "G w w' \<and> all_steps G p" by simp
  qed
qed (use assms(2) in simp_all)

lemma all_steps_ptry:
  assumes "all_steps G p"
  shows "all_steps G (ptry p)"
  using assms
proof (induction p)
  case (Step f)
  show ?case
    unfolding ptry.simps all_steps_Step
  proof (intro allI impI)
    fix i w w' p
    assume f: "map_option (map_prod id ptry) (f i w) = Some (w', p)"
    then obtain q where q: "f i w = Some (w', q)" "p = ptry q" by auto
    with Step.prems have "G w w' \<and> all_steps G q" by (auto simp: all_steps_Step)
    with q Step.IH [of "f i" "f i w" "(w', q)" q] rangeI [of "f i" w] show "G w w' \<and> all_steps G p" by simp
  qed
qed simp_all

lemma all_steps_plift [simp]: "all_steps G (plift r)"
  by (simp add: plift_def split: sum.split)

lemma all_steps_pcatch:
  "all_steps G p \<Longrightarrow> (\<And>e. all_steps G (h e)) \<Longrightarrow> all_steps G (pcatch p h)"
  unfolding pcatch_def by (intro all_steps_pbind all_steps_ptry) (auto split: sum.split)

lemma all_steps_pfinally:
  "all_steps G p \<Longrightarrow> all_steps G q \<Longrightarrow> all_steps G (pfinally p q)"
  unfolding pfinally_def by (intro all_steps_pbind all_steps_ptry all_steps_plift)

lemma all_steps_pskip: "(\<And>w. G w w) \<Longrightarrow> all_steps G pskip"
  by (simp add: pskip_def all_steps_Step)

lemma all_steps_pfor: "(\<And>x. x \<in> set xs \<Longrightarrow> all_steps G (body x)) \<Longrightarrow> all_steps G (pfor xs body)"
  by (induction xs) (auto intro: all_steps_pbind)

lemma all_steps_pmap: "(\<And>x. x \<in> set xs \<Longrightarrow> all_steps G (body x)) \<Longrightarrow> all_steps G (pmap xs body)"
  by (induction xs) (auto intro!: all_steps_pbind)

end
