(* ===== verification/World.thy ===== *)
theory World
  imports Fan_In Tts_Semaphore Broker Storage Vendor Ssrf Prog
begin

text \<open>
  The shared world of the services and their adapters as programs of atomic steps: a transaction
  (\<open>get_session\<close> to commit), a Redis command or script, an object store call, a publish. Every step
  may fail in two ways, before it took effect and after (a lost reply), which is an input of the
  environment; so are the random draw, fresh identifiers, name resolution and the answer of a
  webhook. \<open>WorkerContext\<close> is the bundle that \<open>worker/bootstrap.py\<close> builds.
\<close>

section \<open>Inputs and the world\<close>

datatype fault = NoFault | FaultBefore | FaultAfter


record inp =
  i_fault :: fault
  i_draw :: rat
  i_uuid :: string
  i_resolve :: "pystr \<Rightarrow> resolution"
  i_unidata :: unidata
  i_post_ok :: bool

definition calm :: inp where
  "calm = \<lparr>i_fault = NoFault, i_draw = 1, i_uuid = ''u'', i_resolve = (\<lambda>_. GaiError),
     i_unidata = \<lparr>u_lower = id, u_nfkc = id\<rparr>, i_post_ok = True\<rparr>"

text \<open>
  A heartbeat task of a worker process: the token it renews, whether it is the one that the
  process's \<open>_heartbeats\<close> table holds for the token, and whether it has died of an error.
\<close>

record heartbeat =
  hb_worker :: string
  hb_token :: string
  hb_owner :: string
  hb_current :: bool
  hb_failed :: bool

record world =
  w_db :: db
  w_redis :: redis
  w_minio :: minio
  w_broker :: broker
  w_heartbeats :: "heartbeat list"
  w_webhooks :: "(pystr \<times> string \<times> string option) list"

definition empty_world :: world where
  "empty_world = \<lparr>w_db = empty_db, w_redis = empty_redis, w_minio = empty_minio, w_broker = empty_broker,
     w_heartbeats = [], w_webhooks = []\<rparr>"

type_synonym 'a action = "(inp, world, 'a) prog"

record WorkerContext =
  settings :: Settings
  worker_id :: string
  semaphore :: Semaphore
  cache :: Cache

section \<open>Atomic steps\<close>

definition atomic :: "(inp \<Rightarrow> world \<Rightarrow> world \<times> 'a res) \<Rightarrow> 'a action" where
  "atomic f = Step (\<lambda>i w.
    Some (case i_fault i of
        NoFault \<Rightarrow> (fst (f i w), plift (snd (f i w)))
      | FaultBefore \<Rightarrow> (w, Raise InfraError)
      | FaultAfter \<Rightarrow> (fst (f i w), Raise InfraError)))"

text \<open>A step that waits: it is not possible while \<open>f\<close> gives nothing.\<close>

definition blocking :: "(world \<Rightarrow> (world \<times> 'a) option) \<Rightarrow> 'a action" where
  "blocking f = Step (\<lambda>i w.
    case i_fault i of
      FaultBefore \<Rightarrow> Some (w, Raise InfraError)
    | FaultAfter \<Rightarrow> map_option (map_prod id (\<lambda>_. Raise InfraError)) (f w)
    | NoFault \<Rightarrow> map_option (map_prod id Ret) (f w))"

text \<open>What the process does without an await: drawing a number, a fresh identifier.\<close>

definition ask :: "(inp \<Rightarrow> 'a) \<Rightarrow> 'a action" where
  "ask f = Step (\<lambda>i w. Some (w, Ret (f i)))"

definition local_step :: "(world \<Rightarrow> world) \<Rightarrow> unit action" where
  "local_step f = Step (\<lambda>i w. Some (f w, Ret ()))"

definition transaction :: "(db \<Rightarrow> db \<times> 'a res) \<Rightarrow> 'a action" where
  "transaction t = atomic (\<lambda>i w. let (d, r) = t (w_db w) in (w\<lparr>w_db := d\<rparr>, r))"

definition redis_cmd :: "(redis \<Rightarrow> redis \<times> 'a) \<Rightarrow> 'a action" where
  "redis_cmd c = atomic (\<lambda>i w. let (r, a) = c (w_redis w) in (w\<lparr>w_redis := r\<rparr>, Inr a))"

definition minio_put :: "(minio \<Rightarrow> minio res) \<Rightarrow> unit action" where
  "minio_put c = atomic (\<lambda>i w. case c (w_minio w) of
      Inl e \<Rightarrow> (w, Inl e) | Inr s \<Rightarrow> (w\<lparr>w_minio := s\<rparr>, Inr ()))"

definition minio_get :: "(minio \<Rightarrow> 'a res) \<Rightarrow> 'a action" where
  "minio_get c = atomic (\<lambda>i w. (w, c (w_minio w)))"

definition broker_put :: "(inp \<Rightarrow> broker \<Rightarrow> broker res) \<Rightarrow> unit action" where
  "broker_put c = atomic (\<lambda>i w. case c i (w_broker w) of
      Inl e \<Rightarrow> (w, Inl e) | Inr b \<Rightarrow> (w\<lparr>w_broker := b\<rparr>, Inr ()))"

text \<open>\<open>broker.publish(exchange, Event(..), routing_key)\<close>: the event gets a fresh \<open>event_id\<close>.\<close>

definition publish_event :: "(string \<Rightarrow> event) \<Rightarrow> string \<Rightarrow> unit action" where
  "publish_event e routing_key = broker_put (\<lambda>i b. Inr (publish b (e (i_uuid i)) routing_key))"

section \<open>The semaphore and the cache as programs\<close>

definition start_heartbeat :: "WorkerContext \<Rightarrow> string \<Rightarrow> string \<Rightarrow> world \<Rightarrow> world" where
  "start_heartbeat ctx token owner w =
    w\<lparr>w_heartbeats :=
      map (\<lambda>h. if hb_worker h = worker_id ctx \<and> hb_token h = token then h\<lparr>hb_current := False\<rparr> else h)
        (w_heartbeats w)
      @ [\<lparr>hb_worker = worker_id ctx, hb_token = token, hb_owner = owner, hb_current = True, hb_failed = False\<rparr>]\<rparr>"

definition current_heartbeat :: "WorkerContext \<Rightarrow> string \<Rightarrow> heartbeat \<Rightarrow> bool" where
  "current_heartbeat ctx token h \<longleftrightarrow> hb_worker h = worker_id ctx \<and> hb_token h = token \<and> hb_current h"

text \<open>
  The start of \<open>release\<close>: the task is taken out of the table, cancelled and awaited. A task that has
  already died re-raises its exception here.
\<close>

definition stop_heartbeat :: "WorkerContext \<Rightarrow> string \<Rightarrow> unit action" where
  "stop_heartbeat ctx token = Step (\<lambda>i w.
    Some (w\<lparr>w_heartbeats := filter (\<lambda>h. \<not> current_heartbeat ctx token h) (w_heartbeats w)\<rparr>,
      if \<exists>h \<in> set (w_heartbeats w). current_heartbeat ctx token h \<and> hb_failed h
      then Raise InfraError else Ret ()))"

definition sem_acquire :: "WorkerContext \<Rightarrow> string \<Rightarrow> string action" where
  "sem_acquire ctx owner =
    pbind (blocking (\<lambda>w. map_option (\<lambda>(r, token). (w\<lparr>w_redis := r\<rparr>, token))
        (acquire_pop (semaphore ctx) (w_redis w)))) (\<lambda>token.
    pbind (redis_cmd (\<lambda>r. (acquire_lease (semaphore ctx) token owner r, ()))) (\<lambda>_.
    pbind (local_step (start_heartbeat ctx token owner)) (\<lambda>_.
    Ret token)))"

definition sem_release :: "WorkerContext \<Rightarrow> string \<Rightarrow> unit action" where
  "sem_release ctx token =
    pbind (stop_heartbeat ctx token) (\<lambda>_.
    pbind (redis_cmd (\<lambda>r. (release_delete (semaphore ctx) token r, ()))) (\<lambda>_.
    redis_cmd (\<lambda>r. (release_push (semaphore ctx) token r, ()))))"

definition slot :: "WorkerContext \<Rightarrow> string \<Rightarrow> 'a action \<Rightarrow> 'a action" where
  "slot ctx owner block =
    pbind (sem_acquire ctx owner) (\<lambda>token. pfinally block (sem_release ctx token))"

definition do_cache_get :: "WorkerContext \<Rightarrow> string \<Rightarrow> string option action" where
  "do_cache_get ctx h = redis_cmd (\<lambda>r. (r, cache_get (cache ctx) h r))"

text \<open>\<open>wait_for_cache\<close>: up to \<open>attempts\<close> polls, with a sleep after each miss.\<close>

fun wait_for_cache :: "WorkerContext \<Rightarrow> string \<Rightarrow> nat \<Rightarrow> string option action" where
  "wait_for_cache ctx h 0 = Ret None"
| "wait_for_cache ctx h (Suc attempts) =
    pbind (do_cache_get ctx h) (\<lambda>url.
      case url of
        Some u \<Rightarrow> Ret (Some u)
      | None \<Rightarrow> pbind pskip (\<lambda>_. wait_for_cache ctx h attempts))"

definition WAIT_ATTEMPTS :: nat where
  "WAIT_ATTEMPTS = 100"

section \<open>Running the steps without fault\<close>

lemma run_atomic [simp]:
  "i_fault i = NoFault \<Longrightarrow> run i (atomic f) w =
    (fst (f i w), case snd (f i w) of Inl e \<Rightarrow> Exn e | Inr a \<Rightarrow> Done a)"
  by (simp add: atomic_def)

lemma run_ask [simp]: "run i (ask f) w = (w, Done (f i))"
  by (simp add: ask_def)

lemma run_local [simp]: "run i (local_step f) w = (f w, Done ())"
  by (simp add: local_step_def)

lemma run_blocking [simp]:
  "i_fault i = NoFault \<Longrightarrow> run i (blocking f) w =
    (case f w of None \<Rightarrow> (w, Blocked) | Some (w', a) \<Rightarrow> (w', Done a))"
  by (simp add: blocking_def split: option.split)

lemma run_transaction [simp]:
  "i_fault i = NoFault \<Longrightarrow> run i (transaction t) w =
    (w\<lparr>w_db := fst (t (w_db w))\<rparr>, case snd (t (w_db w)) of Inl e \<Rightarrow> Exn e | Inr a \<Rightarrow> Done a)"
  by (simp add: transaction_def split_beta Let_def)

lemma run_redis_cmd [simp]:
  "i_fault i = NoFault \<Longrightarrow> run i (redis_cmd c) w =
    (w\<lparr>w_redis := fst (c (w_redis w))\<rparr>, Done (snd (c (w_redis w))))"
  by (simp add: redis_cmd_def split_beta Let_def)

lemma run_minio_put [simp]:
  "i_fault i = NoFault \<Longrightarrow> run i (minio_put c) w =
    (case c (w_minio w) of Inl e \<Rightarrow> (w, Exn e) | Inr s \<Rightarrow> (w\<lparr>w_minio := s\<rparr>, Done ()))"
  by (simp add: minio_put_def split: sum.split)

lemma run_minio_get [simp]:
  "i_fault i = NoFault \<Longrightarrow> run i (minio_get c) w =
    (w, case c (w_minio w) of Inl e \<Rightarrow> Exn e | Inr a \<Rightarrow> Done a)"
  by (simp add: minio_get_def)

lemma run_broker_put [simp]:
  "i_fault i = NoFault \<Longrightarrow> run i (broker_put c) w =
    (case c i (w_broker w) of Inl e \<Rightarrow> (w, Exn e) | Inr b \<Rightarrow> (w\<lparr>w_broker := b\<rparr>, Done ()))"
  by (simp add: broker_put_def split: sum.split)

lemma run_publish_event [simp]:
  "i_fault i = NoFault \<Longrightarrow> run i (publish_event e key) w =
    (w\<lparr>w_broker := publish (w_broker w) (e (i_uuid i)) key\<rparr>, Done ())"
  by (simp add: publish_event_def)

lemma run_stop_heartbeat [simp]:
  "run i (stop_heartbeat ctx token) w =
    (w\<lparr>w_heartbeats := filter (\<lambda>h. \<not> current_heartbeat ctx token h) (w_heartbeats w)\<rparr>,
     if \<exists>h \<in> set (w_heartbeats w). current_heartbeat ctx token h \<and> hb_failed h then Exn InfraError else Done ())"
  by (simp add: stop_heartbeat_def)

lemma calm_simps [simp]: "i_fault calm = NoFault" "i_draw calm = 1"
  by (simp_all add: calm_def)

section \<open>Rely and guarantee for the steps\<close>

lemma safe_atomic:
  assumes "\<And>x i. R w x \<Longrightarrow> G x x \<and> G x (fst (f i x))"
    and "\<And>x i e y. R w x \<Longrightarrow> snd (f i x) = Inl e \<Longrightarrow> R (fst (f i x)) y \<Longrightarrow> E e y"
    and "\<And>x i a y. R w x \<Longrightarrow> snd (f i x) = Inr a \<Longrightarrow> R (fst (f i x)) y \<Longrightarrow> Q a y"
    and "\<And>x i y. R w x \<Longrightarrow> R x y \<or> R (fst (f i x)) y \<Longrightarrow> E InfraError y"
  shows "safe R G Q E (atomic f) w"
  unfolding atomic_def safe_Step
proof (intro allI impI)
  fix x :: world and i :: inp and y :: world and p :: "'a action"
  assume R: "R w x" and step: "Some (case i_fault i of
        NoFault \<Rightarrow> (fst (f i x), plift (snd (f i x)))
      | FaultBefore \<Rightarrow> (x, Raise InfraError)
      | FaultAfter \<Rightarrow> (fst (f i x), Raise InfraError)) = Some (y, p)"
  then show "G x y \<and> safe R G Q E p y"
    using assms(1,2,3) [OF R] assms(4) [OF R, where i = i]
    by (cases "i_fault i"; cases "snd (f i x)") (auto simp: plift_def)
qed

section \<open>What the steps change\<close>

lemma all_steps_atomic:
  "(\<And>w. G w w) \<Longrightarrow> (\<And>i w. G w (fst (f i w))) \<Longrightarrow> all_steps G (atomic f)"
  by (auto simp: atomic_def all_steps_Step plift_def split: fault.splits sum.splits)

lemma all_steps_transaction:
  "(\<And>w. G w w) \<Longrightarrow> (\<And>w. G w (w\<lparr>w_db := fst (t (w_db w))\<rparr>)) \<Longrightarrow> all_steps G (transaction t)"
  unfolding transaction_def by (rule all_steps_atomic) (simp_all add: split_beta Let_def)

lemma all_steps_redis_cmd:
  "(\<And>w. G w w) \<Longrightarrow> (\<And>w r. G w (w\<lparr>w_redis := r\<rparr>)) \<Longrightarrow> all_steps G (redis_cmd c)"
  unfolding redis_cmd_def by (rule all_steps_atomic) (simp_all add: split_beta Let_def)

lemma all_steps_minio_put:
  "(\<And>w. G w w) \<Longrightarrow> (\<And>w s. c (w_minio w) = Inr s \<Longrightarrow> G w (w\<lparr>w_minio := s\<rparr>)) \<Longrightarrow> all_steps G (minio_put c)"
  unfolding minio_put_def by (rule all_steps_atomic) (auto split: sum.split)

lemma all_steps_minio_get: "(\<And>w. G w w) \<Longrightarrow> all_steps G (minio_get c)"
  unfolding minio_get_def by (rule all_steps_atomic) simp_all

lemma all_steps_broker_put:
  "(\<And>w. G w w) \<Longrightarrow> (\<And>i w b. c i (w_broker w) = Inr b \<Longrightarrow> G w (w\<lparr>w_broker := b\<rparr>)) \<Longrightarrow> all_steps G (broker_put c)"
  unfolding broker_put_def by (rule all_steps_atomic) (auto split: sum.split)

lemma all_steps_ask: "(\<And>w. G w w) \<Longrightarrow> all_steps G (ask f)"
  by (simp add: ask_def all_steps_Step)

lemma all_steps_local_step: "(\<And>w. G w (f w)) \<Longrightarrow> all_steps G (local_step f)"
  by (simp add: local_step_def all_steps_Step)

lemma all_steps_blocking:
  "(\<And>w. G w w) \<Longrightarrow> (\<And>w w' a. f w = Some (w', a) \<Longrightarrow> G w w') \<Longrightarrow> all_steps G (blocking f)"
  by (auto simp: blocking_def all_steps_Step split: fault.splits)

section \<open>Publishing in a loop\<close>

lemma run_pfor_publish:
  "i_fault i = NoFault \<Longrightarrow>
    run i (pfor xs (\<lambda>x. publish_event (\<lambda>u. e u x) key)) w =
      (w\<lparr>w_broker := fold (\<lambda>m b. exchange_publish b m key) (map (\<lambda>x. event_msg (e (i_uuid i) x)) xs) (w_broker w)\<rparr>,
       Done ())"
  by (induction xs arbitrary: w) (simp_all add: run_simps publish_eq)

section \<open>An example\<close>

definition example_context :: WorkerContext where
  "example_context = \<lparr>settings = default_settings, worker_id = ''w'',
     semaphore = \<lparr>slots = 1, lease_ttl = 30, slots_key = SLOTS_KEY\<rparr>,
     cache = \<lparr>cache_ttl = 86400, inflight_ttl = 60\<rparr>\<rparr>"

text \<open>A world with one job of two blocks that is being generated.\<close>

definition example_world :: world where
  "example_world = \<lparr>w_db = example_db, w_redis = empty_redis\<lparr>r_list := (\<lambda>_. [])(SLOTS_KEY := [''0''])\<rparr>,
     w_minio = example_minio, w_broker = ready_broker, w_heartbeats = [], w_webhooks = []\<rparr>"

lemma example_world_simps [simp]:
  "w_db example_world = example_db" "w_minio example_world = example_minio"
  "w_broker example_world = ready_broker"
  "redis_get (w_redis example_world) k = None" "r_list (w_redis example_world) SLOTS_KEY = [''0'']"
  by (simp_all add: example_world_def redis_get_def empty_redis_def)

lemma example_db_job:
  "\<exists>j. get_job example_db ''j'' = Some j \<and> j_status j = GENERATING \<and> manuscript_key j = ''raw/j.txt'' \<and> pending_count j = 2"
  by (simp add: example_db_def)

lemma example_db_task:
  "\<exists>t. get_task example_db ''j-0'' = Some t \<and> block_index t = 0 \<and> t_status t = T_PENDING"
  by (simp add: example_db_def example_task_def)

definition example_pending :: db where
  "example_pending = example_db\<lparr>tasks := [],
     jobs := map (\<lambda>j. j\<lparr>j_status := PENDING, pending_count := 0\<rparr>) (jobs example_db)\<rparr>"

lemma example_pending_ok:
  "fan_in_ok example_pending" "wf_db example_pending"
  "\<exists>j. get_job example_pending ''j'' = Some j \<and> j_status j = PENDING \<and> manuscript_key j = ''raw/j.txt''"
  by (simp_all add: fan_in_ok_def wf_db_def example_pending_def example_db_def)

end
