(* ===== verification/Worker_Base.thy ===== *)
theory Worker_Base
  imports World
begin

text \<open>
  \<open>worker/errors.py\<close> and \<open>worker/handlers/_base.py\<close>: which exceptions dead-letter at once, and the
  wrapper that acknowledges a delivery as the last thing on every path. A handler is a program
  that ends with what is done to the delivery. An exception that leaves the wrapper is left to the
  context manager of the client library: what that does to the delivery is a parameter of the
  system (see \<open>System\<close>).
\<close>

section \<open>Errors and deliveries\<close>

definition is_poison :: "exn \<Rightarrow> bool" where
  "is_poison exc \<longleftrightarrow> exc = PoisonError"

text \<open>What becomes of a delivery: acknowledged, or given back with or without requeueing.\<close>

datatype disposition = Acked | Nacked bool

type_synonym handler = "msg \<Rightarrow> disposition action"

section \<open>Reads of one session\<close>

definition read_db :: "(db \<Rightarrow> 'a res) \<Rightarrow> 'a action" where
  "read_db q = transaction (\<lambda>d. (d, q d))"

lemma run_read_db [simp]:
  "i_fault i = NoFault \<Longrightarrow>
    run i (read_db q) w = (w, case q (w_db w) of Inl e \<Rightarrow> Exn e | Inr a \<Rightarrow> Done a)"
  by (simp add: read_db_def)

section \<open>The wrapper\<close>

definition route_failed :: "WorkerContext \<Rightarrow> string \<Rightarrow> msg \<Rightarrow> exn \<Rightarrow> unit action" where
  "route_failed ctx live_queue m exc =
    pbind (plift (retry_delays (settings ctx))) (\<lambda>delays.
      broker_put (\<lambda>i b. route_retry_or_dlq b m live_queue
        (if is_poison exc then 0 else MAX_RETRIES (settings ctx)) delays))"

definition ack_last :: "WorkerContext \<Rightarrow> string \<Rightarrow> (msg \<Rightarrow> unit action) \<Rightarrow> handler" where
  "ack_last ctx live_queue do_work m =
    pbind (ptry (do_work m)) (\<lambda>r.
      case r of
        Inl exc \<Rightarrow> pbind (route_failed ctx live_queue m exc) (\<lambda>_. Ret Acked)
      | Inr _ \<Rightarrow> Ret Acked)"

lemma run_ack_last_ok:
  "run i (do_work m) w = (w', Done ()) \<Longrightarrow> run i (ack_last ctx q do_work m) w = (w', Done Acked)"
  by (simp add: ack_last_def run_simps)

lemma run_ack_last_failed:
  assumes "i_fault i = NoFault" and "run i (do_work m) w = (w', Exn e)"
    and "retry_delays (settings ctx) = Inr ds"
    and "route_retry_or_dlq (w_broker w') m q (if is_poison e then 0 else MAX_RETRIES (settings ctx)) ds = Inr b"
  shows "run i (ack_last ctx q do_work m) w = (w'\<lparr>w_broker := b\<rparr>, Done Acked)"
  using assms by (simp add: ack_last_def route_failed_def run_simps)

end
