(* ===== verification/Parse_Handler.thy ===== *)
theory Parse_Handler
  imports Worker_Base
begin

text \<open>
  \<open>worker/handlers/parse.py\<close>: the fan-out. The handler reads the manuscript, splits it, writes the
  task rows and the counter in one transaction, advances the job and publishes one event per block
  (or \<open>StitchReady\<close> at once when there is none) on every delivery.
\<close>

definition task_id_of :: "string \<Rightarrow> nat \<Rightarrow> string" where
  "task_id_of jid i = jid @ ''-'' @ nat_str i"

text \<open>A slice \<open>xs[:k]\<close>; a negative \<open>k\<close> counts from the end.\<close>

definition py_take :: "int \<Rightarrow> 'a list \<Rightarrow> 'a list" where
  "py_take k xs = take (nat (if k < 0 then int (length xs) + k else k)) xs"

definition capped :: "int \<Rightarrow> 'a list \<Rightarrow> 'a list" where
  "capped max_blocks blocks =
    (if int (length blocks) > max_blocks then py_take max_blocks blocks else blocks)"

definition task_row :: "int \<Rightarrow> string \<Rightarrow> nat \<times> pystr \<Rightarrow> Task res" where
  "task_row now jid ib =
    bind_res (content_hash (snd ib)) (\<lambda>h.
      Inr \<lparr>t_id = task_id_of jid (fst ib), t_job = jid, block_index = fst ib, block_hash = h,
           t_status = T_PENDING, audio_key = None, t_created_at = now, t_updated_at = now\<rparr>)"

definition task_rows :: "int \<Rightarrow> string \<Rightarrow> pystr list \<Rightarrow> Task list res" where
  "task_rows now jid blocks = map_res (task_row now jid) (enumerate 0 blocks)"

text \<open>The one transaction: insert the rows, then the compare-and-set of \<open>begin_parse\<close> commits both.\<close>

definition parse_transaction :: "string \<Rightarrow> pystr list \<Rightarrow> db \<Rightarrow> db \<times> bool res" where
  "parse_transaction jid blocks d =
    (case bind_res (task_rows (db_now d) jid blocks) (\<lambda>rows. insert_tasks rows d) of
       Inl e \<Rightarrow> (d, Inl e)
     | Inr d1 \<Rightarrow> (case begin_parse d1 jid (int (length blocks)) of (d2, won) \<Rightarrow> (d2, Inr won)))"

definition load_manuscript_key :: "string \<Rightarrow> db \<Rightarrow> string res" where
  "load_manuscript_key jid d =
    (case get_job d jid of None \<Rightarrow> Inl RuntimeError | Some job \<Rightarrow> Inr (manuscript_key job))"

definition fan_out :: "string \<Rightarrow> nat \<Rightarrow> unit action" where
  "fan_out jid n =
    (if n = 0 then publish_event (\<lambda>u. StitchReady u jid) Q_STITCH
     else pfor [0..<n] (\<lambda>i. publish_event (\<lambda>u. TtsRequested u jid (task_id_of jid i)) Q_TTS))"

definition handle_parse :: "WorkerContext \<Rightarrow> event \<Rightarrow> unit action" where
  "handle_parse ctx event =
    (let jid = job_id event in
     pbind (read_db (load_manuscript_key jid)) (\<lambda>key.
     pbind (minio_get (\<lambda>s. get_text s key)) (\<lambda>manuscript.
     pbind pskip (\<lambda>_.
     pbind (ask i_draw) (\<lambda>draw.
     pbind (plift (simulate_parse manuscript (PARSE_FAILURE_RATE (settings ctx)) draw)) (\<lambda>all_blocks.
     let blocks = capped (MAX_BLOCKS (settings ctx)) all_blocks in
     pbind (transaction (parse_transaction jid blocks)) (\<lambda>_.
     pbind (transaction (\<lambda>d. case advance_status d jid GENERATING of (d', won) \<Rightarrow> (d', Inr won))) (\<lambda>_.
     fan_out jid (length blocks)))))))))"

definition make_parse_handler :: "WorkerContext \<Rightarrow> handler" where
  "make_parse_handler ctx = ack_last ctx Q_PARSE (\<lambda>m.
    pbind (ask i_uuid) (\<lambda>u.
    pbind (plift (validate_JobCreated u (m_body m))) (handle_parse ctx)))"

section \<open>Task identifiers\<close>

definition task_ids_ok :: "db \<Rightarrow> bool" where
  "task_ids_ok d \<longleftrightarrow> (\<forall>t \<in> set (tasks d). t_id t = task_id_of (t_job t) (block_index t))"

lemma task_id_of_inj [simp]: "task_id_of jid i = task_id_of jid' i' \<longleftrightarrow> jid = jid' \<and> i = i'"
  using append_sep_inj [of "CHR ''-''" "nat_str i" "nat_str i'" jid jid'] by (simp add: task_id_of_def)

text \<open>The rows of the statement that are not there yet.\<close>

definition missing_rows :: "db \<Rightarrow> Task list \<Rightarrow> Task list" where
  "missing_rows d rows =
    filter (\<lambda>r. \<not> (\<exists>t \<in> set (tasks d). t_job t = t_job r \<and> block_index t = block_index r)) rows"

lemma insert_tasks_eq:
  assumes "task_ids_ok d" and "\<And>r. r \<in> set rows \<Longrightarrow> t_job r \<in> j_id ` set (jobs d)"
    and "\<And>r. r \<in> set rows \<Longrightarrow> t_id r = task_id_of (t_job r) (block_index r)"
    and "distinct (map t_id rows)"
  shows "insert_tasks rows d = Inr (d\<lparr>tasks := tasks d @ missing_rows d rows\<rparr>)"
  using assms
proof (induction rows arbitrary: d)
  case (Cons r rows)
  show ?case
  proof (cases "\<exists>t \<in> set (tasks d). t_job t = t_job r \<and> block_index t = block_index r")
    case True
    then show ?thesis using Cons by (simp add: missing_rows_def)
  next
    case False
    let ?d = "d\<lparr>tasks := tasks d @ [r]\<rparr>"
    have fresh: "t_id r \<notin> t_id ` set (tasks d)"
      using False Cons.prems(1,3) by (auto simp: task_ids_ok_def)
    have "task_ids_ok ?d" using Cons.prems(1,3) by (auto simp: task_ids_ok_def)
    then have "insert_tasks rows ?d = Inr (?d\<lparr>tasks := tasks ?d @ missing_rows ?d rows\<rparr>)"
      using Cons.prems by (intro Cons.IH) auto
    moreover have "missing_rows ?d rows = missing_rows d rows"
      unfolding missing_rows_def
    proof (rule filter_cong)
      fix x assume x: "x \<in> set rows"
      with Cons.prems(3,4) have "\<not> (t_job r = t_job x \<and> block_index r = block_index x)"
        by (auto simp: image_iff)
      then show "(\<not> (\<exists>t \<in> set (tasks ?d). t_job t = t_job x \<and> block_index t = block_index x)) =
          (\<not> (\<exists>t \<in> set (tasks d). t_job t = t_job x \<and> block_index t = block_index x))"
        by auto
    qed simp
    ultimately show ?thesis
      using False fresh Cons.prems(2) by (auto simp: missing_rows_def)
  qed
qed (simp add: missing_rows_def)

section \<open>The rows of a manuscript\<close>

definition rows_of :: "int \<Rightarrow> string \<Rightarrow> pystr list \<Rightarrow> Task list" where
  "rows_of now jid blocks =
    map (\<lambda>(i, b). \<lparr>t_id = task_id_of jid i, t_job = jid, block_index = i,
        block_hash = (case content_hash b of Inr h \<Rightarrow> h | Inl _ \<Rightarrow> []),
        t_status = T_PENDING, audio_key = None, t_created_at = now, t_updated_at = now\<rparr>)
      (enumerate 0 blocks)"

lemma task_rows_ok:
  assumes "\<And>b. b \<in> set blocks \<Longrightarrow> list_all scalar b"
  shows "task_rows now jid blocks = Inr (rows_of now jid blocks)"
  unfolding task_rows_def rows_of_def
proof (rule map_res_Inr_map)
  fix x assume "x \<in> set (enumerate 0 blocks)"
  then have "snd x \<in> set blocks" unfolding enumerate_eq_zip by (metis prod.collapse set_zip_rightD)
  then obtain h where "content_hash (snd x) = Inr h" using content_hash_scalar assms by blast
  then show "task_row now jid x = Inr (case x of (i, b) \<Rightarrow> \<lparr>t_id = task_id_of jid i, t_job = jid, block_index = i,
        block_hash = (case content_hash b of Inr h \<Rightarrow> h | Inl _ \<Rightarrow> []),
        t_status = T_PENDING, audio_key = None, t_created_at = now, t_updated_at = now\<rparr>)"
    by (cases x) (simp add: task_row_def)
qed

lemma rows_of_simps:
  "length (rows_of now jid blocks) = length blocks"
  "map t_id (rows_of now jid blocks) = map (task_id_of jid) [0..<length blocks]"
  "map block_index (rows_of now jid blocks) = [0..<length blocks]"
  "r \<in> set (rows_of now jid blocks) \<Longrightarrow> t_job r = jid \<and> t_id r = task_id_of jid (block_index r)
    \<and> t_status r = T_PENDING \<and> block_index r < length blocks"
  by (auto simp: rows_of_def enumerate_eq_zip zip_map1 split_beta map_fst_zip o_def in_set_zip
      simp flip: map_map [of "task_id_of jid" fst, unfolded o_def])

lemma distinct_rows_of: "distinct (map t_id (rows_of now jid blocks))"
  by (simp add: rows_of_simps distinct_map inj_on_def)


text \<open>The messages of a fan-out, and where they go.\<close>

definition fan_out_key :: "nat \<Rightarrow> string" where
  "fan_out_key n = (if n = 0 then Q_STITCH else Q_TTS)"

definition fan_out_msgs :: "string \<Rightarrow> string \<Rightarrow> nat \<Rightarrow> msg list" where
  "fan_out_msgs u jid n =
    (if n = 0 then [event_msg (StitchReady u jid)]
     else map (\<lambda>k. event_msg (TtsRequested u jid (task_id_of jid k))) [0..<n])"

lemma run_fan_out:
  assumes "i_fault i = NoFault" and "wf_broker (w_broker w)" and "bound (w_broker w) (fan_out_key n)"
  shows "\<exists>b. run i (fan_out jid n) w = (w\<lparr>w_broker := b\<rparr>, Done ()) \<and> wf_broker b
    \<and> (\<forall>q. bound b q = bound (w_broker w) q)
    \<and> (\<forall>q. msgs_in b q = msgs_in (w_broker w) q @
        (if q = fan_out_key n then fan_out_msgs (i_uuid i) jid n else []))"
proof -
  have "run i (fan_out jid n) w =
      (w\<lparr>w_broker := fold (\<lambda>m b. exchange_publish b m (fan_out_key n)) (fan_out_msgs (i_uuid i) jid n) (w_broker w)\<rparr>, Done ())"
    using assms(1) run_pfor_publish [of i "[0..<n]" "\<lambda>u k. TtsRequested u jid (task_id_of jid k)" Q_TTS w]
    by (simp add: fan_out_def fan_out_key_def fan_out_msgs_def publish_eq)
  with amqp.fan_out [OF assms(2,3), of "fan_out_msgs (i_uuid i) jid n"] amqp.fan_out_bound [OF assms(2)]
  show ?thesis by auto
qed

section \<open>The transaction\<close>

lemma parse_transaction_eq:
  assumes "task_ids_ok d" and "get_job d jid = Some j" and "\<And>b. b \<in> set blocks \<Longrightarrow> list_all scalar b"
  shows "parse_transaction jid blocks d =
    (let d1 = d\<lparr>tasks := tasks d @ missing_rows d (rows_of (db_now d) jid blocks)\<rparr>
     in (fst (begin_parse d1 jid (int (length blocks))), Inr (snd (begin_parse d1 jid (int (length blocks))))))"
proof -
  have "jid \<in> j_id ` set (jobs d)" using row_get_SomeD [OF assms(2)] by auto
  then have "insert_tasks (rows_of (db_now d) jid blocks) d =
      Inr (d\<lparr>tasks := tasks d @ missing_rows d (rows_of (db_now d) jid blocks)\<rparr>)"
    using assms(1) rows_of_simps(4) [of _ "db_now d" jid blocks] distinct_rows_of
    by (intro insert_tasks_eq) auto
  then show ?thesis
    using assms(3) by (simp add: parse_transaction_def task_rows_ok Let_def split_beta)
qed

text \<open>The database after the two transactions of the handler.\<close>

definition parsed_db :: "string \<Rightarrow> pystr list \<Rightarrow> db \<Rightarrow> db" where
  "parsed_db jid blocks d =
    fst (advance_status (fst (begin_parse
      (d\<lparr>tasks := tasks d @ missing_rows d (rows_of (db_now d) jid blocks)\<rparr>) jid (int (length blocks)))) jid GENERATING)"

lemma run_handle_parse:
  assumes "i_fault i = NoFault" and "task_ids_ok (w_db w)" and "get_job (w_db w) jid = Some j"
    and "get_text (w_minio w) (manuscript_key j) = Inr ms"
    and "\<not> contains POISON_MARKER ms" and "PARSE_FAILURE_RATE (settings ctx) \<le> i_draw i"
  defines "blocks \<equiv> capped (MAX_BLOCKS (settings ctx)) (split_blocks ms)"
  shows "run i (handle_parse ctx (JobCreated e jid)) w =
    run i (fan_out jid (length blocks)) (w\<lparr>w_db := parsed_db jid blocks (w_db w)\<rparr>)"
proof -
  have "list_all scalar b" if "b \<in> set blocks" for b
  proof -
    have "b \<in> set (split_blocks ms)"
      using that by (auto simp: blocks_def capped_def py_take_def split: if_splits dest: in_set_takeD)
    then show ?thesis using get_text_scalar [OF assms(4)] split_blocks_scalar by blast
  qed
  then have "parse_transaction jid blocks (w_db w) =
    (let d1 = (w_db w)\<lparr>tasks := tasks (w_db w) @ missing_rows (w_db w) (rows_of (db_now (w_db w)) jid blocks)\<rparr>
     in (fst (begin_parse d1 jid (int (length blocks))), Inr (snd (begin_parse d1 jid (int (length blocks))))))"
    by (rule parse_transaction_eq [OF assms(2,3)])
  with assms show ?thesis
    by (simp add: handle_parse_def run_simps load_manuscript_key_def simulate_parse_def Let_def
        split_beta parsed_db_def)
qed

lemma missing_rows_all:
  "(\<And>t. t \<in> set (tasks d) \<Longrightarrow> t_job t \<noteq> jid) \<Longrightarrow> missing_rows d (rows_of now jid blocks) = rows_of now jid blocks"
  using rows_of_simps(4) [of _ now jid blocks] by (auto simp: missing_rows_def filter_id_conv)

lemma missing_rows_none:
  "(\<And>k. k < length blocks \<Longrightarrow> \<exists>t \<in> set (tasks d). t_job t = jid \<and> block_index t = k) \<Longrightarrow>
    missing_rows d (rows_of now jid blocks) = []"
  using rows_of_simps(4) [of _ now jid blocks] by (auto simp: missing_rows_def filter_empty_conv)

lemma parsed_db_tasks:
  "tasks (parsed_db jid blocks d) = tasks d @ missing_rows d (rows_of (db_now d) jid blocks)"
  by (simp add: parsed_db_def)

lemma parsed_db_now [simp]: "db_now (parsed_db jid blocks d) = db_now d"
  by (simp add: parsed_db_def)

lemma parsed_db_job:
  "get_job (parsed_db jid blocks d) i =
    map_option (\<lambda>j. if i = jid \<and> j_status j = PENDING
        then j\<lparr>j_status := GENERATING, pending_count := int (length blocks), j_updated_at := db_now d\<rparr>
        else if i = jid \<and> j_status j = PARSING then j\<lparr>j_status := GENERATING, j_updated_at := db_now d\<rparr>
        else j) (get_job d i)"
  by (cases "get_job d i") (auto simp: parsed_db_def advance_job begin_parse_job can_transition_iff)

text \<open>A job is already past parsing: nothing changes.\<close>

lemma parsed_db_same:
  assumes "wf_db d" and "get_job d jid = Some j" and "j_status j \<notin> {PENDING, PARSING}"
    and "\<And>k. k < length blocks \<Longrightarrow> \<exists>t \<in> set (tasks d). t_job t = jid \<and> block_index t = k"
  shows "parsed_db jid blocks d = d"
proof -
  have none: "sql_update (\<lambda>j. j_id j = jid \<and> P j) f (jobs d) = jobs d"
    if "\<not> P j" for P :: "Job \<Rightarrow> bool" and f
  proof (rule sql_update_none)
    show "rowcount (\<lambda>j. j_id j = jid \<and> P j) (jobs d) = 0"
      using assms(1,2) that rowcount_key [of j_id "jobs d" jid P] by (simp add: wf_db_def)
  qed
  have "begin_parse d jid n = (d, rowcount (\<lambda>j. j_id j = jid \<and> j_status j = PENDING) (jobs d) = 1)" for n
    using none [of "\<lambda>j. j_status j = PENDING"] assms(3) by (simp add: begin_parse_def Let_def)
  moreover have "fst (advance_status d jid GENERATING) = d"
    using none [of "\<lambda>j. j_status j \<in> set (expected_for GENERATING)"] assms(3)
    by (simp add: advance_status_def Let_def)
  ultimately show ?thesis
    using missing_rows_none [OF assms(4)] by (simp add: parsed_db_def)
qed

lemma pending_rows_of:
  "rowcount (\<lambda>t. t_job t = i \<and> t_status t = T_PENDING) (rows_of now jid blocks) =
    (if i = jid then length blocks else 0)"
proof -
  have "filter (\<lambda>t. t_job t = i \<and> t_status t = T_PENDING) (rows_of now jid blocks) =
      (if i = jid then rows_of now jid blocks else [])"
    using rows_of_simps(4) [of _ now jid blocks]
    by (auto simp: filter_id_conv filter_empty_conv)
  then show ?thesis by (simp add: rowcount_def rows_of_simps)
qed

text \<open>The fan-out transaction establishes the counter.\<close>

lemma fan_in_parse:
  assumes "wf_db d" and "fan_in_ok d" and "get_job d jid = Some j"
    and "j_status j \<notin> {PENDING, FAILED} \<Longrightarrow>
      missing_rows d (rows_of (db_now d) jid blocks) = []"
  shows "fan_in_ok (fst (begin_parse
    (d\<lparr>tasks := tasks d @ missing_rows d (rows_of (db_now d) jid blocks)\<rparr>) jid (int (length blocks))))"
    (is "fan_in_ok (fst (begin_parse ?d1 jid ?n))")
proof -
  let ?rows = "missing_rows d (rows_of (db_now d) jid blocks)"
  have jid: "j \<in> set (jobs d)" "j_id j = jid" using row_get_SomeD [OF assms(3)] by auto
  have uniq: "x = j" if "x \<in> set (jobs d)" "j_id x = jid" for x
    using that assms(1,3) row_get_unique [of j_id "jobs d" x] by (simp add: wf_db_def)
  have rows_job: "t_job t = jid" if "t \<in> set ?rows" for t
    using that rows_of_simps(4) [of t "db_now d" jid blocks] by (auto simp: missing_rows_def)
  have other: "pending_tasks ?d1 i = pending_tasks d i" if "i \<noteq> jid" for i
    using rows_job that by (auto simp: pending_tasks_def rowcount_zero_iff)
  show ?thesis
    unfolding fan_in_ok_def
  proof (intro ballI)
    fix x' assume "x' \<in> set (jobs (fst (begin_parse ?d1 jid ?n)))"
    then obtain x where x: "x \<in> set (jobs d)" and x': "x' = (if j_id x = jid \<and> j_status x = PENDING
        then x\<lparr>j_status := PARSING, pending_count := ?n, j_updated_at := db_now d\<rparr> else x)"
      by (auto simp: begin_parse_def Let_def sql_update_def)
    have ok: "(j_status x = PENDING \<longrightarrow> pending_count x = 0 \<and> (\<forall>t \<in> set (tasks d). t_job t \<noteq> j_id x))
      \<and> (j_status x \<notin> {PENDING, FAILED} \<longrightarrow> pending_count x = int (pending_tasks d (j_id x)))"
      using assms(2) x by (auto simp: fan_in_ok_def)
    have same: "pending_tasks (fst (begin_parse ?d1 jid ?n)) i = pending_tasks ?d1 i" for i
      by (simp add: pending_tasks_def)
    show "(j_status x' = PENDING \<longrightarrow> pending_count x' = 0
          \<and> (\<forall>t \<in> set (tasks (fst (begin_parse ?d1 jid ?n))). t_job t \<noteq> j_id x'))
      \<and> (j_status x' \<notin> {PENDING, FAILED} \<longrightarrow>
          pending_count x' = int (pending_tasks (fst (begin_parse ?d1 jid ?n)) (j_id x')))"
    proof (cases "j_id x = jid")
      case False
      with ok x' other rows_job show ?thesis by (auto simp: same)
    next
      case True
      with uniq x have xj: "x = j" by simp
      show ?thesis
      proof (cases "j_status j = PENDING")
        case True
        then have no: "t \<in> set (tasks d) \<Longrightarrow> t_job t \<noteq> jid" for t using ok xj jid by auto
        then have "?rows = rows_of (db_now d) jid blocks" by (rule missing_rows_all)
        then have "pending_tasks ?d1 jid = length blocks"
          using no pending_rows_of [of jid "db_now d" jid blocks]
          by (simp add: pending_tasks_def rowcount_zero_iff)
        with True xj x' jid show ?thesis by (simp add: same)
      next
        case False
        with assms(4) ok xj x' jid show ?thesis
          by (cases "j_status j = FAILED") (simp_all add: same pending_tasks_def)
      qed
    qed
  qed
qed


section \<open>Properties\<close>

text \<open>
  C27. The first delivery of \<open>JobCreated\<close> for a manuscript that parses: the job is \<open>GENERATING\<close> with the
  counter at the number of blocks (capped), there is exactly one pending row per block, with the
  content hash of the block, and exactly one \<open>TtsRequested\<close> per row is published, in order; for a
  manuscript without blocks one \<open>StitchReady\<close> instead. Nothing else changes.
\<close>

theorem parse_fans_out:
  assumes "i_fault i = NoFault" and "task_ids_ok (w_db w)" and "fan_in_ok (w_db w)"
    and "get_job (w_db w) jid = Some j" and "j_status j = PENDING"
    and "get_text (w_minio w) (manuscript_key j) = Inr ms"
    and "\<not> contains POISON_MARKER ms" and "PARSE_FAILURE_RATE (settings ctx) \<le> i_draw i"
    and "blocks = capped (MAX_BLOCKS (settings ctx)) (split_blocks ms)"
    and "wf_broker (w_broker w)" and "bound (w_broker w) (fan_out_key (length blocks))"
  shows "\<exists>b d. run i (handle_parse ctx (JobCreated e jid)) w = (w\<lparr>w_db := d, w_broker := b\<rparr>, Done ())
    \<and> get_job d jid = Some (j\<lparr>j_status := GENERATING, pending_count := int (length blocks),
         j_updated_at := db_now (w_db w)\<rparr>)
    \<and> (\<forall>k. k \<noteq> jid \<longrightarrow> get_job d k = get_job (w_db w) k)
    \<and> tasks d = tasks (w_db w) @ rows_of (db_now (w_db w)) jid blocks
    \<and> pending_tasks d jid = length blocks
    \<and> (\<forall>q. msgs_in b q = msgs_in (w_broker w) q @
        (if q = fan_out_key (length blocks) then fan_out_msgs (i_uuid i) jid (length blocks) else []))"
proof -
  have no: "t_job t \<noteq> jid" if "t \<in> set (tasks (w_db w))" for t
    using that assms(3,5) row_get_SomeD [OF assms(4)] by (auto simp: fan_in_ok_def)
  let ?d = "parsed_db jid blocks (w_db w)"
  have rows: "tasks ?d = tasks (w_db w) @ rows_of (db_now (w_db w)) jid blocks"
    using missing_rows_all [of "w_db w" jid] no by (simp add: parsed_db_tasks)
  have "pending_tasks ?d jid = length blocks"
    using no pending_rows_of [of jid "db_now (w_db w)" jid blocks]
    by (simp add: pending_tasks_def rows rowcount_zero_iff)
  moreover obtain b where "run i (fan_out jid (length blocks)) (w\<lparr>w_db := ?d\<rparr>) = (w\<lparr>w_db := ?d, w_broker := b\<rparr>, Done ())"
    "\<forall>q. msgs_in b q = msgs_in (w_broker w) q @
        (if q = fan_out_key (length blocks) then fan_out_msgs (i_uuid i) jid (length blocks) else [])"
    using run_fan_out [of i "w\<lparr>w_db := ?d\<rparr>" "length blocks" jid] assms(1,10,11) by auto
  ultimately show ?thesis
    using run_handle_parse [OF assms(1,2,4,6,7,8), of e] assms(4,5,9) rows
    by (intro exI [of _ b] exI [of _ ?d]) (simp add: parsed_db_job option.map_ident)
qed

lemma example_pending_ids: "task_ids_ok example_pending"
  by (simp add: task_ids_ok_def example_pending_def)

lemma example_capped:
  "capped (MAX_BLOCKS (settings example_context)) (split_blocks [97, 10, 10, 98]) = [[97], [98]]"
  by (simp add: example_blocks capped_def example_context_def default_settings_def)

lemma example_rate: "PARSE_FAILURE_RATE (settings example_context) \<le> i_draw calm"
  by (simp add: example_context_def default_settings_def)

theorem parse_fans_out_witness:
  "\<exists>b d. run calm (handle_parse example_context (JobCreated ''e'' ''j'')) (example_world\<lparr>w_db := example_pending\<rparr>) =
      (example_world\<lparr>w_db := d, w_broker := b\<rparr>, Done ())
    \<and> pending_tasks d ''j'' = 2 \<and> length (msgs_in b Q_TTS) = 2 \<and> msgs_in b Q_STITCH = []"
proof -
  obtain j where j: "get_job example_pending ''j'' = Some j" "j_status j = PENDING" "manuscript_key j = ''raw/j.txt''"
    using example_pending_ok(3) by blast
  let ?w = "example_world\<lparr>w_db := example_pending\<rparr>"
  have "get_text (w_minio ?w) (manuscript_key j) = Inr [97, 10, 10, 98]" by (simp add: j example_minio_ok)
  from parse_fans_out [of calm ?w "''j''" j _ example_context "[[97], [98]]" "''e''", OF _ _ _ _ j(2) this
      example_not_poison example_rate] j(1) example_pending_ids example_pending_ok(1) example_capped ready_broker_ok
  obtain b d where "run calm (handle_parse example_context (JobCreated ''e'' ''j'')) ?w =
      (example_world\<lparr>w_db := d, w_broker := b\<rparr>, Done ())" "pending_tasks d ''j'' = 2"
    "\<forall>q. msgs_in b q = (if q = Q_TTS then fan_out_msgs (i_uuid calm) ''j'' 2 else [])"
    by (auto simp: fan_out_key_def numeral_2_eq_2)
  then show ?thesis by (intro exI [of _ b] exI [of _ d]) (simp add: fan_out_msgs_def)
qed

text \<open>
  A redelivery of \<open>JobCreated\<close> after the rows were written changes nothing in the database,
  neither a row nor the counter, and publishes all events again: the fan-out survives a crash
  between the commit and the publishes.
\<close>

theorem parse_redelivery:
  assumes "i_fault i = NoFault" and "wf_db (w_db w)" and "task_ids_ok (w_db w)"
    and "get_job (w_db w) jid = Some j" and "j_status j \<notin> {PENDING, PARSING}"
    and "get_text (w_minio w) (manuscript_key j) = Inr ms"
    and "\<not> contains POISON_MARKER ms" and "PARSE_FAILURE_RATE (settings ctx) \<le> i_draw i"
    and "blocks = capped (MAX_BLOCKS (settings ctx)) (split_blocks ms)"
    and "\<forall>k < length blocks. \<exists>t \<in> set (tasks (w_db w)). t_job t = jid \<and> block_index t = k"
    and "wf_broker (w_broker w)" and "bound (w_broker w) (fan_out_key (length blocks))"
  shows "\<exists>b. run i (handle_parse ctx (JobCreated e jid)) w = (w\<lparr>w_broker := b\<rparr>, Done ())
    \<and> (\<forall>q. msgs_in b q = msgs_in (w_broker w) q @
        (if q = fan_out_key (length blocks) then fan_out_msgs (i_uuid i) jid (length blocks) else []))"
proof -
  have "parsed_db jid blocks (w_db w) = w_db w"
    using assms(10) by (intro parsed_db_same [OF assms(2,4,5)]) auto
  then have "run i (handle_parse ctx (JobCreated e jid)) w = run i (fan_out jid (length blocks)) w"
    using run_handle_parse [OF assms(1,3,4,6,7,8), of e] assms(9) by simp
  with run_fan_out [OF assms(1,11,12), of jid] show ?thesis by auto
qed

lemma example_task_ids: "task_ids_ok example_db"
  by (simp add: task_ids_ok_def example_db_def example_task_def task_id_of_def)
     (simp add: nat_str.simps digit_char_def char_of_def bit_0 bit_Suc)

theorem parse_redelivery_witness:
  "\<exists>b. run calm (handle_parse example_context (JobCreated ''e'' ''j'')) example_world =
      (example_world\<lparr>w_broker := b\<rparr>, Done ()) \<and> length (msgs_in b Q_TTS) = 2"
proof -
  obtain j where j: "get_job example_db ''j'' = Some j" "j_status j = GENERATING" "manuscript_key j = ''raw/j.txt''"
    using example_db_job by blast
  have "get_text (w_minio example_world) (manuscript_key j) = Inr [97, 10, 10, 98]" by (simp add: j example_minio_ok)
  moreover have "\<forall>k < length [[97 :: nat], [98]]. \<exists>t \<in> set (tasks (w_db example_world)). t_job t = ''j'' \<and> block_index t = k"
    by (simp add: example_db_def example_task_def less_Suc_eq numeral_2_eq_2)
  ultimately show ?thesis
    using parse_redelivery [of calm example_world "''j''" j "[97, 10, 10, 98]" example_context "[[97], [98]]" "''e''"]
      j example_db_ok(1) example_task_ids example_not_poison example_rate example_capped ready_broker_ok
    by (auto simp: fan_out_key_def fan_out_msgs_def)
qed

end
