(* ===== verification/Tts_Handler.thy ===== *)
theory Tts_Handler
  imports Parse_Handler
begin

text \<open>
  \<open>worker/handlers/tts.py\<close>: one block. The text is found again through the task row and the
  manuscript; the content cache is asked before a slot is taken; the winner of the in-flight lock
  synthesises and fills the cache, the others wait for it; then the barrier is decremented, and
  whoever brings it to zero (or finds it at zero on a redelivery) emits \<open>StitchReady\<close>.
\<close>

definition load_task :: "string \<Rightarrow> string \<Rightarrow> db \<Rightarrow> (nat \<times> string) res" where
  "load_task jid tid d =
    (case get_task d tid of
       None \<Rightarrow> Inl RuntimeError
     | Some task \<Rightarrow>
         (case get_job d jid of
            None \<Rightarrow> Inl RuntimeError
          | Some job \<Rightarrow> Inr (block_index task, manuscript_key job)))"

definition load_block_text :: "WorkerContext \<Rightarrow> string \<Rightarrow> string \<Rightarrow> pystr action" where
  "load_block_text ctx jid tid =
    pbind (read_db (load_task jid tid)) (\<lambda>(index, key).
    pbind (minio_get (\<lambda>s. get_text s key)) (\<lambda>manuscript.
    let blocks = split_blocks manuscript in
    if length blocks \<le> index then Raise RuntimeError else Ret (blocks ! index)))"

definition audio_key_of :: "string \<Rightarrow> string" where
  "audio_key_of h = ''tts/'' @ h @ ''.wav''"

definition generate :: "string \<Rightarrow> pystr \<Rightarrow> unit action" where
  "generate key block =
    pbind pskip (\<lambda>_.
    pbind (plift (tts_fake_audio block)) (\<lambda>audio.
    minio_put (\<lambda>s. put_bytes s key audio ''audio/wav'')))"

definition synthesize :: "WorkerContext \<Rightarrow> string \<Rightarrow> string \<Rightarrow> pystr \<Rightarrow> string \<Rightarrow> string action" where
  "synthesize ctx h key block owner =
    pbind (redis_cmd (acquire_inflight (cache ctx) h owner)) (\<lambda>won.
      if won then
        pbind (pfinally
            (pbind (slot ctx owner (generate key block)) (\<lambda>_.
              redis_cmd (\<lambda>r. (cache_set (cache ctx) h key r, ()))))
            (redis_cmd (\<lambda>r. (release_inflight (cache ctx) h r, ()))))
          (\<lambda>_. Ret key)
      else
        pbind (wait_for_cache ctx h WAIT_ATTEMPTS) (\<lambda>waited.
          case waited of None \<Rightarrow> Raise TransientError | Some k \<Rightarrow> Ret k))"

definition emit_stitch :: "string \<Rightarrow> unit action" where
  "emit_stitch jid = publish_event (\<lambda>u. StitchReady u jid) Q_STITCH"

text \<open>What follows the decrement: emit at zero, and on a duplicate emit again if the barrier is at zero.\<close>

definition after_decrement :: "string \<Rightarrow> int option \<Rightarrow> unit action" where
  "after_decrement jid remaining =
    (if remaining = Some 0 then emit_stitch jid
     else if remaining = None then
       pbind (read_db (\<lambda>d. Inr (get_job d jid))) (\<lambda>job.
         case job of
           Some j \<Rightarrow> if pending_count j = 0 then emit_stitch jid else Ret ()
         | None \<Rightarrow> Ret ())
     else Ret ())"

definition handle_tts :: "WorkerContext \<Rightarrow> event \<Rightarrow> unit action" where
  "handle_tts ctx event =
    (let jid = job_id event; tid = task_id event in
     pbind (load_block_text ctx jid tid) (\<lambda>block.
     pbind (plift (content_hash block)) (\<lambda>h.
     pbind (do_cache_get ctx h) (\<lambda>cached.
     pbind (case cached of Some k \<Rightarrow> Ret k | None \<Rightarrow> synthesize ctx h (audio_key_of h) block tid) (\<lambda>key.
     pbind (transaction (\<lambda>d. complete_task_and_decrement d jid tid key)) (\<lambda>remaining.
     after_decrement jid remaining))))))"

definition make_tts_handler :: "WorkerContext \<Rightarrow> handler" where
  "make_tts_handler ctx = ack_last ctx Q_TTS (\<lambda>m.
    pbind (ask i_uuid) (\<lambda>u.
    pbind (plift (validate_TtsRequested u (m_body m))) (handle_tts ctx)))"

section \<open>A slot around a piece of work\<close>

definition demoted :: "WorkerContext \<Rightarrow> string \<Rightarrow> heartbeat list \<Rightarrow> heartbeat list" where
  "demoted ctx token hs =
    map (\<lambda>h. if hb_worker h = worker_id ctx \<and> hb_token h = token then h\<lparr>hb_current := False\<rparr> else h) hs"

lemma demoted_current: "h \<in> set (demoted ctx token hs) \<Longrightarrow> \<not> current_heartbeat ctx token h"
  by (induction hs) (auto simp: demoted_def current_heartbeat_def split: if_splits)

definition popped :: "WorkerContext \<Rightarrow> redis \<Rightarrow> redis" where
  "popped ctx r = r\<lparr>r_list := (r_list r)(slots_key (semaphore ctx) := tl (r_list r (slots_key (semaphore ctx))))\<rparr>"

lemma run_sem_acquire:
  assumes "i_fault i = NoFault" and "r_list (w_redis w) (slots_key (semaphore ctx)) = token # rest"
  shows "run i (sem_acquire ctx owner) w =
    (w\<lparr>w_redis := acquire_lease (semaphore ctx) token owner (popped ctx (w_redis w)),
       w_heartbeats := demoted ctx token (w_heartbeats w) @
         [\<lparr>hb_worker = worker_id ctx, hb_token = token, hb_owner = owner, hb_current = True, hb_failed = False\<rparr>]\<rparr>,
     Done token)"
  using assms by (simp add: sem_acquire_def run_simps acquire_pop_def redis_lpop_def start_heartbeat_def
      demoted_def popped_def)

lemma run_sem_release:
  assumes "i_fault i = NoFault"
    and "\<not> (\<exists>h \<in> set (w_heartbeats w). current_heartbeat ctx token h \<and> hb_failed h)"
  shows "run i (sem_release ctx token) w =
    (w\<lparr>w_heartbeats := filter (\<lambda>h. \<not> current_heartbeat ctx token h) (w_heartbeats w),
       w_redis := release_push (semaphore ctx) token (release_delete (semaphore ctx) token (w_redis w))\<rparr>, Done ())"
  using assms by (auto simp: sem_release_def run_simps)

text \<open>The whole slot around a run of the work that leaves the heartbeats alone.\<close>

lemma run_slot:
  assumes "i_fault i = NoFault" and "r_list (w_redis w) (slots_key (semaphore ctx)) = token # rest"
    and "\<And>v. w_minio v = w_minio w \<Longrightarrow> run i work v = (v\<lparr>w_minio := s'\<rparr>, Done a)"
  shows "run i (slot ctx owner work) w =
    (w\<lparr>w_redis := release_push (semaphore ctx) token (release_delete (semaphore ctx) token
         (acquire_lease (semaphore ctx) token owner (popped ctx (w_redis w)))),
       w_minio := s',
       w_heartbeats := demoted ctx token (w_heartbeats w)\<rparr>, Done a)"
proof -
  let ?h = "\<lparr>hb_worker = worker_id ctx, hb_token = token, hb_owner = owner, hb_current = True, hb_failed = False\<rparr>"
  have keep: "filter (\<lambda>h. \<not> current_heartbeat ctx token h) (demoted ctx token (w_heartbeats w)) =
      demoted ctx token (w_heartbeats w)"
    using demoted_current by (auto simp: filter_id_conv)
  have new: "current_heartbeat ctx token ?h" by (simp add: current_heartbeat_def)
  have none: "\<not> (\<exists>h \<in> set (demoted ctx token (w_heartbeats w) @ [?h]). current_heartbeat ctx token h \<and> hb_failed h)"
    using demoted_current by fastforce
  show ?thesis
    using assms none new keep
    by (simp add: slot_def run_pbind run_pfinally run_sem_acquire run_sem_release)
qed

section \<open>The redis state after a synthesis\<close>

definition synthesized :: "WorkerContext \<Rightarrow> string \<Rightarrow> string \<Rightarrow> string \<Rightarrow> string \<Rightarrow> redis \<Rightarrow> redis" where
  "synthesized ctx h key owner token r =
    release_inflight (cache ctx) h (cache_set (cache ctx) h key
      (release_push (semaphore ctx) token (release_delete (semaphore ctx) token
        (acquire_lease (semaphore ctx) token owner
          (popped ctx (fst (acquire_inflight (cache ctx) h owner r)))))))"

text \<open>The keys of the adapter's own families.\<close>

definition plain_keys :: "WorkerContext \<Rightarrow> bool" where
  "plain_keys ctx \<longleftrightarrow> slots_key (semaphore ctx) = SLOTS_KEY \<and> 0 < cache_ttl (cache ctx) \<and> 0 < inflight_ttl (cache ctx)"

lemma popped_get [simp]: "redis_get (popped ctx r) k = redis_get r k"
  by (simp add: popped_def redis_get_def split: option.split)

lemma redis_get_set_nx_other: "k' \<noteq> k \<Longrightarrow> redis_get (fst (redis_set_nx r k v ex)) k' = redis_get r k'"
  by (simp add: redis_set_nx_def redis_get_put)

lemmas redis_op_defs =
  release_inflight_def cache_set_def release_push_def release_delete_def acquire_lease_def
  acquire_inflight_def cache_get_def

lemma synthesized_cache:
  assumes "plain_keys ctx"
  shows "cache_get c h' (synthesized ctx h key owner token r) =
    (if h' = h then Some key else cache_get c h' r)"
  using assms key_families(1,2,4) [symmetric]
  by (auto simp: synthesized_def redis_op_defs plain_keys_def redis_get_put redis_get_set_nx_other)

lemma synthesized_inflight:
  assumes "plain_keys ctx" and "redis_get r (inflight_key h') = None"
  shows "redis_get (synthesized ctx h key owner token r) (inflight_key h') = None"
  using assms key_families(1,2,4) [symmetric]
  by (auto simp: synthesized_def redis_op_defs plain_keys_def redis_get_put redis_get_set_nx_other)

lemma synthesized_pool:
  assumes "plain_keys ctx" and "r_list r SLOTS_KEY = token # rest"
  shows "r_list (synthesized ctx h key owner token r) SLOTS_KEY = rest @ [token]"
  using assms key_families(7-9) [symmetric]
  by (simp add: synthesized_def redis_op_defs plain_keys_def popped_def)

section \<open>Synthesis\<close>

definition stored :: "string \<Rightarrow> bytes \<Rightarrow> minio \<Rightarrow> minio" where
  "stored key data s = s\<lparr>objects := AList.update key (data, ''audio/wav'') (objects s)\<rparr>"

definition audio_of :: "string \<Rightarrow> bytes" where
  "audio_of h = ascii (''FAKE_AUDIO:'' @ h)"

lemma run_generate:
  assumes "i_fault i = NoFault" and "content_hash block = Inr h" and "BUCKET \<in> set (buckets (w_minio v))"
  shows "run i (generate key block) v = (v\<lparr>w_minio := stored key (audio_of h) (w_minio v)\<rparr>, Done ())"
  using assms by (simp add: generate_def run_simps tts_fake_audio_def put_bytes_def stored_def audio_of_def)

lemma run_synthesize:
  assumes "i_fault i = NoFault" and "plain_keys ctx" and "content_hash block = Inr h"
    and "redis_get (w_redis w) (inflight_key h) = None"
    and "r_list (w_redis w) SLOTS_KEY = token # rest" and "BUCKET \<in> set (buckets (w_minio w))"
  shows "run i (synthesize ctx h key block owner) w =
    (w\<lparr>w_redis := synthesized ctx h key owner token (w_redis w),
       w_minio := stored key (audio_of h) (w_minio w),
       w_heartbeats := demoted ctx token (w_heartbeats w)\<rparr>, Done key)"
proof -
  let ?w = "w\<lparr>w_redis := fst (acquire_inflight (cache ctx) h owner (w_redis w))\<rparr>"
  have won: "snd (acquire_inflight (cache ctx) h owner (w_redis w))"
    using assms(4) by (simp add: acquire_inflight_def redis_set_nx_def)
  have pool: "r_list (w_redis ?w) (slots_key (semaphore ctx)) = token # rest"
    using assms(2,5) by (simp add: plain_keys_def acquire_inflight_def)
  have work: "run i (generate key block) v = (v\<lparr>w_minio := stored key (audio_of h) (w_minio w)\<rparr>, Done ())"
    if "w_minio v = w_minio ?w" for v
    using that run_generate [OF assms(1,3), of v key] assms(6) by simp
  from run_slot [OF assms(1) pool work, of owner] show ?thesis
    using assms(1) won by (simp add: synthesize_def run_simps synthesized_def)
qed

section \<open>The handler\<close>

lemma run_load_block:
  assumes "i_fault i = NoFault" and "get_task (w_db w) tid = Some t" and "get_job (w_db w) jid = Some j"
    and "get_text (w_minio w) (manuscript_key j) = Inr ms" and "block_index t < length (split_blocks ms)"
  shows "run i (load_block_text ctx jid tid) w = (w, Done (split_blocks ms ! block_index t))"
  using assms by (simp add: load_block_text_def run_simps load_task_def Let_def)

text \<open>The part of the handler up to the key of the audio, on a hit and on a miss.\<close>

lemma run_handle_tts_hit:
  assumes "i_fault i = NoFault" and "run i (load_block_text ctx jid tid) w = (w, Done block)"
    and "content_hash block = Inr h" and "cache_get (cache ctx) h (w_redis w) = Some key"
  shows "run i (handle_tts ctx (TtsRequested e jid tid)) w =
    (case complete_task_and_decrement (w_db w) jid tid key of
       (d, Inl exc) \<Rightarrow> (w\<lparr>w_db := d\<rparr>, Exn exc)
     | (d, Inr remaining) \<Rightarrow> run i (after_decrement jid remaining) (w\<lparr>w_db := d\<rparr>))"
  using assms by (simp add: handle_tts_def run_simps do_cache_get_def Let_def split: prod.split sum.split)

lemma run_handle_tts_miss:
  assumes "i_fault i = NoFault" and "run i (load_block_text ctx jid tid) w = (w, Done block)"
    and "content_hash block = Inr h" and "cache_get (cache ctx) h (w_redis w) = None"
    and "plain_keys ctx" and "redis_get (w_redis w) (inflight_key h) = None"
    and "r_list (w_redis w) SLOTS_KEY = token # rest" and "BUCKET \<in> set (buckets (w_minio w))"
  defines "v \<equiv> w\<lparr>w_redis := synthesized ctx h (audio_key_of h) tid token (w_redis w),
       w_minio := stored (audio_key_of h) (audio_of h) (w_minio w),
       w_heartbeats := demoted ctx token (w_heartbeats w)\<rparr>"
  shows "run i (handle_tts ctx (TtsRequested e jid tid)) w =
    (case complete_task_and_decrement (w_db w) jid tid (audio_key_of h) of
       (d, Inl exc) \<Rightarrow> (v\<lparr>w_db := d\<rparr>, Exn exc)
     | (d, Inr remaining) \<Rightarrow> run i (after_decrement jid remaining) (v\<lparr>w_db := d\<rparr>))"
  using assms(1-4) run_synthesize [OF assms(1,5,3,6,7,8), of "audio_key_of h" tid]
  by (simp add: handle_tts_def run_simps do_cache_get_def Let_def v_def split: prod.split sum.split)

text \<open>When the barrier event is emitted.\<close>

definition emits :: "db \<Rightarrow> string \<Rightarrow> int option \<Rightarrow> bool" where
  "emits d jid remaining \<longleftrightarrow>
    remaining = Some 0 \<or> (remaining = None \<and> (\<exists>j. get_job d jid = Some j \<and> pending_count j = 0))"

lemma run_after_decrement:
  assumes "i_fault i = NoFault"
  shows "run i (after_decrement jid remaining) w =
    (if emits (w_db w) jid remaining
     then w\<lparr>w_broker := exchange_publish (w_broker w) (event_msg (StitchReady (i_uuid i) jid)) Q_STITCH\<rparr> else w,
     Done ())"
  using assms
  by (auto simp: after_decrement_def emits_def emit_stitch_def run_simps publish_eq split: option.split)

section \<open>Properties\<close>

text \<open>
  C28. A block whose audio is cached takes no slot and calls no vendor: the Redis state, the object
  store and the heartbeats are as before, the task is completed with the cached key, and
  \<open>StitchReady\<close> is published exactly when the barrier is at zero, also on a redelivery.
\<close>

theorem tts_cache_hit:
  assumes "i_fault i = NoFault" and "get_task (w_db w) tid = Some t" and "get_job (w_db w) jid = Some j"
    and "get_text (w_minio w) (manuscript_key j) = Inr ms" and "block_index t < length (split_blocks ms)"
    and "content_hash (split_blocks ms ! block_index t) = Inr h"
    and "cache_get (cache ctx) h (w_redis w) = Some key"
    and "wf_db (w_db w)" and "wf_broker (w_broker w)" and "bound (w_broker w) Q_STITCH"
  shows "\<exists>d remaining b. complete_task_and_decrement (w_db w) jid tid key = (d, Inr remaining)
    \<and> run i (handle_tts ctx (TtsRequested e jid tid)) w = (w\<lparr>w_db := d, w_broker := b\<rparr>, Done ())
    \<and> (\<forall>q. msgs_in b q = msgs_in (w_broker w) q @
        (if q = Q_STITCH \<and> emits d jid remaining then [event_msg (StitchReady (i_uuid i) jid)] else []))"
proof -
  obtain d remaining where c: "complete_task_and_decrement (w_db w) jid tid key = (d, Inr remaining)"
    using complete_total [OF assms(8,2,3)] by blast
  note hit = run_handle_tts_hit [OF assms(1) run_load_block [OF assms(1-5)] assms(6,7), of e]
  let ?b = "if emits d jid remaining
    then exchange_publish (w_broker w) (event_msg (StitchReady (i_uuid i) jid)) Q_STITCH else w_broker w"
  have "run i (handle_tts ctx (TtsRequested e jid tid)) w = (w\<lparr>w_db := d, w_broker := ?b\<rparr>, Done ())"
    using hit c assms(1) by (simp add: run_after_decrement)
  moreover have "\<forall>q. msgs_in ?b q = msgs_in (w_broker w) q @
        (if q = Q_STITCH \<and> emits d jid remaining then [event_msg (StitchReady (i_uuid i) jid)] else [])"
    using publish_stitch_msgs [OF assms(9,10)] by simp
  ultimately show ?thesis using c by blast
qed

theorem tts_cache_hit_witness:
  "\<exists>h w d b. content_hash [97] = Inr h \<and> redis_get (w_redis w) (cache_key h) = Some (audio_key_of h)
    \<and> run calm (handle_tts example_context (TtsRequested ''e'' ''j'' ''j-0'')) w = (w\<lparr>w_db := d, w_broker := b\<rparr>, Done ())"
proof -
  obtain j where j: "get_job example_db ''j'' = Some j" "manuscript_key j = ''raw/j.txt''"
    using example_db_job by blast
  obtain t where t: "get_task example_db ''j-0'' = Some t" "block_index t = 0" using example_db_task by blast
  obtain h where h: "content_hash [97] = Inr h" using content_hash_scalar [of "[97]"] by (auto simp: scalar_def)
  let ?w = "example_world\<lparr>w_redis := redis_put empty_redis (cache_key h) (audio_key_of h) None\<rparr>"
  have hit: "redis_get (w_redis ?w) (cache_key h) = Some (audio_key_of h)" by (simp add: redis_get_put)
  then obtain d b where "run calm (handle_tts example_context (TtsRequested ''e'' ''j'' ''j-0'')) ?w =
      (?w\<lparr>w_db := d, w_broker := b\<rparr>, Done ())"
    using tts_cache_hit [where i = calm and w = ?w and tid = "''j-0''" and jid = "''j''" and t = t and j = j
      and ms = "[97, 10, 10, 98]" and h = h and ctx = example_context and key = "audio_key_of h" and e = "''e''"]
      j t h example_db_ok(1) example_minio_ok ready_broker_ok example_blocks
    by (auto simp: cache_get_def)
  with h hit show ?thesis by blast
qed

text \<open>
  C29. A block that is not cached is synthesised under one slot: afterwards the audio is stored under
  the key of its content hash, the cache answers with that key (so an identical block is a hit from
  now on), the in-flight lock is free, the token is back at the end of the pool and its lease is
  gone, and the task is completed with \<open>StitchReady\<close> published exactly when the barrier is at zero.
\<close>

theorem tts_cache_miss:
  assumes "i_fault i = NoFault" and "get_task (w_db w) tid = Some t" and "get_job (w_db w) jid = Some j"
    and "get_text (w_minio w) (manuscript_key j) = Inr ms" and "block_index t < length (split_blocks ms)"
    and "content_hash (split_blocks ms ! block_index t) = Inr h"
    and "cache_get (cache ctx) h (w_redis w) = None"
    and "wf_db (w_db w)" and "wf_broker (w_broker w)" and "bound (w_broker w) Q_STITCH"
    and "plain_keys ctx" and "redis_get (w_redis w) (inflight_key h) = None"
    and "r_list (w_redis w) SLOTS_KEY = token # rest" and "BUCKET \<in> set (buckets (w_minio w))"
  shows "\<exists>d remaining w'. complete_task_and_decrement (w_db w) jid tid (audio_key_of h) = (d, Inr remaining)
    \<and> run i (handle_tts ctx (TtsRequested e jid tid)) w = (w', Done ()) \<and> w_db w' = d
    \<and> get_bytes (w_minio w') (audio_key_of h) = Inr (audio_of h)
    \<and> (\<forall>k. k \<noteq> audio_key_of h \<longrightarrow> get_bytes (w_minio w') k = get_bytes (w_minio w) k)
    \<and> cache_get (cache ctx) h (w_redis w') = Some (audio_key_of h)
    \<and> redis_get (w_redis w') (inflight_key h) = None
    \<and> redis_get (w_redis w') (lease_key token) = None
    \<and> r_list (w_redis w') SLOTS_KEY = rest @ [token]
    \<and> (\<forall>q. msgs_in (w_broker w') q = msgs_in (w_broker w) q @
        (if q = Q_STITCH \<and> emits d jid remaining then [event_msg (StitchReady (i_uuid i) jid)] else []))"
proof -
  obtain d remaining where c: "complete_task_and_decrement (w_db w) jid tid (audio_key_of h) = (d, Inr remaining)"
    using complete_total [OF assms(8,2,3)] by blast
  note miss = run_handle_tts_miss [OF assms(1) run_load_block [OF assms(1-5)] assms(6,7,11-14), of e]
  let ?b = "if emits d jid remaining
    then exchange_publish (w_broker w) (event_msg (StitchReady (i_uuid i) jid)) Q_STITCH else w_broker w"
  let ?w = "w\<lparr>w_redis := synthesized ctx h (audio_key_of h) tid token (w_redis w),
       w_minio := stored (audio_key_of h) (audio_of h) (w_minio w),
       w_heartbeats := demoted ctx token (w_heartbeats w), w_db := d, w_broker := ?b\<rparr>"
  have "run i (handle_tts ctx (TtsRequested e jid tid)) w = (?w, Done ())"
    using miss c assms(1) by (simp add: run_after_decrement)
  moreover have "get_bytes (stored (audio_key_of h) (audio_of h) (w_minio w)) k =
      (if k = audio_key_of h then Inr (audio_of h) else get_bytes (w_minio w) k)" for k
    using assms(14) by (simp add: stored_def get_bytes_def update_conv)
  moreover have "redis_get (synthesized ctx h (audio_key_of h) tid token (w_redis w)) (lease_key token) = None"
    using assms(11) by (simp add: synthesized_def redis_op_defs redis_get_put)
  ultimately show ?thesis
    using c synthesized_cache [OF assms(11)] synthesized_inflight [OF assms(11,12)]
      synthesized_pool [OF assms(11,13)] publish_stitch_msgs [OF assms(9,10)]
    by (intro exI [of _ d] exI [of _ remaining] exI [of _ ?w]) simp
qed

lemma example_plain: "plain_keys example_context"
  by (simp add: plain_keys_def example_context_def)

theorem tts_cache_miss_witness:
  "\<exists>h w'. content_hash [97] = Inr h
    \<and> run calm (handle_tts example_context (TtsRequested ''e'' ''j'' ''j-0'')) example_world = (w', Done ())
    \<and> get_bytes (w_minio w') (audio_key_of h) = Inr (audio_of h) \<and> r_list (w_redis w') SLOTS_KEY = [''0'']"
proof -
  obtain j where j: "get_job example_db ''j'' = Some j" "manuscript_key j = ''raw/j.txt''"
    using example_db_job by blast
  obtain t where t: "get_task example_db ''j-0'' = Some t" "block_index t = 0" using example_db_task by blast
  obtain h where h: "content_hash [97] = Inr h" using content_hash_scalar [of "[97]"] by (auto simp: scalar_def)
  from tts_cache_miss [where i = calm and w = example_world and tid = "''j-0''" and jid = "''j''" and t = t and j = j
      and ms = "[97, 10, 10, 98]" and h = h and ctx = example_context and token = "''0''" and rest = "[]" and e = "''e''"]
  show ?thesis
    using j t h example_db_ok(1) example_plain example_minio_ok ready_broker_ok example_blocks
    by (auto simp: cache_get_def)
qed

end
