(* ===== verification/Stitch_Handler.thy ===== *)
theory Stitch_Handler
  imports Tts_Handler
begin

text \<open>
  \<open>worker/handlers/stitch.py\<close>: the chunks of a job, in the order of their blocks, are joined into the
  final object and the job is completed; the winner of the last compare-and-set notifies the
  client's callback, guarded by \<open>worker/ssrf.py\<close>.
\<close>

definition final_key_of :: "string \<Rightarrow> string" where
  "final_key_of jid = ''out/'' @ jid @ ''.mp3''"

text \<open>The request: delivered or not, its failure is swallowed.\<close>

definition post_webhook :: "pystr \<Rightarrow> string \<Rightarrow> string option \<Rightarrow> unit action" where
  "post_webhook url jid key = Step (\<lambda>i w.
    Some (if i_post_ok i then w\<lparr>w_webhooks := w_webhooks w @ [(url, jid, key)]\<rparr> else w, Ret ()))"

definition notify :: "WorkerContext \<Rightarrow> string \<Rightarrow> unit action" where
  "notify ctx jid =
    pbind (read_db (\<lambda>d. Inr (get_job d jid))) (\<lambda>job.
      case job of
        None \<Rightarrow> Ret ()
      | Some j \<Rightarrow>
          (case callback_url j of
             None \<Rightarrow> Ret ()
           | Some callback \<Rightarrow>
               let allowlist = webhook_allowlist (settings ctx) in
               if callback = [] \<or> allowlist = [] then Ret ()
               else
                 pbind (ask (\<lambda>i. is_allowed (i_unidata i) (i_resolve i) callback allowlist)) (\<lambda>answer.
                 pbind (plift answer) (\<lambda>allowed.
                 if allowed then post_webhook callback jid (final_key j) else Ret ()))))"

definition handle_stitch :: "WorkerContext \<Rightarrow> event \<Rightarrow> unit action" where
  "handle_stitch ctx event =
    (let jid = job_id event in
     pbind (read_db (\<lambda>d. case get_job d jid of None \<Rightarrow> Inl RuntimeError | Some j \<Rightarrow> Inr (j_status j))) (\<lambda>status.
     if status = COMPLETED then Ret ()
     else
       pbind (read_db (\<lambda>d. Inr (chunk_keys d jid))) (\<lambda>keys.
       pbind (transaction (\<lambda>d. case advance_status d jid STITCHING of (d', won) \<Rightarrow> (d', Inr won))) (\<lambda>_.
       pbind (pmap keys (\<lambda>key. minio_get (\<lambda>s. get_bytes s key))) (\<lambda>parts.
       pbind (minio_put (\<lambda>s. put_bytes s (final_key_of jid) (concat parts) ''audio/mpeg'')) (\<lambda>_.
       pbind (transaction (\<lambda>d. case finalize_job d jid (final_key_of jid) of (d', won) \<Rightarrow> (d', Inr won))) (\<lambda>finalized.
       if finalized then notify ctx jid else Ret ())))))))"

definition make_stitch_handler :: "WorkerContext \<Rightarrow> handler" where
  "make_stitch_handler ctx = ack_last ctx Q_STITCH (\<lambda>m.
    pbind (ask i_uuid) (\<lambda>u.
    pbind (plift (validate_StitchReady u (m_body m))) (handle_stitch ctx)))"

section \<open>Stitching\<close>

lemma run_pmap_get:
  "i_fault i = NoFault \<Longrightarrow> (\<And>k. k \<in> set ks \<Longrightarrow> get_bytes (w_minio w) k = Inr (f k)) \<Longrightarrow>
    run i (pmap ks (\<lambda>key. minio_get (\<lambda>s. get_bytes s key))) w = (w, Done (map f ks))"
  by (induction ks) (simp_all add: run_simps)

text \<open>The client is told nothing when there is no callback or no allowlist.\<close>

lemma run_notify_silent:
  assumes "i_fault i = NoFault" and "get_job (w_db w) jid = Some j"
    and "callback_url j = None \<or> webhook_allowlist (settings ctx) = []"
  shows "run i (notify ctx jid) w = (w, Done ())"
  using assms by (auto simp: notify_def run_simps Let_def split: option.split)


lemma run_notify_keeps:
  assumes "i_fault i = NoFault"
  shows "\<exists>hooks r. run i (notify ctx jid) w = (w\<lparr>w_webhooks := hooks\<rparr>, r) \<and> r \<noteq> Blocked"
proof -
  have same: "w = w\<lparr>w_webhooks := w_webhooks w\<rparr>" by simp
  show ?thesis
  proof (cases "\<exists>j cb. get_job (w_db w) jid = Some j \<and> callback_url j = Some cb \<and> cb \<noteq> []
      \<and> webhook_allowlist (settings ctx) \<noteq> []")
    case True
    then obtain j cb where j: "get_job (w_db w) jid = Some j" "callback_url j = Some cb" "cb \<noteq> []"
      "webhook_allowlist (settings ctx) \<noteq> []" by blast
    consider e where "is_allowed (i_unidata i) (i_resolve i) cb (webhook_allowlist (settings ctx)) = Inl e"
      | ok where "is_allowed (i_unidata i) (i_resolve i) cb (webhook_allowlist (settings ctx)) = Inr ok"
      by (cases "is_allowed (i_unidata i) (i_resolve i) cb (webhook_allowlist (settings ctx))") auto
    then show ?thesis
    proof cases
      case 1
      with j assms show ?thesis
        by (intro exI [of _ "w_webhooks w"]) (simp add: notify_def run_simps Let_def)
    next
      case 2
      with j assms show ?thesis
        by (intro exI [of _ "if ok \<and> i_post_ok i then w_webhooks w @ [(cb, jid, final_key j)] else w_webhooks w"])
           (simp add: notify_def run_simps Let_def post_webhook_def)
    qed
  next
    case False
    have "run i (notify ctx jid) w = (w, Done ())"
      using False assms by (auto simp: notify_def run_simps Let_def split: option.split)
    then show ?thesis using same by (metis outcome.distinct(3))
  qed
qed

definition stitched_db :: "string \<Rightarrow> db \<Rightarrow> db" where
  "stitched_db jid d = fst (finalize_job (fst (advance_status d jid STITCHING)) jid (final_key_of jid))"

definition assembled :: "string \<Rightarrow> bytes \<Rightarrow> minio \<Rightarrow> minio" where
  "assembled jid data s = s\<lparr>objects := AList.update (final_key_of jid) (data, ''audio/mpeg'') (objects s)\<rparr>"

lemma run_handle_stitch:
  assumes "i_fault i = NoFault" and "wf_db (w_db w)" and "get_job (w_db w) jid = Some j"
    and "j_status j \<in> {GENERATING, STITCHING}" and "BUCKET \<in> set (buckets (w_minio w))"
    and "\<And>k. k \<in> set (chunk_keys (w_db w) jid) \<Longrightarrow> get_bytes (w_minio w) k = Inr (f k)"
  shows "run i (handle_stitch ctx (StitchReady e jid)) w =
    run i (notify ctx jid) (w\<lparr>
      w_minio := assembled jid (concat (map f (chunk_keys (w_db w) jid))) (w_minio w),
      w_db := stitched_db jid (w_db w)\<rparr>)"
proof -
  let ?d = "fst (advance_status (w_db w) jid STITCHING)"
  have row: "get_job ?d jid = Some (if j_status j = GENERATING
      then j\<lparr>j_status := STITCHING, j_updated_at := db_now (w_db w)\<rparr> else j)"
    using assms(3,4) by (auto simp: advance_job can_transition_iff)
  have won: "snd (finalize_job ?d jid (final_key_of jid))"
    using finalize_won [OF wf_advance [OF assms(2)] row] assms(4) by auto
  have put: "put_bytes (w_minio w) (final_key_of jid) data ''audio/mpeg'' = Inr (assembled jid data (w_minio w))" for data
    using assms(5) by (simp add: put_bytes_def assembled_def)
  show ?thesis
    using assms(1,3,4) won put run_pmap_get [OF assms(1), of "chunk_keys (w_db w) jid"
        "w\<lparr>w_db := ?d\<rparr>" f] assms(6)
    by (auto simp: handle_stitch_def run_simps Let_def split_beta stitched_db_def)
qed

lemma stitched_db_row:
  assumes "get_job d jid = Some j" and "j_status j \<in> {GENERATING, STITCHING}"
  shows "\<exists>now. get_job (stitched_db jid d) jid =
    Some (j\<lparr>j_status := COMPLETED, final_key := Some (final_key_of jid), j_updated_at := now\<rparr>)"
proof -
  have "get_job (stitched_db jid d) jid = Some (j\<lparr>j_status := COMPLETED, final_key := Some (final_key_of jid),
      j_updated_at := db_now d\<rparr>)"
    using assms by (auto simp: stitched_db_def finalize_job_row advance_job can_transition_iff)
  then show ?thesis by blast
qed



text \<open>
  A redelivered \<open>StitchReady\<close> for a completed job does nothing at all: no second asset, no status
  change, no second webhook.
\<close>

theorem stitch_redelivery:
  assumes "i_fault i = NoFault" and "get_job (w_db w) jid = Some j" and "j_status j = COMPLETED"
  shows "run i (handle_stitch ctx (StitchReady e jid)) w = (w, Done ())"
  using assms by (simp add: handle_stitch_def run_simps Let_def)

definition example_completed :: db where
  "example_completed = example_db\<lparr>jobs := map (\<lambda>j. j\<lparr>j_status := COMPLETED\<rparr>) (jobs example_db)\<rparr>"

theorem stitch_redelivery_witness:
  "run calm (handle_stitch example_context (StitchReady ''e'' ''j'')) (example_world\<lparr>w_db := example_completed\<rparr>) =
     (example_world\<lparr>w_db := example_completed\<rparr>, Done ())"
proof -
  have "\<exists>j. get_job example_completed ''j'' = Some j \<and> j_status j = COMPLETED"
    by (simp add: example_completed_def example_db_def)
  then show ?thesis
    using stitch_redelivery [where i = calm and w = "example_world\<lparr>w_db := example_completed\<rparr>" and jid = "''j''"
        and ctx = example_context and e = "''e''"]
    by auto
qed

end
