(* ===== verification/Dlq_Handler.thy ===== *)
theory Dlq_Handler
  imports Tts_Handler
begin

text \<open>
  \<open>worker/handlers/dlq.py\<close>: the consumer of the dead-letter queue. A message with a \<open>task_id\<close> marks
  that task failed and resolves the barrier; any other fails the whole job. On its own error the
  delivery is requeued.
\<close>

text \<open>\<open>json.loads(body)\<close> and \<open>data.get\<close>: only an object has the method.\<close>

definition json_fields :: "body \<Rightarrow> (string \<times> json) list res" where
  "json_fields b =
    (case b of
       NotJson \<Rightarrow> Inl JSONDecodeError
     | Json (JObj entries) \<Rightarrow> Inr entries
     | Json _ \<Rightarrow> Inl AttributeError)"

text \<open>
  The transaction on the values as they came out of the JSON text: the driver refuses a value that
  is not a string when a statement with it is run, and the statement on the job is only run when
  the claim touched a row.
\<close>

definition dlq_fail_task :: "json \<Rightarrow> json \<Rightarrow> db \<Rightarrow> db \<times> int option res" where
  "dlq_fail_task jobv taskv d =
    (case taskv of
       JStr tid \<Rightarrow>
         (case jobv of
            JStr jid \<Rightarrow> fail_task_and_decrement d jid tid
          | _ \<Rightarrow>
              if rowcount (\<lambda>t. t_id t = tid \<and> t_status t \<notin> {T_DONE, T_FAILED}) (tasks d) = 0
              then (d, Inr None) else (d, Inl InfraError))
     | _ \<Rightarrow> (d, Inl InfraError))"

definition dlq_fail_job :: "json \<Rightarrow> db \<Rightarrow> db \<times> bool res" where
  "dlq_fail_job jobv d =
    (case jobv of
       JStr jid \<Rightarrow> (case advance_status d jid FAILED of (d', won) \<Rightarrow> (d', Inr won))
     | _ \<Rightarrow> (d, Inl InfraError))"

definition emit_stitch_for :: "json \<Rightarrow> unit action" where
  "emit_stitch_for jobv = (case jobv of JStr jid \<Rightarrow> emit_stitch jid | _ \<Rightarrow> Raise ValidationError)"

definition handle_dlq :: "WorkerContext \<Rightarrow> msg \<Rightarrow> unit action" where
  "handle_dlq ctx m =
    pbind (plift (json_fields (m_body m))) (\<lambda>entries.
      case map_of entries ''job_id'' of
        None \<Rightarrow> Ret ()
      | Some JNull \<Rightarrow> Ret ()
      | Some jobv \<Rightarrow>
          (case map_of entries ''task_id'' of
             Some taskv \<Rightarrow>
               pbind (transaction (dlq_fail_task jobv taskv)) (\<lambda>remaining.
               if remaining = Some 0 then emit_stitch_for jobv else Ret ())
           | None \<Rightarrow> pbind (transaction (dlq_fail_job jobv)) (\<lambda>_. Ret ())))"

definition make_dlq_handler :: "WorkerContext \<Rightarrow> handler" where
  "make_dlq_handler ctx m =
    pbind (ptry (handle_dlq ctx m)) (\<lambda>r. case r of Inl _ \<Rightarrow> Ret (Nacked True) | Inr _ \<Rightarrow> Ret Acked)"

section \<open>The body of a dead letter\<close>

lemma json_fields_dump:
  "json_fields (model_dump_json (JobCreated e jid)) = Inr [(''event_id'', JStr e), (''job_id'', JStr jid)]"
  "json_fields (model_dump_json (StitchReady e jid)) = Inr [(''event_id'', JStr e), (''job_id'', JStr jid)]"
  "json_fields (model_dump_json (TtsRequested e jid tid)) =
    Inr [(''event_id'', JStr e), (''job_id'', JStr jid), (''task_id'', JStr tid)]"
  by (simp_all add: json_fields_def model_dump_json_def)

lemma handle_dlq_task:
  assumes "m_body m = model_dump_json (TtsRequested e jid tid)"
  shows "handle_dlq ctx m = pbind (transaction (\<lambda>d. fail_task_and_decrement d jid tid)) (\<lambda>remaining.
    if remaining = Some 0 then emit_stitch jid else Ret ())"
  using assms by (simp add: handle_dlq_def json_fields_dump plift_def dlq_fail_task_def [abs_def] emit_stitch_for_def
      cong: if_cong)

lemma handle_dlq_job:
  assumes "m_body m = model_dump_json (JobCreated e jid) \<or> m_body m = model_dump_json (StitchReady e jid)"
  shows "handle_dlq ctx m = pbind (transaction (dlq_fail_job (JStr jid))) (\<lambda>_. Ret ())"
  using assms by (auto simp: handle_dlq_def json_fields_dump plift_def)

text \<open>
  C31. The resolver of the dead-letter queue keeps a poisoned block from stalling its job: the task
  becomes \<open>FAILED\<close>, the barrier goes down by one, \<open>StitchReady\<close> is published exactly when it is then at
  zero, and the delivery is acknowledged.
\<close>

theorem dlq_resolves_task:
  assumes "i_fault i = NoFault" and "m_body m = model_dump_json (TtsRequested e jid tid)"
    and "wf_db (w_db w)" and "get_job (w_db w) jid = Some j" and "get_task (w_db w) tid = Some t"
    and "t_status t = T_PENDING" and "wf_broker (w_broker w)" and "bound (w_broker w) Q_STITCH"
  shows "\<exists>d b. run i (make_dlq_handler ctx m) w = (w\<lparr>w_db := d, w_broker := b\<rparr>, Done Acked)
    \<and> get_task d tid = Some (t\<lparr>t_status := T_FAILED, t_updated_at := db_now (w_db w)\<rparr>)
    \<and> get_job d jid = Some (j\<lparr>pending_count := pending_count j - 1, j_updated_at := db_now (w_db w)\<rparr>)
    \<and> (\<forall>q. msgs_in b q = msgs_in (w_broker w) q @
        (if q = Q_STITCH \<and> pending_count j = 1 then [event_msg (StitchReady (i_uuid i) jid)] else []))"
proof -
  let ?d = "(w_db w)\<lparr>tasks := claim_failed (w_db w) tid, jobs := decremented (w_db w) jid\<rparr>"
  let ?b = "if pending_count j = 1
    then exchange_publish (w_broker w) (event_msg (StitchReady (i_uuid i) jid)) Q_STITCH else w_broker w"
  have fail: "fail_task_and_decrement (w_db w) jid tid = (?d, Inr (Some (pending_count j - 1)))"
    using assms(3-6) by (simp add: fail_cases)
  have "run i (make_dlq_handler ctx m) w = (w\<lparr>w_db := ?d, w_broker := ?b\<rparr>, Done Acked)"
    using assms(1) fail by (simp add: make_dlq_handler_def handle_dlq_task [OF assms(2)] run_simps
        emit_stitch_def publish_eq)
  moreover have "get_task ?d tid = Some (t\<lparr>t_status := T_FAILED, t_updated_at := db_now (w_db w)\<rparr>)"
    using assms(5,6) row_get_SomeD [OF assms(5)] by (simp add: claim_failed_def row_get_update)
  moreover have "get_job ?d jid = Some (j\<lparr>pending_count := pending_count j - 1, j_updated_at := db_now (w_db w)\<rparr>)"
    using assms(4) by (simp add: get_job_decremented)
  ultimately show ?thesis
    using publish_stitch_msgs [OF assms(7,8)] by (intro exI [of _ ?d] exI [of _ ?b]) simp
qed

theorem dlq_resolves_task_witness:
  "\<exists>d b. run calm (make_dlq_handler example_context (event_msg (TtsRequested ''e'' ''j'' ''j-0''))) example_world =
      (example_world\<lparr>w_db := d, w_broker := b\<rparr>, Done Acked) \<and> msgs_in b Q_STITCH = []"
proof -
  obtain j where j: "get_job example_db ''j'' = Some j" "pending_count j = 2" using example_db_job by blast
  obtain t where t: "get_task example_db ''j-0'' = Some t" "t_status t = T_PENDING" using example_db_task by blast
  from dlq_resolves_task [of calm "event_msg (TtsRequested ''e'' ''j'' ''j-0'')" "''e''" "''j''" "''j-0''" example_world j t
      example_context]
  show ?thesis using j t example_db_ok(1) ready_broker_ok by auto
qed

text \<open>
  A dead-lettered \<open>JobCreated\<close> or \<open>StitchReady\<close> fails its job unless the job has already ended, and
  is acknowledged; a completed job stays completed.
\<close>

theorem dlq_fails_job:
  assumes "i_fault i = NoFault"
    and "m_body m = model_dump_json (JobCreated e jid) \<or> m_body m = model_dump_json (StitchReady e jid)"
    and "get_job (w_db w) jid = Some j"
  shows "\<exists>d. run i (make_dlq_handler ctx m) w = (w\<lparr>w_db := d\<rparr>, Done Acked)
    \<and> map_option j_status (get_job d jid) = Some (if terminal (j_status j) then j_status j else FAILED)
    \<and> tasks d = tasks (w_db w)"
proof -
  have "can_transition (j_status j) FAILED \<longleftrightarrow> \<not> terminal (j_status j)"
    by (cases "j_status j") (auto simp: can_transition_iff terminal_def)
  then show ?thesis
    using assms(1,3)
    by (intro exI [of _ "fst (advance_status (w_db w) jid FAILED)"])
       (simp add: make_dlq_handler_def handle_dlq_job [OF assms(2)] run_simps dlq_fail_job_def
        split_beta advance_job)
qed

theorem dlq_fails_job_witness:
  "\<exists>d. run calm (make_dlq_handler example_context (event_msg (JobCreated ''e'' ''j''))) example_world =
      (example_world\<lparr>w_db := d\<rparr>, Done Acked) \<and> map_option j_status (get_job d ''j'') = Some FAILED"
proof -
  obtain j where j: "get_job example_db ''j'' = Some j" "j_status j = GENERATING" using example_db_job by blast
  from dlq_fails_job [of calm "event_msg (JobCreated ''e'' ''j'')" "''e''" "''j''" example_world j example_context]
  show ?thesis using j by (auto simp: terminal_def)
qed

text \<open>
  C32. The resolver does not survive a lost reply: when the transaction that resolves the last task
  commits but its reply is lost, the delivery is requeued, and the second attempt finds the task
  already failed and is acknowledged without publishing \<open>StitchReady\<close>. The barrier is at zero, the
  job is as before, and no message about it is left by the resolver.
\<close>

theorem dlq_loses_stitch:
  assumes "i_fault i1 = FaultAfter" and "i_fault i2 = NoFault"
    and "m_body m = model_dump_json (TtsRequested e jid tid)"
    and "wf_db (w_db w)" and "get_job (w_db w) jid = Some j" and "pending_count j = 1"
    and "get_task (w_db w) tid = Some t" and "t_status t = T_PENDING"
  shows "\<exists>d. run i1 (make_dlq_handler ctx m) w = (w\<lparr>w_db := d\<rparr>, Done (Nacked True))
    \<and> run i2 (make_dlq_handler ctx m) (w\<lparr>w_db := d\<rparr>) = (w\<lparr>w_db := d\<rparr>, Done Acked)
    \<and> get_job d jid = Some (j\<lparr>pending_count := 0, j_updated_at := db_now (w_db w)\<rparr>)"
proof -
  let ?d = "fst (fail_task_and_decrement (w_db w) jid tid)"
  have d: "?d = (w_db w)\<lparr>tasks := claim_failed (w_db w) tid, jobs := decremented (w_db w) jid\<rparr>"
    using assms(4-8) by (simp add: fail_cases)
  have "\<exists>t'. get_task ?d tid = Some t' \<and> t_status t' = T_FAILED"
    using assms(7,8) row_get_SomeD [OF assms(7)] by (simp add: d claim_failed_def row_get_update)
  then have again: "fail_task_and_decrement ?d jid tid = (?d, Inr None)"
    using wf_fail [OF assms(4), of jid tid] by (auto simp: fail_cases)
  have first: "run i1 (make_dlq_handler ctx m) w = (w\<lparr>w_db := ?d\<rparr>, Done (Nacked True))"
    using assms(1) by (simp add: make_dlq_handler_def handle_dlq_task [OF assms(3)] run_simps transaction_def
        atomic_def split_beta Let_def)
  have second: "run i2 (make_dlq_handler ctx m) (w\<lparr>w_db := ?d\<rparr>) = (w\<lparr>w_db := ?d\<rparr>, Done Acked)"
    using assms(2) again by (simp add: make_dlq_handler_def handle_dlq_task [OF assms(3)] run_simps)
  have "get_job ?d jid = Some (j\<lparr>pending_count := 0, j_updated_at := db_now (w_db w)\<rparr>)"
    using assms(5,6) by (simp add: d get_job_decremented)
  with first second show ?thesis by blast
qed

definition example_last :: db where
  "example_last = \<lparr>jobs = map (\<lambda>j. j\<lparr>pending_count := 1\<rparr>) (jobs example_db), tasks = [example_task ''j-0'' 0 T_PENDING],
     processed_events = [], db_now = 0\<rparr>"

theorem dlq_loses_stitch_witness:
  "\<exists>d. run (calm\<lparr>i_fault := FaultAfter\<rparr>) (make_dlq_handler example_context (event_msg (TtsRequested ''e'' ''j'' ''j-0'')))
        (example_world\<lparr>w_db := example_last\<rparr>) = (example_world\<lparr>w_db := d\<rparr>, Done (Nacked True))
    \<and> run calm (make_dlq_handler example_context (event_msg (TtsRequested ''e'' ''j'' ''j-0'')))
        (example_world\<lparr>w_db := d\<rparr>) = (example_world\<lparr>w_db := d\<rparr>, Done Acked)
    \<and> map_option (\<lambda>j. (j_status j, pending_count j)) (get_job d ''j'') = Some (GENERATING, 0)"
proof -
  have wf: "wf_db example_last" by (simp add: wf_db_def example_last_def example_db_def example_task_def)
  obtain j where j: "get_job example_last ''j'' = Some j" "pending_count j = 1" "j_status j = GENERATING"
    by (simp add: example_last_def example_db_def)
  obtain t where t: "get_task example_last ''j-0'' = Some t" "t_status t = T_PENDING"
    by (simp add: example_last_def example_task_def)
  from dlq_loses_stitch [of "calm\<lparr>i_fault := FaultAfter\<rparr>" calm "event_msg (TtsRequested ''e'' ''j'' ''j-0'')" "''e''" "''j''" "''j-0''"
      "example_world\<lparr>w_db := example_last\<rparr>" j t example_context]
  obtain d where d: "run (calm\<lparr>i_fault := FaultAfter\<rparr>) (make_dlq_handler example_context (event_msg (TtsRequested ''e'' ''j'' ''j-0'')))
        (example_world\<lparr>w_db := example_last\<rparr>) = (example_world\<lparr>w_db := d\<rparr>, Done (Nacked True))"
    "run calm (make_dlq_handler example_context (event_msg (TtsRequested ''e'' ''j'' ''j-0'')))
        (example_world\<lparr>w_db := d\<rparr>) = (example_world\<lparr>w_db := d\<rparr>, Done Acked)"
    "get_job d ''j'' = Some (j\<lparr>pending_count := 0, j_updated_at := 0\<rparr>)"
    using j t wf by (auto simp: example_last_def)
  then show ?thesis using j(3) by auto
qed

end
