(* ===== verification/Worker_Main.thy ===== *)
theory Worker_Main
  imports Stitch_Handler Dlq_Handler
begin

text \<open>
  \<open>worker/bootstrap.py\<close>, \<open>worker/dispatch.py\<close>, \<open>worker/main.py\<close> and \<open>worker/maintenance.py\<close>: the
  wiring of a worker, the table from queues to handlers, the registration of consumers with their
  prefetch, and the two maintenance loops, given pass by pass.
\<close>

section \<open>Bootstrap\<close>

definition context_of :: "Settings \<Rightarrow> string \<Rightarrow> WorkerContext" where
  "context_of s wid =
    \<lparr>settings = s, worker_id = wid,
     semaphore = \<lparr>slots = TTS_CONCURRENCY s, lease_ttl = LEASE_TTL_S s, slots_key = SLOTS_KEY\<rparr>,
     cache = \<lparr>cache_ttl = CACHE_TTL_S s, inflight_ttl = DEFAULT_INFLIGHT_TTL\<rparr>\<rparr>"

definition build_context :: "Settings \<Rightarrow> string \<Rightarrow> WorkerContext action" where
  "build_context s wid =
    (let ctx = context_of s wid in
     pbind (plift (retry_delays s)) (\<lambda>delays.
     pbind (broker_put (\<lambda>i b. declare_full delays b)) (\<lambda>_.
     pbind (redis_cmd (\<lambda>r. (ensure_slots (semaphore ctx) r, ()))) (\<lambda>_.
     pbind (minio_put (\<lambda>m. Inr (ensure_bucket m))) (\<lambda>_.
     Ret ctx)))))"

section \<open>Dispatch and consumers\<close>

definition build_handlers :: "WorkerContext \<Rightarrow> (string \<times> handler) list" where
  "build_handlers ctx =
    [(Q_PARSE, make_parse_handler ctx), (Q_TTS, make_tts_handler ctx), (Q_STITCH, make_stitch_handler ctx)]"

text \<open>The table of \<open>run\<close>, with the resolver of the dead-letter queue added.\<close>

definition all_handlers :: "WorkerContext \<Rightarrow> (string \<times> handler) list" where
  "all_handlers ctx = build_handlers ctx @ [(Q_DLQ, make_dlq_handler ctx)]"

definition prefetch_for :: "string \<Rightarrow> Settings \<Rightarrow> int" where
  "prefetch_for queue_name s = (if queue_name = Q_TTS then TTS_CONCURRENCY s + 1 else PREFETCH s)"

definition register_consumers :: "WorkerContext \<Rightarrow> (string \<times> handler) list \<Rightarrow> unit action" where
  "register_consumers ctx handlers =
    pfor handlers (\<lambda>(queue_name, h). broker_put (\<lambda>i b.
      if b_queues b queue_name = None then Inl InfraError
      else Inr (consume b queue_name (prefetch_for queue_name (settings ctx)))))"

section \<open>Maintenance\<close>

definition reseed_pass :: "WorkerContext \<Rightarrow> unit action" where
  "reseed_pass ctx =
    pcatch (redis_cmd (\<lambda>r. (ensure_slots (semaphore ctx) r, ()))) (\<lambda>_. Ret ())"

definition reap_pass :: "WorkerContext \<Rightarrow> unit action" where
  "reap_pass ctx =
    pcatch (pfor (pool_tokens (semaphore ctx)) (\<lambda>token.
        redis_cmd (\<lambda>r. (fst (reclaim (semaphore ctx) token r), ()))))
      (\<lambda>_. Ret ())"

text \<open>The loops up to their \<open>n\<close>-th pass: each sleeps first.\<close>

fun run_reseeder :: "WorkerContext \<Rightarrow> nat \<Rightarrow> unit action" where
  "run_reseeder ctx 0 = Ret ()"
| "run_reseeder ctx (Suc n) = pbind pskip (\<lambda>_. pbind (reseed_pass ctx) (\<lambda>_. run_reseeder ctx n))"

fun run_reaper :: "WorkerContext \<Rightarrow> nat \<Rightarrow> unit action" where
  "run_reaper ctx 0 = Ret ()"
| "run_reaper ctx (Suc n) = pbind pskip (\<lambda>_. pbind (reap_pass ctx) (\<lambda>_. run_reaper ctx n))"

text \<open>One round of a heartbeat of a worker; an error of Redis ends it.\<close>

definition beat :: "WorkerContext \<Rightarrow> nat \<Rightarrow> fault \<Rightarrow> world \<Rightarrow> world" where
  "beat ctx k f w =
    (if k < length (w_heartbeats w) \<and> hb_worker (w_heartbeats w ! k) = worker_id ctx
        \<and> \<not> hb_failed (w_heartbeats w ! k)
     then
       (let h = w_heartbeats w ! k;
            renewed = w\<lparr>w_redis := heartbeat_renew (semaphore ctx) (hb_token h) (hb_owner h) (w_redis w)\<rparr>;
            died = (\<lambda>v. v\<lparr>w_heartbeats := (w_heartbeats v)[k := h\<lparr>hb_failed := True\<rparr>]\<rparr>)
        in case f of NoFault \<Rightarrow> renewed | FaultBefore \<Rightarrow> died w | FaultAfter \<Rightarrow> died renewed)
     else w)"

lemma plain_keys_context: "0 < CACHE_TTL_S s \<Longrightarrow> plain_keys (context_of s wid)"
  by (simp add: plain_keys_def context_of_def DEFAULT_INFLIGHT_TTL_def)

end
