(* ===== verification/Gateway.thy ===== *)
theory Gateway
  imports World Worker_Base
begin

text \<open>
  \<open>gateway/main.py\<close>, \<open>gateway/schemas.py\<close> and \<open>gateway/sweeper.py\<close>: the HTTP interface with the guard on
  the size of a manuscript, the ingestion of a job (store, record, publish), the two read-only
  endpoints, and the sweeper that re-publishes stale jobs and purges the inbox. A request comes
  with its parsed body; an exception that leaves a handler becomes an error response.
\<close>

section \<open>Requests and responses\<close>

record CreateJobRequest =
  manuscript :: pystr
  req_callback_url :: "pystr option"

datatype route = PostJobs CreateJobRequest | GetStats | GetStatus string | GetHealth

record request =
  rq_route :: route
  content_length :: "pystr option"

record JobStatusResponse =
  js_job_id :: string
  js_status :: JobStatus
  js_pending_count :: int
  js_manuscript_key :: string
  js_final_key :: "string option"

datatype response =
    JobAccepted string
  | StatsResponse "(JobStatus \<times> nat) list"
  | StatusResponse JobStatusResponse
  | Health
  | NotFound string
  | ManuscriptTooLarge int
  | InternalError "string option"

section \<open>Handlers\<close>

definition manuscript_key_of :: "string \<Rightarrow> string" where
  "manuscript_key_of jid = ''raw/'' @ jid @ ''.txt''"

definition create_job :: "CreateJobRequest \<Rightarrow> response action" where
  "create_job body =
    pbind (ask i_uuid) (\<lambda>jid.
    pbind (minio_put (\<lambda>s. put_text s (manuscript_key_of jid) (manuscript body))) (\<lambda>_.
    pbind (transaction (\<lambda>d. case insert_job d jid (manuscript_key_of jid) (req_callback_url body) of
        Inl e \<Rightarrow> (d, Inl e) | Inr d' \<Rightarrow> (d', Inr ()))) (\<lambda>_.
    pbind (publish_event (\<lambda>u. JobCreated u jid) Q_PARSE) (\<lambda>_.
    Ret (JobAccepted jid)))))"

text \<open>The zero-filled dictionary of \<open>/stats\<close>.\<close>

definition zero_filled :: "(JobStatus \<times> nat) list \<Rightarrow> (JobStatus \<times> nat) list" where
  "zero_filled counts = map (\<lambda>s. (s, case map_of counts s of Some n \<Rightarrow> n | None \<Rightarrow> 0)) all_status"

definition stats :: "response action" where
  "stats =
    pbind (read_db (\<lambda>d. Inr (job_counts_by_status d))) (\<lambda>counts. Ret (StatsResponse (zero_filled counts)))"

text \<open>
  \<open>SELECT .. WHERE job_id = ..\<close> with \<open>scalar_one_or_none\<close>, which raises when there are several rows.
\<close>

definition scalar_one_or_none :: "'a list \<Rightarrow> 'a option res" where
  "scalar_one_or_none rows = (case rows of [] \<Rightarrow> Inr None | [x] \<Rightarrow> Inr (Some x) | _ \<Rightarrow> Inl InfraError)"

definition get_status :: "string \<Rightarrow> response action" where
  "get_status jid =
    pbind (read_db (\<lambda>d. scalar_one_or_none (filter (\<lambda>j. j_id j = jid) (jobs d)))) (\<lambda>job.
      case job of
        None \<Rightarrow> Ret (NotFound jid)
      | Some j \<Rightarrow> Ret (StatusResponse
          \<lparr>js_job_id = j_id j, js_status = j_status j, js_pending_count = pending_count j,
           js_manuscript_key = manuscript_key j, js_final_key = final_key j\<rparr>))"

fun call_route :: "route \<Rightarrow> response action" where
  "call_route (PostJobs body) = create_job body"
| "call_route GetStats = stats"
| "call_route (GetStatus jid) = get_status jid"
| "call_route GetHealth = Ret Health"

definition guard_manuscript_size :: "Settings \<Rightarrow> request \<Rightarrow> response action \<Rightarrow> response action" where
  "guard_manuscript_size s rq call_next =
    (case (rq_route rq, content_length rq) of
       (PostJobs _, Some header) \<Rightarrow>
         pbind (plift (py_int header)) (\<lambda>n.
           if n > MAX_MANUSCRIPT_BYTES s then Ret (ManuscriptTooLarge (MAX_MANUSCRIPT_BYTES s)) else call_next)
     | _ \<Rightarrow> call_next)"

definition unhandled :: "request \<Rightarrow> response" where
  "unhandled rq =
    InternalError (case rq_route rq of GetStatus jid \<Rightarrow> if jid = [] then None else Some jid | _ \<Rightarrow> None)"

definition serve :: "Settings \<Rightarrow> request \<Rightarrow> response action" where
  "serve s rq = pcatch (guard_manuscript_size s rq (call_route (rq_route rq))) (\<lambda>_. Ret (unhandled rq))"

text \<open>The start-up of \<open>lifespan\<close>: topology (with the default delays) and bucket.\<close>

definition gateway_startup :: "unit action" where
  "gateway_startup =
    pbind (broker_put (\<lambda>i b. declare_full DEFAULT_RETRY_DELAYS b)) (\<lambda>_.
    minio_put (\<lambda>m. Inr (ensure_bucket m)))"

section \<open>The sweeper\<close>

definition sweep_once :: "int \<Rightarrow> nat action" where
  "sweep_once pending_timeout_s =
    pbind (read_db (\<lambda>d. Inr (stale_pending d pending_timeout_s))) (\<lambda>stale_ids.
    pbind (pfor stale_ids (\<lambda>jid. publish_event (\<lambda>u. JobCreated u jid) Q_PARSE)) (\<lambda>_.
    Ret (length stale_ids)))"

definition purge_once :: "int \<Rightarrow> nat action" where
  "purge_once retention_s =
    transaction (\<lambda>d. case purge_processed_events d retention_s of (d', n) \<Rightarrow> (d', Inr n))"

definition sweeper_pass :: "int \<Rightarrow> int \<Rightarrow> unit action" where
  "sweeper_pass pending_timeout_s retention_s =
    pbind (pcatch (pbind (sweep_once pending_timeout_s) (\<lambda>_. Ret ())) (\<lambda>_. Ret ())) (\<lambda>_.
    pcatch (pbind (purge_once retention_s) (\<lambda>_. Ret ())) (\<lambda>_. Ret ()))"

text \<open>The loop up to its \<open>n\<close>-th pass: it sleeps first.\<close>

fun run_sweeper :: "int \<Rightarrow> int \<Rightarrow> nat \<Rightarrow> unit action" where
  "run_sweeper pending_timeout_s retention_s 0 = Ret ()"
| "run_sweeper pending_timeout_s retention_s (Suc n) =
    pbind pskip (\<lambda>_. pbind (sweeper_pass pending_timeout_s retention_s) (\<lambda>_.
      run_sweeper pending_timeout_s retention_s n))"

section \<open>Properties\<close>

text \<open>
  C33. Ingestion: an accepted job has its manuscript stored under its key, a \<open>PENDING\<close> row with an
  empty counter, and exactly one \<open>JobCreated\<close> on the parse queue.
\<close>

theorem create_job_accepts:
  assumes "i_fault i = NoFault" and "BUCKET \<in> set (buckets (w_minio w))"
    and "list_all scalar (manuscript body)" and "i_uuid i \<notin> j_id ` set (jobs (w_db w))"
    and "wf_broker (w_broker w)" and "bound (w_broker w) Q_PARSE"
  shows "\<exists>w' j. run i (create_job body) w = (w', Done (JobAccepted (i_uuid i)))
    \<and> get_job (w_db w') (i_uuid i) = Some j \<and> j_status j = PENDING \<and> pending_count j = 0
    \<and> callback_url j = req_callback_url body \<and> final_key j = None
    \<and> get_text (w_minio w') (manuscript_key j) = Inr (manuscript body)
    \<and> (\<forall>q. msgs_in (w_broker w') q = msgs_in (w_broker w) q @
        (if q = Q_PARSE then [event_msg (JobCreated (i_uuid i) (i_uuid i))] else []))"
proof -
  let ?u = "i_uuid i"
  obtain s where s: "put_text (w_minio w) (manuscript_key_of ?u) (manuscript body) = Inr s"
    using assms(2,3) by (auto simp: put_text_def put_bytes_def utf8_encode_def)
  let ?j = "\<lparr>j_id = ?u, j_status = PENDING, pending_count = 0, manuscript_key = manuscript_key_of ?u,
    final_key = None, callback_url = req_callback_url body, j_created_at = db_now (w_db w), j_updated_at = db_now (w_db w)\<rparr>"
  let ?d = "(w_db w)\<lparr>jobs := jobs (w_db w) @ [?j]\<rparr>"
  have ins: "insert_job (w_db w) ?u (manuscript_key_of ?u) (req_callback_url body) = Inr ?d"
    using assms(4) by (simp add: insert_job_def)
  let ?w = "w\<lparr>w_minio := s, w_db := ?d,
    w_broker := exchange_publish (w_broker w) (event_msg (JobCreated ?u ?u)) Q_PARSE\<rparr>"
  have "run i (create_job body) w = (?w, Done (JobAccepted ?u))"
    using assms(1) s ins by (simp add: create_job_def run_simps publish_eq)
  moreover have "row_get j_id ?u (jobs (w_db w)) = None"
    using assms(4) by (simp add: row_get_None_iff)
  then have "get_job ?d ?u = Some ?j" by (simp add: row_get_append)
  ultimately show ?thesis
    using get_text_put_text [OF s] assms(5,6)
    by (intro exI [of _ ?w] exI [of _ ?j]) (simp add: amqp.contents_put)
qed

theorem create_job_accepts_witness:
  "\<exists>w' j. run calm (create_job \<lparr>manuscript = [104, 105], req_callback_url = None\<rparr>) example_world = (w', Done (JobAccepted ''u''))
    \<and> get_job (w_db w') ''u'' = Some j \<and> j_status j = PENDING \<and> length (msgs_in (w_broker w') Q_PARSE) = 1"
proof -
  have "i_uuid calm = ''u''" by (simp add: calm_def)
  with create_job_accepts [of calm example_world "\<lparr>manuscript = [104, 105], req_callback_url = None\<rparr>"]
  show ?thesis using example_minio_ok(2) ready_broker_ok by (auto simp: scalar_def example_db_def)
qed

text \<open>
  C34. The size guard: an ingestion request that declares more bytes than allowed is refused with the
  limit in the answer before anything is stored, recorded or published; one that declares no more
  is served; a header that is no number is an internal error and also leaves the world alone.
\<close>

theorem oversized_refused:
  "run i (serve s \<lparr>rq_route = PostJobs body, content_length = Some (lit (int_str n))\<rparr>) w =
    (if n > MAX_MANUSCRIPT_BYTES s then (w, Done (ManuscriptTooLarge (MAX_MANUSCRIPT_BYTES s)))
     else run i (serve s \<lparr>rq_route = PostJobs body, content_length = None\<rparr>) w)
   \<and> (py_int header = Inl ValueError \<longrightarrow>
      run i (serve s \<lparr>rq_route = PostJobs body, content_length = Some header\<rparr>) w = (w, Done (InternalError None)))"
  by (simp add: serve_def guard_manuscript_size_def run_simps py_int_int_str unhandled_def
      split: prod.split outcome.split)

lemma not_a_number: "py_int (lit ''x'') = Inl ValueError"
  by (simp add: py_int_def strip_def lstrip_def rstrip_def is_space_def int_unsigned_def is_digit_def Let_def)

theorem oversized_refused_witness:
  "run calm (serve default_settings \<lparr>rq_route = PostJobs \<lparr>manuscript = [104], req_callback_url = None\<rparr>,
      content_length = Some (lit ''x'')\<rparr>) example_world = (example_world, Done (InternalError None))"
  using oversized_refused [where header = "lit ''x''"] not_a_number by blast



text \<open>
  The statistics: every status is listed once, with the number of jobs that have it, zero
  included, and the numbers add up to the number of jobs.
\<close>

theorem stats_counts:
  assumes "i_fault i = NoFault"
  shows "run i stats w = (w, Done (StatsResponse
      (map (\<lambda>s. (s, rowcount (\<lambda>j. j_status j = s) (jobs (w_db w)))) all_status)))
    \<and> (\<Sum>s \<leftarrow> all_status. rowcount (\<lambda>j. j_status j = s) (jobs (w_db w))) = length (jobs (w_db w))"
proof -
  have "zero_filled (job_counts_by_status (w_db w)) =
      map (\<lambda>s. (s, rowcount (\<lambda>j. j_status j = s) (jobs (w_db w)))) all_status"
  proof -
    have "map_of (job_counts_by_status d) s =
        (if s \<in> set (map j_status (jobs d)) then Some (rowcount (\<lambda>j. j_status j = s) (jobs d)) else None)" for d s
      by (simp add: job_counts_by_status_def map_of_map_restrict restrict_map_def)
    then show ?thesis
      by (auto simp: zero_filled_def rowcount_zero_iff intro!: rowcount_zero_iff [THEN iffD2, symmetric])
  qed
  moreover have "(\<Sum>s \<leftarrow> all_status. rowcount (\<lambda>j. j_status j = s) js) = length js" for js :: "Job list"
  proof (induction js)
    case (Cons x xs)
    then show ?case by (cases "j_status x") (simp_all add: all_status_def)
  qed (simp add: all_status_def)
  ultimately show ?thesis using assms by (simp add: stats_def run_simps)
qed

theorem stats_counts_witness:
  "run calm stats example_world = (example_world, Done (StatsResponse
     [(PENDING, 0), (PARSING, 0), (GENERATING, 1), (STITCHING, 0), (COMPLETED, 0), (FAILED, 0)]))"
  using stats_counts [of calm example_world] by (simp add: all_status_def example_db_def)

end
