(* ===== verification/Pipeline.thy ===== *)
theory Pipeline
  imports Worker_Main Gateway
begin

text \<open>
  The stages composed: deliveries of the queues to their handlers, one after the other, in the
  order of a schedule.
\<close>

section \<open>Consuming a message\<close>

definition take_msg :: "string \<Rightarrow> broker \<Rightarrow> (msg \<times> broker) option" where
  "take_msg q b =
    (case b_queues b q of
       None \<Rightarrow> None
     | Some qu \<Rightarrow>
         (case q_msgs qu of
            [] \<Rightarrow> None
          | m # ms \<Rightarrow> Some (m, b\<lparr>b_queues := (b_queues b)(q := Some (qu\<lparr>q_msgs := ms\<rparr>))\<rparr>)))"

definition requeue :: "msg \<Rightarrow> string \<Rightarrow> broker \<Rightarrow> broker" where
  "requeue m q b =
    (case b_queues b q of
       None \<Rightarrow> b
     | Some qu \<Rightarrow> b\<lparr>b_queues := (b_queues b)(q := Some (qu\<lparr>q_msgs := m # q_msgs qu\<rparr>))\<rparr>)"

text \<open>One delivery of a queue to its handler, run to its end, and what is then done to the message.\<close>

definition consume_one :: "WorkerContext \<Rightarrow> inp \<Rightarrow> string \<Rightarrow> world \<Rightarrow> world option" where
  "consume_one ctx i q w =
    (case (take_msg q (w_broker w), map_of (all_handlers ctx) q) of
       (Some (m, b), Some h) \<Rightarrow>
         (case run i (h m) (w\<lparr>w_broker := b\<rparr>) of
            (w', Done Acked) \<Rightarrow> Some w'
          | (w', Done (Nacked again)) \<Rightarrow>
              Some (if again then w'\<lparr>w_broker := requeue m q (w_broker w')\<rparr> else w')
          | _ \<Rightarrow> None)
     | _ \<Rightarrow> None)"

fun consume_all :: "WorkerContext \<Rightarrow> inp \<Rightarrow> string list \<Rightarrow> world \<Rightarrow> world option" where
  "consume_all ctx i [] w = Some w"
| "consume_all ctx i (q # qs) w =
    (case consume_one ctx i q w of None \<Rightarrow> None | Some w' \<Rightarrow> consume_all ctx i qs w')"

lemma consume_all_append:
  "consume_all ctx i (qs @ qs') w =
    (case consume_all ctx i qs w of None \<Rightarrow> None | Some w' \<Rightarrow> consume_all ctx i qs' w')"
  by (induction qs arbitrary: w) (simp_all split: option.split)

lemma take_msg_ok:
  assumes "wf_broker b" and "msgs_in b q = m # ms"
  obtains b' where "take_msg q b = Some (m, b')" "wf_broker b'" "\<And>k. bound b' k = bound b k"
    "\<And>k. msgs_in b' k = (if k = q then ms else msgs_in b k)"
proof -
  obtain qu where qu: "b_queues b q = Some qu" "q_msgs qu = m # ms"
    using assms(2) by (auto simp: msgs_in_def split: option.splits)
  let ?b = "b\<lparr>b_queues := (b_queues b)(q := Some (qu\<lparr>q_msgs := ms\<rparr>))\<rparr>"
  have args: "queue_args_ok q (qu\<lparr>q_msgs := ms\<rparr>)"
    using assms(1) qu(1) by (auto simp: wf_broker_def queue_args_ok_def)
  show ?thesis
  proof (rule that)
    show "take_msg q b = Some (m, ?b)" using qu by (simp add: take_msg_def)
    show "wf_broker ?b" using assms(1) args by (auto simp: wf_broker_def)
    show "\<And>k. bound ?b k = bound b k" by (simp add: bound_def)
    show "\<And>k. msgs_in ?b k = (if k = q then ms else msgs_in b k)" by (simp add: msgs_in_def)
  qed
qed

lemma handlers_table [simp]:
  "map_of (all_handlers ctx) Q_PARSE = Some (make_parse_handler ctx)"
  "map_of (all_handlers ctx) Q_TTS = Some (make_tts_handler ctx)"
  "map_of (all_handlers ctx) Q_STITCH = Some (make_stitch_handler ctx)"
  "map_of (all_handlers ctx) Q_DLQ = Some (make_dlq_handler ctx)"
  by (simp_all add: all_handlers_def build_handlers_def)

lemma run_parse_ok:
  "m_body m = model_dump_json (JobCreated e jid) \<Longrightarrow>
    run i (handle_parse ctx (JobCreated e jid)) w = (w', Done ()) \<Longrightarrow>
    run i (make_parse_handler ctx m) w = (w', Done Acked)"
  unfolding make_parse_handler_def by (rule run_ack_last_ok) (simp add: run_simps)

lemma run_tts_ok:
  "m_body m = model_dump_json (TtsRequested e jid tid) \<Longrightarrow>
    run i (handle_tts ctx (TtsRequested e jid tid)) w = (w', Done ()) \<Longrightarrow>
    run i (make_tts_handler ctx m) w = (w', Done Acked)"
  unfolding make_tts_handler_def by (rule run_ack_last_ok) (simp add: run_simps)

lemma run_stitch_ok:
  "m_body m = model_dump_json (StitchReady e jid) \<Longrightarrow>
    run i (handle_stitch ctx (StitchReady e jid)) w = (w', Done ()) \<Longrightarrow>
    run i (make_stitch_handler ctx m) w = (w', Done Acked)"
  unfolding make_stitch_handler_def by (rule run_ack_last_ok) (simp add: run_simps)

section \<open>A sound cache\<close>

text \<open>Whatever the cache answers is the key of the content hash, and that object is its audio.\<close>

definition cache_sound :: "world \<Rightarrow> bool" where
  "cache_sound w \<longleftrightarrow> (\<forall>h key. redis_get (w_redis w) (cache_key h) = Some key \<longrightarrow>
    key = audio_key_of h \<and> get_bytes (w_minio w) key = Inr (audio_of h))"

definition locks_free :: "world \<Rightarrow> bool" where
  "locks_free w \<longleftrightarrow> (\<forall>h. redis_get (w_redis w) (inflight_key h) = None)"

lemma audio_key_of_inj [simp]: "audio_key_of h = audio_key_of h' \<longleftrightarrow> h = h'"
  by (simp add: audio_key_of_def)

lemma audio_key_families [simp]:
  "audio_key_of h \<noteq> manuscript_key_of jid" "manuscript_key_of jid \<noteq> audio_key_of h"
  "final_key_of jid \<noteq> manuscript_key_of jid'" "audio_key_of h \<noteq> final_key_of jid"
  by (simp_all add: audio_key_of_def manuscript_key_of_def final_key_of_def)

lemma get_bytes_stored:
  "BUCKET \<in> set (buckets s) \<Longrightarrow>
    get_bytes (stored key data s) k = (if k = key then Inr data else get_bytes s k)"
  by (simp add: stored_def get_bytes_def update_conv)

lemma stored_buckets [simp]: "buckets (stored key data s) = buckets s"
  by (simp add: stored_def)

text \<open>One block, hit or miss, in a world with a sound cache and free locks.\<close>

lemma tts_sound:
  assumes "i_fault i = NoFault" and "get_task (w_db w) tid = Some t" and "get_job (w_db w) jid = Some j"
    and "get_text (w_minio w) (manuscript_key j) = Inr ms" and "block_index t < length (split_blocks ms)"
    and "content_hash (split_blocks ms ! block_index t) = Inr h"
    and "wf_db (w_db w)" and "plain_keys ctx" and "cache_sound w" and "locks_free w"
    and "r_list (w_redis w) SLOTS_KEY \<noteq> []" and "BUCKET \<in> set (buckets (w_minio w))"
  obtains w' remaining where
    "complete_task_and_decrement (w_db w) jid tid (audio_key_of h) = (w_db w', Inr remaining)"
    "run i (handle_tts ctx (TtsRequested e jid tid)) w = (w', Done ())"
    "w_broker w' = (if emits (w_db w') jid remaining
       then exchange_publish (w_broker w) (event_msg (StitchReady (i_uuid i) jid)) Q_STITCH else w_broker w)"
    "get_bytes (w_minio w') (audio_key_of h) = Inr (audio_of h)"
    "\<And>k. k \<noteq> audio_key_of h \<Longrightarrow> get_bytes (w_minio w') k = get_bytes (w_minio w) k"
    "buckets (w_minio w') = buckets (w_minio w)"
    "cache_sound w'" "locks_free w'" "r_list (w_redis w') SLOTS_KEY \<noteq> []"
proof -
  obtain d remaining where c: "complete_task_and_decrement (w_db w) jid tid (audio_key_of h) = (d, Inr remaining)"
    using complete_total [OF assms(7,2,3)] by blast
  note load = run_load_block [OF assms(1-5), of ctx]
  let ?b = "if emits d jid remaining
    then exchange_publish (w_broker w) (event_msg (StitchReady (i_uuid i) jid)) Q_STITCH else w_broker w"
  show ?thesis
  proof (cases "cache_get (cache ctx) h (w_redis w)")
    case (Some key)
    with assms(9) have key: "key = audio_key_of h" "get_bytes (w_minio w) key = Inr (audio_of h)"
      by (auto simp: cache_sound_def cache_get_def)
    have "run i (handle_tts ctx (TtsRequested e jid tid)) w = (w\<lparr>w_db := d, w_broker := ?b\<rparr>, Done ())"
      using run_handle_tts_hit [OF assms(1) load assms(6) Some, of e] c key(1) assms(1)
      by (simp add: run_after_decrement)
    then show ?thesis
      by (rule that [of "w\<lparr>w_db := d, w_broker := ?b\<rparr>" remaining, rotated])
         (use c key assms(9-11) in \<open>simp_all add: cache_sound_def locks_free_def\<close>)
  next
    case None
    obtain token rest where pool: "r_list (w_redis w) SLOTS_KEY = token # rest"
      using assms(11) by (cases "r_list (w_redis w) SLOTS_KEY") auto
    have free: "redis_get (w_redis w) (inflight_key h) = None" using assms(10) by (simp add: locks_free_def)
    let ?r = "synthesized ctx h (audio_key_of h) tid token (w_redis w)"
    let ?s = "stored (audio_key_of h) (audio_of h) (w_minio w)"
    let ?w = "w\<lparr>w_redis := ?r, w_minio := ?s,
       w_heartbeats := demoted ctx token (w_heartbeats w), w_db := d, w_broker := ?b\<rparr>"
    have run: "run i (handle_tts ctx (TtsRequested e jid tid)) w = (?w, Done ())"
      using run_handle_tts_miss [OF assms(1) load assms(6) None assms(8) free pool assms(12), of e] c assms(1)
      by (simp add: run_after_decrement)
    have get: "get_bytes ?s k = (if k = audio_key_of h then Inr (audio_of h) else get_bytes (w_minio w) k)" for k
      using get_bytes_stored [OF assms(12)] by simp
    have cache: "redis_get ?r (cache_key h') = (if h' = h then Some (audio_key_of h) else redis_get (w_redis w) (cache_key h'))" for h'
      using synthesized_cache [OF assms(8), where c = "cache ctx"] by (simp add: cache_get_def)
    have "cache_sound ?w" unfolding cache_sound_def
      using assms(9) by (fastforce simp: cache get cache_sound_def split: if_splits)
    moreover have "locks_free ?w"
      using assms(10) synthesized_inflight [OF assms(8)] by (simp add: locks_free_def)
    moreover have "r_list ?r SLOTS_KEY \<noteq> []" using synthesized_pool [OF assms(8) pool] by simp
    ultimately show ?thesis
      using run c get by (intro that [of ?w remaining]) simp_all
  qed
qed

end
