(* ===== verification/End_To_End.thy ===== *)
theory End_To_End
  imports Pipeline
begin

text \<open>
  The stages of one job from its submission to its completion, without faults and in the order of
  the pipeline: the state of the job after \<open>k\<close> of its blocks is the predicate \<open>generating\<close>, each stage is
  one lemma on it, and \<open>end_to_end\<close> composes them. The start of the services from nothing is
  \<open>boot_ready\<close>.
\<close>

section \<open>Blocks and rows\<close>

lemma capped_prefix:
  "length (capped k xs) \<le> length xs" "m < length (capped k xs) \<Longrightarrow> capped k xs ! m = xs ! m"
  "set (capped k xs) \<subseteq> set xs"
  by (auto simp: capped_def py_take_def dest: in_set_takeD)

definition hash_of :: "pystr \<Rightarrow> string" where
  "hash_of b = (case content_hash b of Inr h \<Rightarrow> h | Inl _ \<Rightarrow> [])"

definition mark_done :: "nat \<Rightarrow> int \<Rightarrow> Task \<Rightarrow> Task" where
  "mark_done k now t =
    (if block_index t < k
     then t\<lparr>t_status := T_DONE, audio_key := Some (audio_key_of (block_hash t)), t_updated_at := now\<rparr> else t)"

lemma mark_done_simps [simp]:
  "t_id (mark_done k now t) = t_id t" "t_job (mark_done k now t) = t_job t"
  "block_index (mark_done k now t) = block_index t" "block_hash (mark_done k now t) = block_hash t"
  "t_status (mark_done k now t) = (if block_index t < k then T_DONE else t_status t)"
  by (simp_all add: mark_done_def)

lemma mark_done_zero [simp]: "mark_done 0 now = id"
  by (simp add: mark_done_def fun_eq_iff)

lemma rows_of_nth:
  "m < length blocks \<Longrightarrow> rows_of now jid blocks ! m =
    \<lparr>t_id = task_id_of jid m, t_job = jid, block_index = m, block_hash = hash_of (blocks ! m),
     t_status = T_PENDING, audio_key = None, t_created_at = now, t_updated_at = now\<rparr>"
  by (simp add: rows_of_def nth_enumerate_eq hash_of_def)

text \<open>Completing the next task of a job advances the mark by one.\<close>

lemma claim_next_row:
  assumes "r \<in> set (rows_of now jid blocks)" and "k < length blocks"
  shows "(if t_id (mark_done k now r) = task_id_of jid k \<and> t_status (mark_done k now r) \<noteq> T_DONE
      then (mark_done k now r)\<lparr>t_status := T_DONE, audio_key := Some (audio_key_of (hash_of (blocks ! k))), t_updated_at := now\<rparr>
      else mark_done k now r) = mark_done (Suc k) now r"
proof -
  obtain m where m: "m < length blocks" "r = rows_of now jid blocks ! m"
    using assms(1) by (auto simp: in_set_conv_nth rows_of_simps(1))
  show ?thesis
  proof (cases "m = k")
    case True
    with m(1) show ?thesis by (simp add: m(2) rows_of_nth mark_done_def)
  next
    case False
    then have "m < Suc k \<longleftrightarrow> m < k" by auto
    with False m(1) show ?thesis by (simp add: m(2) rows_of_nth mark_done_def)
  qed
qed

lemma claim_next:
  assumes "tasks d = ts0 @ map (mark_done k (db_now d)) (rows_of (db_now d) jid blocks)"
    and "\<And>t. t \<in> set ts0 \<Longrightarrow> t_id t \<noteq> task_id_of jid k" and "k < length blocks"
  shows "claim_done d (task_id_of jid k) (audio_key_of (hash_of (blocks ! k))) =
    ts0 @ map (mark_done (Suc k) (db_now d)) (rows_of (db_now d) jid blocks)"
  unfolding claim_done_def sql_update_def assms(1) map_append map_map
  using claim_next_row [OF _ assms(3), of _ "db_now d" jid] assms(2)
  by (auto intro: map_idI)

lemma chunk_keys_done:
  assumes "tasks d = ts0 @ map (mark_done (length blocks) now) (rows_of now jid blocks)"
    and "\<And>t. t \<in> set ts0 \<Longrightarrow> t_job t \<noteq> jid"
  shows "chunk_keys d jid = map (\<lambda>b. audio_key_of (hash_of b)) blocks"
proof -
  let ?rows = "map (mark_done (length blocks) now) (rows_of now jid blocks)"
  have all: "filter (\<lambda>t. t_job t = jid \<and> t_status t = T_DONE) ?rows = ?rows"
    using rows_of_simps(4) [of _ now jid blocks] by (auto simp: filter_id_conv)
  have none: "filter (\<lambda>t. t_job t = jid \<and> t_status t = T_DONE) ts0 = []"
    using assms(2) by (auto simp: filter_empty_conv)
  have "sorted (map block_index ?rows)"
    using rows_of_simps(3) [of now jid blocks] by (simp add: comp_def)
  then have "done_tasks d jid = ?rows"
    using all none by (simp add: done_tasks_def assms(1) sort_key_id_if_sorted del: map_map)
  moreover have "List.map_filter audio_key ?rows = map (\<lambda>b. audio_key_of (hash_of b)) blocks"
  proof -
    have "map audio_key ?rows = map (\<lambda>b. Some (audio_key_of (hash_of b))) blocks"
      by (rule nth_equalityI) (simp_all add: rows_of_simps(1) rows_of_nth mark_done_def)
    moreover from this have "filter (\<lambda>x. audio_key x \<noteq> None) ?rows = ?rows"
      by (metis (mono_tags, lifting) filter_True imageE image_eqI list.set_map option.distinct(1))
    ultimately have "map (the \<circ> audio_key) (filter (\<lambda>x. audio_key x \<noteq> None) ?rows) = map (\<lambda>b. audio_key_of (hash_of b)) blocks"
      by (metis (no_types, lifting) comp_apply list.map_comp map_eq_conv option.sel)
    then show ?thesis by (simp add: List.map_filter_def)
  qed
  ultimately show ?thesis by (simp add: chunk_keys_def)
qed

section \<open>The stages of one job\<close>

definition pool_ready :: "world \<Rightarrow> bool" where
  "pool_ready w \<longleftrightarrow> wf_db (w_db w) \<and> BUCKET \<in> set (buckets (w_minio w)) \<and> cache_sound w \<and> locks_free w
    \<and> r_list (w_redis w) SLOTS_KEY \<noteq> [] \<and> wf_broker (w_broker w)
    \<and> bound (w_broker w) Q_PARSE \<and> bound (w_broker w) Q_TTS \<and> bound (w_broker w) Q_STITCH"

text \<open>The job after \<open>k\<close> of its blocks have been done, and the queues.\<close>

definition generating :: "string \<Rightarrow> string \<Rightarrow> pystr \<Rightarrow> pystr list \<Rightarrow> Task list \<Rightarrow> pystr option \<Rightarrow> nat \<Rightarrow> world \<Rightarrow> bool" where
  "generating u jid ms blocks ts0 cb k w \<longleftrightarrow> pool_ready w
    \<and> tasks (w_db w) = ts0 @ map (mark_done k (db_now (w_db w))) (rows_of (db_now (w_db w)) jid blocks)
    \<and> (\<exists>j. get_job (w_db w) jid = Some j \<and> j_status j = GENERATING \<and> pending_count j = int (length blocks) - int k
         \<and> manuscript_key j = manuscript_key_of jid \<and> callback_url j = cb)
    \<and> get_text (w_minio w) (manuscript_key_of jid) = Inr ms
    \<and> (\<forall>m < k. get_bytes (w_minio w) (audio_key_of (hash_of (blocks ! m))) = Inr (audio_of (hash_of (blocks ! m))))
    \<and> msgs_in (w_broker w) Q_PARSE = []
    \<and> msgs_in (w_broker w) Q_TTS = map (\<lambda>m. event_msg (TtsRequested u jid (task_id_of jid m))) [k..<length blocks]
    \<and> msgs_in (w_broker w) Q_STITCH = (if k = length blocks then [event_msg (StitchReady u jid)] else [])"

lemma get_text_cong: "get_bytes s k = get_bytes s' k \<Longrightarrow> get_text s k = get_text s' k"
  by (simp add: get_text_def)

lemma generating_task:
  assumes "generating u jid ms blocks ts0 cb k w" and "k < length blocks"
  shows "\<exists>t. get_task (w_db w) (task_id_of jid k) = Some t \<and> block_index t = k \<and> t_job t = jid \<and> t_status t = T_PENDING"
proof -
  let ?r = "rows_of (db_now (w_db w)) jid blocks ! k"
  have r: "?r = mark_done k (db_now (w_db w)) ?r" using assms(2) by (simp add: rows_of_nth mark_done_def)
  have "?r \<in> set (rows_of (db_now (w_db w)) jid blocks)" using assms(2) by (simp add: rows_of_simps(1))
  with r assms(1) have "?r \<in> set (tasks (w_db w))"
    by (auto simp: generating_def intro!: image_eqI [of ?r])
  moreover have "distinct (map t_id (tasks (w_db w)))"
    using assms(1) unfolding generating_def pool_ready_def wf_db_def by blast
  ultimately have "get_task (w_db w) (t_id ?r) = Some ?r" by (metis row_get_unique)
  with assms(2) show ?thesis by (simp add: rows_of_nth)
qed

lemma block_of_manuscript:
  assumes "get_text s key = Inr ms" and "k < length blocks" and "blocks = capped n (split_blocks ms)"
  shows "k < length (split_blocks ms)" "split_blocks ms ! k = blocks ! k"
    "content_hash (split_blocks ms ! k) = Inr (hash_of (blocks ! k))"
proof -
  show k: "k < length (split_blocks ms)" "split_blocks ms ! k = blocks ! k"
    using assms(2,3) capped_prefix(1,2) [where k = n and xs = "split_blocks ms"] by auto
  then have "list_all scalar (blocks ! k)"
    using get_text_scalar [OF assms(1)] split_blocks_scalar by (metis nth_mem)
  then show "content_hash (split_blocks ms ! k) = Inr (hash_of (blocks ! k))"
    using content_hash_scalar [of "blocks ! k"] k(2) by (auto simp: hash_of_def)
qed

text \<open>One delivery of the next block: the database moves by one task, \<open>StitchReady\<close> follows the last one.\<close>

lemma tts_stage_run:
  assumes "generating u jid ms blocks ts0 cb k w" and "k < length blocks"
    and "i_fault i = NoFault" and "i_uuid i = u" and "plain_keys ctx"
    and "blocks = capped (MAX_BLOCKS (settings ctx)) (split_blocks ms)"
    and "wf_broker b" and "bound b Q_STITCH"
  defines "h \<equiv> hash_of (blocks ! k)"
  shows "\<exists>w'. run i (handle_tts ctx (TtsRequested u jid (task_id_of jid k))) (w\<lparr>w_broker := b\<rparr>) = (w', Done ())
    \<and> w_db w' = (w_db w)\<lparr>tasks := claim_done (w_db w) (task_id_of jid k) (audio_key_of h), jobs := decremented (w_db w) jid\<rparr>
    \<and> wf_broker (w_broker w') \<and> (\<forall>q. bound (w_broker w') q = bound b q)
    \<and> (\<forall>q. msgs_in (w_broker w') q = msgs_in b q @
        (if q = Q_STITCH \<and> Suc k = length blocks then [event_msg (StitchReady u jid)] else []))
    \<and> get_bytes (w_minio w') (audio_key_of h) = Inr (audio_of h)
    \<and> (\<forall>key. key \<noteq> audio_key_of h \<longrightarrow> get_bytes (w_minio w') key = get_bytes (w_minio w) key)
    \<and> buckets (w_minio w') = buckets (w_minio w)
    \<and> cache_sound w' \<and> locks_free w' \<and> r_list (w_redis w') SLOTS_KEY \<noteq> []"
proof -
  let ?tid = "task_id_of jid k" and ?w = "w\<lparr>w_broker := b\<rparr>"
  from assms(1) have g: "wf_db (w_db ?w)" "cache_sound ?w" "locks_free ?w" "r_list (w_redis ?w) SLOTS_KEY \<noteq> []"
    "BUCKET \<in> set (buckets (w_minio ?w))" "get_text (w_minio ?w) (manuscript_key_of jid) = Inr ms"
    unfolding generating_def pool_ready_def by (simp_all add: cache_sound_def locks_free_def)
  from assms(1) obtain j where j: "get_job (w_db ?w) jid = Some j" "pending_count j = int (length blocks) - int k"
    "manuscript_key j = manuscript_key_of jid"
    unfolding generating_def by auto
  obtain t where t: "get_task (w_db ?w) ?tid = Some t" "block_index t = k" "t_status t = T_PENDING"
    using generating_task [OF assms(1,2)] by auto
  note blk = block_of_manuscript [OF g(6) assms(2,6)]
  have content: "get_text (w_minio ?w) (manuscript_key j) = Inr ms" using g(6) j(3) by simp
  have idx: "block_index t < length (split_blocks ms)" "content_hash (split_blocks ms ! block_index t) = Inr h"
    using blk t(2) by (simp_all add: h_def)
  obtain w' remaining where
    w': "complete_task_and_decrement (w_db ?w) jid ?tid (audio_key_of h) = (w_db w', Inr remaining)"
    "run i (handle_tts ctx (TtsRequested u jid ?tid)) ?w = (w', Done ())"
    "w_broker w' = (if emits (w_db w') jid remaining
       then exchange_publish (w_broker ?w) (event_msg (StitchReady (i_uuid i) jid)) Q_STITCH else w_broker ?w)"
    "get_bytes (w_minio w') (audio_key_of h) = Inr (audio_of h)"
    "\<And>k. k \<noteq> audio_key_of h \<Longrightarrow> get_bytes (w_minio w') k = get_bytes (w_minio ?w) k"
    "buckets (w_minio w') = buckets (w_minio ?w)"
    "cache_sound w'" "locks_free w'" "r_list (w_redis w') SLOTS_KEY \<noteq> []"
    using tts_sound [OF assms(3) t(1) j(1) content idx g(1) assms(5) g(2-5), of u] by blast
  have d: "w_db w' = (w_db w)\<lparr>tasks := claim_done (w_db w) ?tid (audio_key_of h), jobs := decremented (w_db w) jid\<rparr>"
    and rem: "remaining = Some (int (length blocks) - int (Suc k))"
    using w'(1) g(1) t j by (auto simp: complete_cases)
  have "emits (w_db w') jid remaining \<longleftrightarrow> Suc k = length blocks"
    using rem assms(2) by (auto simp: emits_def)
  then have "w_broker w' = (if Suc k = length blocks
      then exchange_publish b (event_msg (StitchReady u jid)) Q_STITCH else b)"
    using w'(3) assms(4) by simp
  then show ?thesis
    using w'(2,4-9) d publish_stitch_msgs [OF assms(7,8)] amqp.wf_put [OF assms(7)] amqp.bound_put [OF assms(7)] assms(7)
    by (intro exI [of _ w']) simp
qed

lemma tts_stage:
  assumes "generating u jid ms blocks ts0 cb k w" and "k < length blocks"
    and "i_fault i = NoFault" and "i_uuid i = u" and "plain_keys ctx"
    and "blocks = capped (MAX_BLOCKS (settings ctx)) (split_blocks ms)"
    and "\<And>t. t \<in> set ts0 \<Longrightarrow> t_job t \<noteq> jid \<and> t_id t = task_id_of (t_job t) (block_index t)"
  shows "\<exists>w'. consume_one ctx i Q_TTS w = Some w' \<and> generating u jid ms blocks ts0 cb (Suc k) w'"
proof -
  let ?h = "hash_of (blocks ! k)"
  let ?m = "\<lambda>m. event_msg (TtsRequested u jid (task_id_of jid m))"
  from assms(1) have g: "wf_db (w_db w)" "BUCKET \<in> set (buckets (w_minio w))" "wf_broker (w_broker w)"
    "bound (w_broker w) Q_PARSE" "bound (w_broker w) Q_TTS" "bound (w_broker w) Q_STITCH"
    "tasks (w_db w) = ts0 @ map (mark_done k (db_now (w_db w))) (rows_of (db_now (w_db w)) jid blocks)"
    "get_text (w_minio w) (manuscript_key_of jid) = Inr ms"
    "\<And>m. m < k \<Longrightarrow> get_bytes (w_minio w) (audio_key_of (hash_of (blocks ! m))) = Inr (audio_of (hash_of (blocks ! m)))"
    "msgs_in (w_broker w) Q_PARSE = []" "msgs_in (w_broker w) Q_TTS = ?m k # map ?m [Suc k..<length blocks]"
    "msgs_in (w_broker w) Q_STITCH = []"
    using assms(2) unfolding generating_def pool_ready_def by (simp_all add: upt_conv_Cons)
  from assms(1) obtain j where j: "get_job (w_db w) jid = Some j" "j_status j = GENERATING"
    "pending_count j = int (length blocks) - int k" "manuscript_key j = manuscript_key_of jid" "callback_url j = cb"
    unfolding generating_def by blast
  obtain b where b: "take_msg Q_TTS (w_broker w) = Some (?m k, b)" "wf_broker b"
    "\<And>q. bound b q = bound (w_broker w) q"
    "\<And>q. msgs_in b q = (if q = Q_TTS then map ?m [Suc k..<length blocks] else msgs_in (w_broker w) q)"
    using take_msg_ok [OF g(3,11)] by blast
  have "bound b Q_STITCH" using b(3) g(6) by simp
  from tts_stage_run [OF assms(1-6) b(2) this] obtain w' where
    run: "run i (handle_tts ctx (TtsRequested u jid (task_id_of jid k))) (w\<lparr>w_broker := b\<rparr>) = (w', Done ())"
    and d: "w_db w' = (w_db w)\<lparr>tasks := claim_done (w_db w) (task_id_of jid k) (audio_key_of ?h), jobs := decremented (w_db w) jid\<rparr>"
    and br: "wf_broker (w_broker w')" "\<And>q. bound (w_broker w') q = bound b q"
      "\<And>q. msgs_in (w_broker w') q = msgs_in b q @
        (if q = Q_STITCH \<and> Suc k = length blocks then [event_msg (StitchReady u jid)] else [])"
    and st: "get_bytes (w_minio w') (audio_key_of ?h) = Inr (audio_of ?h)"
      "\<And>key. key \<noteq> audio_key_of ?h \<Longrightarrow> get_bytes (w_minio w') key = get_bytes (w_minio w) key"
      "buckets (w_minio w') = buckets (w_minio w)"
    and cache: "cache_sound w'" "locks_free w'" "r_list (w_redis w') SLOTS_KEY \<noteq> []"
    by blast
  have ts0: "t_id t \<noteq> task_id_of jid k" if "t \<in> set ts0" for t using assms(7) [OF that] by auto
  have "wf_db (w_db w')"
    unfolding d using wf_resolved [OF wf_claim_done [OF g(1)]] by simp
  moreover have "tasks (w_db w') = ts0 @ map (mark_done (Suc k) (db_now (w_db w'))) (rows_of (db_now (w_db w')) jid blocks)"
    using claim_next [OF g(7) ts0 assms(2)] by (simp add: d)
  moreover have "get_job (w_db w') jid = Some (j\<lparr>pending_count := pending_count j - 1, j_updated_at := db_now (w_db w)\<rparr>)"
    using j(1) by (simp add: d get_job_decremented)
  moreover have "get_text (w_minio w') (manuscript_key_of jid) = Inr ms"
    using get_text_cong [OF st(2), of "manuscript_key_of jid"] g(8) by simp
  moreover have "get_bytes (w_minio w') (audio_key_of (hash_of (blocks ! m))) = Inr (audio_of (hash_of (blocks ! m)))"
    if "m < Suc k" for m
    using that st(1) st(2) [of "audio_key_of (hash_of (blocks ! m))"] g(9) [of m]
    by (cases "hash_of (blocks ! m) = ?h") (auto simp: less_Suc_eq)
  ultimately have "generating u jid ms blocks ts0 cb (Suc k) w'"
    unfolding generating_def pool_ready_def using st(3) cache g(2,4-6,10,12) j br b(3,4) by simp
  moreover have "consume_one ctx i Q_TTS w = Some w'"
    using b(1) run_tts_ok [OF event_msg_body run] by (simp add: consume_one_def)
  ultimately show ?thesis by blast
qed

lemma tts_stages:
  assumes "generating u jid ms blocks ts0 cb k w" and "k \<le> length blocks"
    and "i_fault i = NoFault" and "i_uuid i = u" and "plain_keys ctx"
    and "blocks = capped (MAX_BLOCKS (settings ctx)) (split_blocks ms)"
    and "\<And>t. t \<in> set ts0 \<Longrightarrow> t_job t \<noteq> jid \<and> t_id t = task_id_of (t_job t) (block_index t)"
  shows "\<exists>w'. consume_all ctx i (replicate (length blocks - k) Q_TTS) w = Some w'
    \<and> generating u jid ms blocks ts0 cb (length blocks) w'"
  using assms(1,2)
proof (induction "length blocks - k" arbitrary: k w)
  case (Suc x)
  then have "k < length blocks" by simp
  from tts_stage [OF Suc.prems(1) this assms(3-7)] obtain w1 where
    w1: "consume_one ctx i Q_TTS w = Some w1" "generating u jid ms blocks ts0 cb (Suc k) w1" by blast
  have "x = length blocks - Suc k" "Suc k \<le> length blocks" using Suc.hyps(2) by auto
  from Suc.hyps(1) [OF this(1) w1(2) this(2)] w1(1) \<open>k < length blocks\<close> show ?case
    by (simp add: Suc_diff_Suc [symmetric])
qed auto

text \<open>A fresh job whose \<open>JobCreated\<close> is the only message.\<close>

definition submitted :: "string \<Rightarrow> string \<Rightarrow> pystr \<Rightarrow> pystr option \<Rightarrow> world \<Rightarrow> bool" where
  "submitted u jid ms cb w \<longleftrightarrow> pool_ready w \<and> task_ids_ok (w_db w)
    \<and> (\<exists>j. get_job (w_db w) jid = Some j \<and> j_status j = PENDING \<and> manuscript_key j = manuscript_key_of jid \<and> callback_url j = cb)
    \<and> (\<forall>t \<in> set (tasks (w_db w)). t_job t \<noteq> jid)
    \<and> get_text (w_minio w) (manuscript_key_of jid) = Inr ms
    \<and> msgs_in (w_broker w) Q_PARSE = [event_msg (JobCreated u jid)]
    \<and> msgs_in (w_broker w) Q_TTS = [] \<and> msgs_in (w_broker w) Q_STITCH = []"

lemma wf_parsed_db:
  assumes "wf_db d" and "task_ids_ok d" and "get_job d jid = Some j"
  shows "wf_db (parsed_db jid blocks d)"
proof -
  have "jid \<in> j_id ` set (jobs d)" using row_get_SomeD [OF assms(3)] by auto
  then have "insert_tasks (rows_of (db_now d) jid blocks) d =
      Inr (d\<lparr>tasks := tasks d @ missing_rows d (rows_of (db_now d) jid blocks)\<rparr>)"
    using assms(2) rows_of_simps(4) [of _ "db_now d" jid blocks] distinct_rows_of
    by (intro insert_tasks_eq) auto
  then show ?thesis
    unfolding parsed_db_def by (intro wf_advance wf_begin_parse wf_insert_tasks [OF assms(1)])
qed

lemma parse_stage:
  assumes "submitted u jid ms cb w" and "i_fault i = NoFault" and "i_uuid i = u"
    and "\<not> contains POISON_MARKER ms" and "PARSE_FAILURE_RATE (settings ctx) \<le> i_draw i"
  defines "blocks \<equiv> capped (MAX_BLOCKS (settings ctx)) (split_blocks ms)"
  shows "\<exists>w'. consume_one ctx i Q_PARSE w = Some w' \<and> generating u jid ms blocks (tasks (w_db w)) cb 0 w'"
proof -
  from assms(1) have g: "pool_ready w" "task_ids_ok (w_db w)" "wf_broker (w_broker w)" "bound (w_broker w) Q_TTS"
    "bound (w_broker w) Q_STITCH" "wf_db (w_db w)"
    "\<And>t. t \<in> set (tasks (w_db w)) \<Longrightarrow> t_job t \<noteq> jid"
    "get_text (w_minio w) (manuscript_key_of jid) = Inr ms"
    "msgs_in (w_broker w) Q_PARSE = event_msg (JobCreated u jid) # []"
    "msgs_in (w_broker w) Q_TTS = []" "msgs_in (w_broker w) Q_STITCH = []"
    unfolding submitted_def by (simp_all add: pool_ready_def)
  from assms(1) obtain j where j: "get_job (w_db w) jid = Some j" "j_status j = PENDING"
    "manuscript_key j = manuscript_key_of jid" "callback_url j = cb" unfolding submitted_def by blast
  obtain b where b: "take_msg Q_PARSE (w_broker w) = Some (event_msg (JobCreated u jid), b)" "wf_broker b"
    "\<And>q. bound b q = bound (w_broker w) q" "\<And>q. msgs_in b q = (if q = Q_PARSE then [] else msgs_in (w_broker w) q)"
    using take_msg_ok [OF g(3,9)] by blast
  let ?w = "w\<lparr>w_broker := b\<rparr>" and ?d = "parsed_db jid blocks (w_db w)"
  have pre: "task_ids_ok (w_db ?w)" "get_job (w_db ?w) jid = Some j"
    "get_text (w_minio ?w) (manuscript_key j) = Inr ms" using g(2,8) j by simp_all
  have bnd: "bound (w_broker (?w\<lparr>w_db := ?d\<rparr>)) (fan_out_key (length blocks))"
    using b(3) g(4,5) by (simp add: fan_out_key_def)
  obtain b' where b': "run i (fan_out jid (length blocks)) (?w\<lparr>w_db := ?d\<rparr>) = (?w\<lparr>w_db := ?d, w_broker := b'\<rparr>, Done ())"
    "wf_broker b'" "\<And>q. msgs_in b' q = msgs_in b q @ (if q = fan_out_key (length blocks) then fan_out_msgs u jid (length blocks) else [])"
    "\<And>q. bound b' q = bound b q"
    using run_fan_out [OF assms(2) _ bnd, of jid] b(2) assms(3) by auto
  let ?w' = "w\<lparr>w_db := ?d, w_broker := b'\<rparr>"
  have "run i (handle_parse ctx (JobCreated u jid)) ?w = (?w', Done ())"
    using run_handle_parse [OF assms(2) pre assms(4,5), of u] b'(1) by (simp add: blocks_def)
  then have "consume_one ctx i Q_PARSE w = Some ?w'"
    using b(1) run_parse_ok [OF event_msg_body] by (simp add: consume_one_def)
  moreover have "generating u jid ms blocks (tasks (w_db w)) cb 0 ?w'"
  proof -
    have "pool_ready ?w'"
      using g(1) b(3) b'(2,4) wf_parsed_db [OF g(6,2) j(1)] by (simp add: pool_ready_def cache_sound_def locks_free_def)
    moreover have "tasks ?d = tasks (w_db w) @ rows_of (db_now ?d) jid blocks"
      using missing_rows_all [OF g(7)] by (simp add: parsed_db_tasks)
    moreover have "get_job ?d jid = Some (j\<lparr>j_status := GENERATING, pending_count := int (length blocks), j_updated_at := db_now (w_db w)\<rparr>)"
      using j by (simp add: parsed_db_job)
    ultimately show ?thesis
      unfolding generating_def using g(8-11) j b(4) b'(3)
      by (auto simp: fan_out_key_def fan_out_msgs_def)
  qed
  ultimately show ?thesis by blast
qed

lemma stitch_stage:
  assumes "generating u jid ms blocks ts0 cb (length blocks) w" and "i_fault i = NoFault"
    and "\<And>t. t \<in> set ts0 \<Longrightarrow> t_job t \<noteq> jid" and "cb = None \<or> webhook_allowlist (settings ctx) = []"
  shows "\<exists>w' j. consume_one ctx i Q_STITCH w = Some w'
    \<and> get_job (w_db w') jid = Some j \<and> j_status j = COMPLETED \<and> pending_count j = 0
    \<and> final_key j = Some (final_key_of jid)
    \<and> get_bytes (w_minio w') (final_key_of jid) = Inr (concat (map (\<lambda>b. audio_of (hash_of b)) blocks))
    \<and> (\<forall>q. msgs_in (w_broker w') q = (if q \<in> set live_queues then [] else msgs_in (w_broker w) q))"
proof -
  let ?f = "\<lambda>key. case get_bytes (w_minio w) key of Inr x \<Rightarrow> x | Inl _ \<Rightarrow> []"
  from assms(1) have g: "wf_db (w_db w)" "BUCKET \<in> set (buckets (w_minio w))" "wf_broker (w_broker w)"
    "tasks (w_db w) = ts0 @ map (mark_done (length blocks) (db_now (w_db w))) (rows_of (db_now (w_db w)) jid blocks)"
    "\<And>m. m < length blocks \<Longrightarrow> get_bytes (w_minio w) (audio_key_of (hash_of (blocks ! m))) = Inr (audio_of (hash_of (blocks ! m)))"
    "msgs_in (w_broker w) Q_PARSE = []" "msgs_in (w_broker w) Q_TTS = []"
    "msgs_in (w_broker w) Q_STITCH = event_msg (StitchReady u jid) # []"
    unfolding generating_def pool_ready_def by simp_all
  from assms(1) obtain j where j: "get_job (w_db w) jid = Some j" "j_status j = GENERATING"
    "pending_count j = 0" "callback_url j = cb" unfolding generating_def by auto
  obtain b where b: "take_msg Q_STITCH (w_broker w) = Some (event_msg (StitchReady u jid), b)"
    "wf_broker b" "\<And>q. bound b q = bound (w_broker w) q"
    "\<And>q. msgs_in b q = (if q = Q_STITCH then [] else msgs_in (w_broker w) q)"
    using take_msg_ok [OF g(3,8)] by blast
  have keys: "chunk_keys (w_db w) jid = map (\<lambda>b. audio_key_of (hash_of b)) blocks"
    using chunk_keys_done [OF g(4) assms(3)] .
  have get: "get_bytes (w_minio w) (audio_key_of (hash_of x)) = Inr (audio_of (hash_of x))" if "x \<in> set blocks" for x
    using that g(5) by (auto simp: in_set_conv_nth)
  define w1 where "w1 = w\<lparr>w_broker := b\<rparr>"
  define v where "v = w1\<lparr>w_minio := assembled jid (concat (map ?f (chunk_keys (w_db w1) jid))) (w_minio w1),
      w_db := stitched_db jid (w_db w1)\<rparr>"
  have w1: "w_db w1 = w_db w" "w_minio w1 = w_minio w" by (simp_all add: w1_def)
  have v: "w_db v = stitched_db jid (w_db w)" "w_broker v = b"
    "w_minio v = assembled jid (concat (map ?f (chunk_keys (w_db w) jid))) (w_minio w)"
    by (simp_all add: v_def w1_def)
  obtain now where row: "get_job (w_db v) jid =
      Some (j\<lparr>j_status := COMPLETED, final_key := Some (final_key_of jid), j_updated_at := now\<rparr>)"
    using stitched_db_row [OF j(1)] j(2) unfolding v by blast
  have pre: "wf_db (w_db w1)" "get_job (w_db w1) jid = Some j" "j_status j \<in> {GENERATING, STITCHING}"
    "BUCKET \<in> set (buckets (w_minio w1))" using g(1,2) j(1,2) by (simp_all add: w1)
  have parts: "get_bytes (w_minio w1) k = Inr (?f k)" if "k \<in> set (chunk_keys (w_db w1) jid)" for k
    using that get keys by (auto simp: w1)
  have "run i (handle_stitch ctx (StitchReady u jid)) w1 = run i (notify ctx jid) v"
    unfolding v_def by (rule run_handle_stitch [OF assms(2) pre parts])
  also have "\<dots> = (v, Done ())"
    using run_notify_silent [OF assms(2) row] j(4) assms(4) by simp
  finally have "run i (make_stitch_handler ctx (event_msg (StitchReady u jid))) w1 = (v, Done Acked)"
    by (rule run_stitch_ok [OF event_msg_body])
  then have "consume_one ctx i Q_STITCH w = Some v"
    using b(1) by (simp add: consume_one_def w1_def)
  moreover have "map ?f (chunk_keys (w_db w) jid) = map (\<lambda>b. audio_of (hash_of b)) blocks"
    using keys get by simp
  then have "get_bytes (w_minio v) (final_key_of jid) = Inr (concat (map (\<lambda>b. audio_of (hash_of b)) blocks))"
    using g(2) by (simp add: v assembled_def get_bytes_def update_conv)
  moreover have "msgs_in (w_broker v) q = (if q \<in> set live_queues then [] else msgs_in (w_broker w) q)" for q
    using b(4) g(6,7) by (auto simp: v live_queues_def)
  ultimately show ?thesis using row j(3) by auto
qed

lemma gateway_stage:
  assumes "i_fault i = NoFault" and "pool_ready w" and "task_ids_ok (w_db w)"
    and "\<forall>q \<in> set live_queues. msgs_in (w_broker w) q = []"
    and "list_all scalar (manuscript body)" and "i_uuid i \<notin> j_id ` set (jobs (w_db w))"
  shows "\<exists>w1. run i (create_job body) w = (w1, Done (JobAccepted (i_uuid i)))
    \<and> submitted (i_uuid i) (i_uuid i) (manuscript body) (req_callback_url body) w1"
proof -
  let ?u = "i_uuid i"
  from assms(2) have g: "wf_db (w_db w)" "BUCKET \<in> set (buckets (w_minio w))" "wf_broker (w_broker w)"
    "bound (w_broker w) Q_PARSE" by (simp_all add: pool_ready_def)
  obtain s where s: "put_text (w_minio w) (manuscript_key_of ?u) (manuscript body) = Inr s"
    using g(2) assms(5) by (auto simp: put_text_def put_bytes_def utf8_encode_def)
  let ?j = "\<lparr>j_id = ?u, j_status = PENDING, pending_count = 0, manuscript_key = manuscript_key_of ?u,
    final_key = None, callback_url = req_callback_url body, j_created_at = db_now (w_db w), j_updated_at = db_now (w_db w)\<rparr>"
  let ?d = "(w_db w)\<lparr>jobs := jobs (w_db w) @ [?j]\<rparr>"
  have ins: "insert_job (w_db w) ?u (manuscript_key_of ?u) (req_callback_url body) = Inr ?d"
    using assms(6) by (simp add: insert_job_def)
  let ?w = "w\<lparr>w_minio := s, w_db := ?d,
    w_broker := exchange_publish (w_broker w) (event_msg (JobCreated ?u ?u)) Q_PARSE\<rparr>"
  have "run i (create_job body) w = (?w, Done (JobAccepted ?u))"
    using assms(1) s ins by (simp add: create_job_def run_simps publish_eq)
  moreover have "get_job (w_db w) ?u = None" using assms(6) by (simp add: row_get_None_iff)
  then have "get_job ?d ?u = Some ?j" by (simp add: row_get_append)
  moreover have "t_job t \<noteq> ?u" if "t \<in> set (tasks (w_db w))" for t
  proof -
    have "t_job t \<in> j_id ` set (jobs (w_db w))" using that g(1) by (simp add: wf_db_def)
    with assms(6) show ?thesis by auto
  qed
  moreover have "get_bytes s (audio_key_of h) = get_bytes (w_minio w) (audio_key_of h)" for h
    using s by (auto simp: put_text_def bind_res_Inr_iff bucket.read_write)
  then have "cache_sound ?w"
    using assms(2) by (fastforce simp: pool_ready_def cache_sound_def)
  moreover have "buckets s = buckets (w_minio w)"
    using s by (auto simp: put_text_def put_bytes_def utf8_encode_def bind_res_def split: if_splits)
  ultimately show ?thesis
    using assms(2-4) get_text_put_text [OF s] wf_insert_job [OF g(1) ins] g(3,4)
    by (intro exI [of _ ?w] conjI)
       (simp_all add: submitted_def pool_ready_def locks_free_def task_ids_ok_def live_queues_def
         amqp.wf_put amqp.bound_put amqp.contents_put)
qed

text \<open>
  C7. End to end: a job that is accepted by the gateway of an idle system and then handled by the
  stages, without faults and in the order parse, one delivery per block, stitch, is completed; its
  final object is the audio of its blocks (at most \<open>MAX_BLOCKS\<close>) in order; no message of it is left in
  a live queue. A manuscript without blocks is completed with an empty object.
\<close>

theorem end_to_end:
  assumes "i_fault i = NoFault" and "plain_keys ctx" and "pool_ready w" and "task_ids_ok (w_db w)"
    and "\<forall>q \<in> set live_queues. msgs_in (w_broker w) q = []"
    and "list_all scalar (manuscript body)" and "i_uuid i \<notin> j_id ` set (jobs (w_db w))"
    and "\<not> contains POISON_MARKER (manuscript body)" and "PARSE_FAILURE_RATE (settings ctx) \<le> i_draw i"
    and "req_callback_url body = None \<or> webhook_allowlist (settings ctx) = []"
    and "blocks = capped (MAX_BLOCKS (settings ctx)) (split_blocks (manuscript body))"
  shows "\<exists>w1 w2 j. run i (create_job body) w = (w1, Done (JobAccepted (i_uuid i)))
    \<and> consume_all ctx i ([Q_PARSE] @ replicate (length blocks) Q_TTS @ [Q_STITCH]) w1 = Some w2
    \<and> get_job (w_db w2) (i_uuid i) = Some j \<and> j_status j = COMPLETED \<and> pending_count j = 0
    \<and> final_key j = Some (final_key_of (i_uuid i))
    \<and> get_bytes (w_minio w2) (final_key_of (i_uuid i)) = Inr (concat (map (\<lambda>b. audio_of (hash_of b)) blocks))
    \<and> (\<forall>q \<in> set live_queues. msgs_in (w_broker w2) q = [])"
proof -
  let ?u = "i_uuid i"
  obtain w1 where w1: "run i (create_job body) w = (w1, Done (JobAccepted ?u))"
    "submitted ?u ?u (manuscript body) (req_callback_url body) w1"
    using gateway_stage [OF assms(1,3-7)] by blast
  have ts: "t_job t \<noteq> ?u \<and> t_id t = task_id_of (t_job t) (block_index t)" if "t \<in> set (tasks (w_db w1))" for t
    using that w1(2) by (auto simp: submitted_def task_ids_ok_def)
  from parse_stage [OF w1(2) assms(1) HOL.refl assms(8,9)] obtain w2 where
    w2: "consume_one ctx i Q_PARSE w1 = Some w2"
    "generating ?u ?u (manuscript body) blocks (tasks (w_db w1)) (req_callback_url body) 0 w2"
    using assms(11) by blast
  from tts_stages [OF w2(2) _ assms(1) HOL.refl assms(2,11) ts] obtain w3 where
    w3: "consume_all ctx i (replicate (length blocks) Q_TTS) w2 = Some w3"
    "generating ?u ?u (manuscript body) blocks (tasks (w_db w1)) (req_callback_url body) (length blocks) w3"
    by auto
  from stitch_stage [OF w3(2) assms(1) _ assms(10)] ts show ?thesis
    using w1(1) w2(1) w3(1) by (auto simp: consume_all_append)
qed

lemma example_pool_ready: "pool_ready example_world" "task_ids_ok (w_db example_world)" "locks_free example_world"
  using example_db_ok(1) example_minio_ok(2) ready_broker_ok example_task_ids
  by (simp_all add: pool_ready_def cache_sound_def locks_free_def)

theorem end_to_end_witness:
  "\<exists>w1 w2 j. run calm (create_job \<lparr>manuscript = [97, 10, 10, 98], req_callback_url = None\<rparr>) example_world =
        (w1, Done (JobAccepted ''u''))
    \<and> consume_all example_context calm [Q_PARSE, Q_TTS, Q_TTS, Q_STITCH] w1 = Some w2
    \<and> get_job (w_db w2) ''u'' = Some j \<and> j_status j = COMPLETED"
proof -
  have u: "i_uuid calm = ''u''" by (simp add: calm_def)
  let ?body = "\<lparr>manuscript = [97, 10, 10, 98], req_callback_url = None\<rparr>"
  have "i_uuid calm \<notin> j_id ` set (jobs (w_db example_world))" by (simp add: u example_db_def)
  from end_to_end [OF calm_simps(1) example_plain example_pool_ready(1,2) _ _ this, of ?body "[[97], [98]]"]
    ready_broker_ok example_not_poison example_rate example_capped
  show ?thesis by (simp add: u scalar_def) blast
qed

section \<open>Starting up\<close>

lemma ensure_slots_get:
  "redis_get (ensure_slots sem r) x =
    (if redis_get r (init_marker sem) \<noteq> None then redis_get r x
     else if x = init_marker sem then Some ''1'' else if x = slots_key sem then None else redis_get r x)"
proof -
  have "redis_get (fold (\<lambda>tok r. redis_rpush r k tok) ts s) x = redis_get s x" for k ts s
    by (induction ts arbitrary: s) simp_all
  then show ?thesis by (simp add: ensure_slots_def Let_def redis_get_put)
qed

lemma ensure_slots_pool:
  "r_list (ensure_slots sem r) (slots_key sem) =
    (if redis_get r (init_marker sem) \<noteq> None then r_list r (slots_key sem) else pool_tokens sem)"
  by (simp add: ensure_slots_def Let_def fold_rpush_list)

lemma marker_families [simp]: "cache_key h \<noteq> init_marker sem" "inflight_key h \<noteq> init_marker sem"
  if "slots_key sem = SLOTS_KEY"
  using that by (simp_all add: init_marker_def)

lemma run_gateway_startup:
  assumes "i_fault i = NoFault" and "wf_broker (w_broker w)"
  shows "\<exists>b. run i gateway_startup w = (w\<lparr>w_broker := b, w_minio := ensure_bucket (w_minio w)\<rparr>, Done ())
    \<and> wf_broker b \<and> (\<forall>l \<in> set live_queues. bound b l) \<and> (\<forall>q. msgs_in b q = msgs_in (w_broker w) q)"
proof -
  have "\<forall>d \<in> set DEFAULT_RETRY_DELAYS. 0 \<le> d" by (simp add: DEFAULT_RETRY_DELAYS_def)
  from declare_full_ok [OF assms(2) this] assms(1) show ?thesis
    by (auto simp: gateway_startup_def run_simps)
qed

lemma run_build_context:
  assumes "i_fault i = NoFault" and "wf_broker (w_broker w)" and "retry_delays s = Inr ds" and "\<forall>d \<in> set ds. 0 \<le> d"
  shows "\<exists>b. run i (build_context s wid) w =
      (w\<lparr>w_broker := b, w_redis := ensure_slots (semaphore (context_of s wid)) (w_redis w),
         w_minio := ensure_bucket (w_minio w)\<rparr>, Done (context_of s wid))
    \<and> wf_broker b \<and> bound b Q_DLQ
    \<and> (\<forall>l \<in> set live_queues. bound b l \<and> (\<forall>d \<in> set ds. bound b (retry_q_name l d)))
    \<and> (\<forall>q. msgs_in b q = msgs_in (w_broker w) q)"
  using declare_full_ok [OF assms(2,4)] assms(1,3)
  by (auto simp: build_context_def run_simps Let_def)

text \<open>
  C36. Booting on empty services: after the start of the gateway and of a worker the system is ready
  to take jobs, with the whole topology of the worker's delays declared and exactly the configured
  number of tokens in the pool; a second worker that boots on it adds no token and keeps every
  message.
\<close>

theorem boot_ready:
  assumes "i_fault i = NoFault" and "retry_delays s = Inr ds" and "\<forall>d \<in> set ds. 0 \<le> d"
    and "0 < TTS_CONCURRENCY s"
  shows "\<exists>w1 w2 w3. run i gateway_startup empty_world = (w1, Done ())
    \<and> run i (build_context s wid) w1 = (w2, Done (context_of s wid)) \<and> pool_ready w2
    \<and> length (r_list (w_redis w2) SLOTS_KEY) = nat (TTS_CONCURRENCY s)
    \<and> bound (w_broker w2) Q_DLQ
    \<and> (\<forall>l \<in> set live_queues. msgs_in (w_broker w2) l = [] \<and> (\<forall>d \<in> set ds. bound (w_broker w2) (retry_q_name l d)))
    \<and> run i (build_context s wid') w2 = (w3, Done (context_of s wid'))
    \<and> w_redis w3 = w_redis w2 \<and> (\<forall>q. msgs_in (w_broker w3) q = msgs_in (w_broker w2) q)"
proof -
  let ?sem = "semaphore (context_of s wid)"
  have sem: "slots_key ?sem = SLOTS_KEY" "semaphore (context_of s wid') = ?sem" "slots ?sem = TTS_CONCURRENCY s"
    by (simp_all add: context_of_def)
  have empty: "msgs_in (w_broker empty_world) q = []" "redis_get (w_redis empty_world) k = None" for q k
    by (simp_all add: empty_world_def msgs_in_def empty_broker_def redis_get_def empty_redis_def)
  have "wf_broker (w_broker empty_world)" using wf_empty_broker by (simp add: empty_world_def)
  from run_gateway_startup [OF assms(1) this] obtain b1 where
    b1: "run i gateway_startup empty_world = (empty_world\<lparr>w_broker := b1, w_minio := ensure_bucket (w_minio empty_world)\<rparr>, Done ())"
    "wf_broker b1" "\<And>q. msgs_in b1 q = []" using empty by auto
  let ?w1 = "empty_world\<lparr>w_broker := b1, w_minio := ensure_bucket (w_minio empty_world)\<rparr>"
  have "wf_broker (w_broker ?w1)" using b1 by simp
  from run_build_context [OF assms(1) this assms(2,3), of wid] b1(3) obtain b2 where
    b2: "run i (build_context s wid) ?w1 =
      (?w1\<lparr>w_broker := b2, w_redis := ensure_slots ?sem (w_redis ?w1), w_minio := ensure_bucket (w_minio ?w1)\<rparr>, Done (context_of s wid))"
    "wf_broker b2" "bound b2 Q_DLQ" "\<And>l. l \<in> set live_queues \<Longrightarrow> bound b2 l"
    "\<And>l d. l \<in> set live_queues \<Longrightarrow> d \<in> set ds \<Longrightarrow> bound b2 (retry_q_name l d)" "\<And>q. msgs_in b2 q = []"
    by auto
  define w2 where "w2 = ?w1\<lparr>w_broker := b2, w_redis := ensure_slots ?sem (w_redis ?w1), w_minio := ensure_bucket (w_minio ?w1)\<rparr>"
  have w2: "w_broker w2 = b2" "w_redis w2 = ensure_slots ?sem (w_redis empty_world)" "w_db w2 = empty_db"
    "BUCKET \<in> set (buckets (w_minio w2))"
    by (simp_all add: w2_def empty_world_def ensure_bucket_def)
  have get: "redis_get (w_redis w2) k = (if k = init_marker ?sem then Some ''1'' else None)" for k
    using empty(2) by (simp add: w2 ensure_slots_get)
  have pool: "r_list (w_redis w2) SLOTS_KEY = pool_tokens ?sem"
    using ensure_slots_pool [of ?sem "w_redis empty_world"] empty(2) sem(1) by (simp add: w2)
  have "pool_ready w2"
    using b2 w2 pool assms(4) get sem
    by (simp add: pool_ready_def cache_sound_def locks_free_def live_queues_def wf_db_def empty_db_def pool_tokens_def)
  moreover from run_build_context [OF assms(1) _ assms(2,3), of w2 wid'] b2(2) w2(1) obtain b3 where
    "run i (build_context s wid') w2 =
      (w2\<lparr>w_broker := b3, w_redis := ensure_slots ?sem (w_redis w2), w_minio := ensure_bucket (w_minio w2)\<rparr>, Done (context_of s wid'))"
    "\<And>q. msgs_in b3 q = msgs_in b2 q" using sem(2) by auto
  moreover have "ensure_slots ?sem (w_redis w2) = w_redis w2" using get by (simp add: ensure_slots_def)
  ultimately show ?thesis
    using b1(1) b2 [folded w2_def] pool sem(3) w2(1)
    by (intro exI [of _ ?w1] exI [of _ w2] exI) (auto simp: pool_tokens_def)
qed

theorem boot_ready_witness:
  "\<exists>w1 w2. run calm gateway_startup empty_world = (w1, Done ())
    \<and> run calm (build_context default_settings ''w'') w1 = (w2, Done (context_of default_settings ''w''))
    \<and> pool_ready w2 \<and> length (r_list (w_redis w2) SLOTS_KEY) = 3"
proof -
  have "TTS_CONCURRENCY default_settings = 3" by (simp add: default_settings_def)
  with boot_ready [OF calm_simps(1) default_retry_delays, of "''w''" "''v''"] show ?thesis
    by auto
qed

end
