(* ===== verification/Retry_Ladder.thy ===== *)
theory Retry_Ladder
  imports End_To_End
begin

text \<open>
  The path of a message that always fails: delivery, delay queue, expiry back to the live queue,
  and after the last retry the dead-letter queue and its resolver. The worked case is the poison
  manuscript of \<open>core/domain/vendor.py\<close>.
\<close>

section \<open>Schedules with expiry\<close>

text \<open>What happens next: a delivery of a queue, or the expiry of the head of a delay queue.\<close>

datatype happening = Deliver string | Expire string

fun happen :: "WorkerContext \<Rightarrow> inp \<Rightarrow> happening \<Rightarrow> world \<Rightarrow> world option" where
  "happen ctx i (Deliver q) w = consume_one ctx i q w"
| "happen ctx i (Expire q) w = map_option (\<lambda>b. w\<lparr>w_broker := b\<rparr>) (expire_head (w_broker w) q)"

fun run_schedule :: "WorkerContext \<Rightarrow> inp \<Rightarrow> happening list \<Rightarrow> world \<Rightarrow> world option" where
  "run_schedule ctx i [] w = Some w"
| "run_schedule ctx i (h # hs) w =
    (case happen ctx i h w of None \<Rightarrow> None | Some w' \<Rightarrow> run_schedule ctx i hs w')"

lemma run_schedule_append:
  "run_schedule ctx i (hs @ hs') w =
    (case run_schedule ctx i hs w of None \<Rightarrow> None | Some w' \<Rightarrow> run_schedule ctx i hs' w')"
  by (induction hs arbitrary: w) (simp_all split: option.split)

section \<open>A manuscript that never parses\<close>

lemma run_parse_poison:
  assumes "i_fault i = NoFault" and "m_body m = model_dump_json (JobCreated e jid)"
    and "get_job (w_db w) jid = Some j" and "get_text (w_minio w) (manuscript_key j) = Inr ms"
    and "contains POISON_MARKER ms" and "retry_delays (settings ctx) = Inr ds"
    and "route_retry_or_dlq (w_broker w) m Q_PARSE (MAX_RETRIES (settings ctx)) ds = Inr b"
  shows "run i (make_parse_handler ctx m) w = (w\<lparr>w_broker := b\<rparr>, Done Acked)"
proof -
  have "run i (handle_parse ctx (JobCreated e jid)) w = (w, Exn VendorError)"
    using assms(1,3-5) by (simp add: handle_parse_def run_simps load_manuscript_key_def simulate_parse_def Let_def)
  then have "run i (pbind (ask i_uuid) (\<lambda>u. pbind (plift (validate_JobCreated u (m_body m))) (handle_parse ctx))) w =
      (w, Exn VendorError)"
    by (simp add: run_simps assms(2))
  then show ?thesis
    unfolding make_parse_handler_def using assms(6,7)
    by (intro run_ack_last_failed [OF assms(1)]) (auto simp: is_poison_def)
qed

text \<open>The message of the job is on its way: it is in \<open>Q_PARSE\<close> with its count, and nowhere else.\<close>

definition retrying :: "int list \<Rightarrow> event \<Rightarrow> int \<Rightarrow> broker \<Rightarrow> bool" where
  "retrying ds e c b \<longleftrightarrow> wf_broker b \<and> bound b Q_PARSE \<and> bound b Q_DLQ
    \<and> (\<forall>d \<in> set ds. bound b (retry_q_name Q_PARSE d))
    \<and> (\<exists>m. m_body m = model_dump_json e \<and> get_retry_count m = Inr c
        \<and> (\<forall>q. msgs_in b q = (if q = Q_PARSE then [m] else [])))"

definition delay_of :: "int list \<Rightarrow> nat \<Rightarrow> int" where
  "delay_of ds c = ds ! min c (length ds - 1)"

lemma delay_of_in: "ds \<noteq> [] \<Longrightarrow> delay_of ds c \<in> set ds"
  unfolding delay_of_def by (rule nth_mem) (cases ds; auto simp: min_def)

lemma retried_body [simp]: "m_body (retried_msg m c) = m_body m"
  by (simp add: retried_msg_def)

lemma expire_head_ok:
  assumes "wf_broker b" and "msgs_in b (retry_q_name l d) = [m]" and "l \<in> set live_queues" and "bound b l"
  shows "\<exists>b'. expire_head b (retry_q_name l d) = Some b' \<and> wf_broker b' \<and> (\<forall>k. bound b' k = bound b k)
    \<and> (\<forall>q. msgs_in b' q = (if q = retry_q_name l d then [] else if q = l then msgs_in b l @ [m] else msgs_in b q))"
proof -
  obtain qu where qu: "b_queues b (retry_q_name l d) = Some qu" "q_msgs qu = [m]"
    using assms(2) by (auto simp: msgs_in_def split: option.splits)
  have live: "retry_q_name l d \<notin> set (Q_DLQ # live_queues)"
    by (simp add: live_queues_def retry_q_name_not_live)
  have args: "queue_args_ok (retry_q_name l d) qu" using assms(1) qu(1) by (auto simp: wf_broker_def)
  then obtain l' where "l' \<in> set live_queues" "q_dlx qu = Some (EXCHANGE, l')"
      "\<exists>d'. retry_q_name l d = retry_q_name l' d'"
    using live by (auto simp: queue_args_ok_def)
  then have dlx: "q_dlx qu = Some (EXCHANGE, l)" using retry_q_name_inj assms(3) by blast
  let ?b = "b\<lparr>b_queues := (b_queues b)(retry_q_name l d := Some (qu\<lparr>q_msgs := []\<rparr>))\<rparr>"
  have wf: "wf_broker ?b" using assms(1) args by (auto simp: wf_broker_def queue_args_ok_def)
  have "bound ?b k = bound b k" for k by (simp add: bound_def)
  moreover have "msgs_in ?b q = (if q = retry_q_name l d then [] else msgs_in b q)" for q by (simp add: msgs_in_def)
  moreover have "retry_q_name l d \<noteq> l" using live assms(3) by auto
  ultimately show ?thesis
    using qu dlx wf assms(4)
    by (intro exI [of _ "exchange_publish ?b m l"])
       (simp add: expire_head_def amqp.wf_put amqp.bound_put amqp.contents_put)
qed

lemma poison_delivery:
  assumes "retrying ds (JobCreated e jid) c b0" and "i_fault i = NoFault" and "get_job (w_db w) jid = Some j"
    and "get_text (w_minio w) (manuscript_key j) = Inr ms" and "contains POISON_MARKER ms"
    and "retry_delays (settings ctx) = Inr ds" and "ds \<noteq> []" and "0 \<le> c"
  defines "target \<equiv> (if c < MAX_RETRIES (settings ctx) then retry_q_name Q_PARSE (delay_of ds (nat c)) else Q_DLQ)"
  shows "\<exists>b m. consume_one ctx i Q_PARSE (w\<lparr>w_broker := b0\<rparr>) = Some (w\<lparr>w_broker := b\<rparr>) \<and> wf_broker b
    \<and> (\<forall>k. bound b k = bound b0 k) \<and> m_body m = model_dump_json (JobCreated e jid) \<and> get_retry_count m = Inr (c + 1)
    \<and> (\<forall>q. msgs_in b q = (if q = target then [m] else []))"
proof -
  from assms(1) obtain m where
    b0: "wf_broker b0" "bound b0 Q_DLQ" "\<And>d. d \<in> set ds \<Longrightarrow> bound b0 (retry_q_name Q_PARSE d)" and
    m: "m_body m = model_dump_json (JobCreated e jid)" "get_retry_count m = Inr c"
      "\<And>q. msgs_in b0 q = (if q = Q_PARSE then [m] else [])"
    unfolding retrying_def by auto
  have "msgs_in b0 Q_PARSE = m # []" using m(3) by simp
  from take_msg_ok [OF b0(1) this] obtain b where b: "take_msg Q_PARSE b0 = Some (m, b)" "wf_broker b"
    "\<And>q. bound b q = bound b0 q" "\<And>q. msgs_in b q = (if q = Q_PARSE then [] else msgs_in b0 q)"
    by blast
  have tb: "bound b target" "target \<noteq> Q_PARSE"
    using b0(2,3) delay_of_in [OF assms(7)] b(3) by (simp_all add: target_def)
  let ?b1 = "exchange_publish b (retried_msg m (c + 1)) target"
  have route: "route_retry_or_dlq b m Q_PARSE (MAX_RETRIES (settings ctx)) ds = Inr ?b1"
    using route_retry [OF m(2) assms(8) _ assms(7)] route_dlq [OF m(2)] by (simp add: delay_of_def target_def)
  have "run i (make_parse_handler ctx m) (w\<lparr>w_broker := b\<rparr>) = (w\<lparr>w_broker := ?b1\<rparr>, Done Acked)"
    using run_parse_poison [OF assms(2) m(1) _ _ assms(5,6), of "w\<lparr>w_broker := b\<rparr>"] assms(3,4) route by simp
  then have "consume_one ctx i Q_PARSE (w\<lparr>w_broker := b0\<rparr>) = Some (w\<lparr>w_broker := ?b1\<rparr>)"
    using b(1) by (simp add: consume_one_def)
  then show ?thesis
    using b tb m
    by (intro exI [of _ ?b1] exI [of _ "retried_msg m (c + 1)"])
       (simp add: amqp.wf_put amqp.bound_put amqp.contents_put)
qed

definition poison_rounds :: "int list \<Rightarrow> nat \<Rightarrow> happening list" where
  "poison_rounds ds n = concat (map (\<lambda>c. [Deliver Q_PARSE, Expire (retry_q_name Q_PARSE (delay_of ds c))]) [0..<n])"

lemma poison_ladder:
  assumes "retrying ds (JobCreated e jid) 0 b0" and "int n \<le> MAX_RETRIES (settings ctx)"
    and "i_fault i = NoFault" and "get_job (w_db w) jid = Some j"
    and "get_text (w_minio w) (manuscript_key j) = Inr ms" and "contains POISON_MARKER ms"
    and "retry_delays (settings ctx) = Inr ds" and "ds \<noteq> []"
  shows "\<exists>b. run_schedule ctx i (poison_rounds ds n) (w\<lparr>w_broker := b0\<rparr>) = Some (w\<lparr>w_broker := b\<rparr>)
    \<and> retrying ds (JobCreated e jid) (int n) b"
  using assms(2)
proof (induction n)
  case 0
  then show ?case using assms(1) by (auto simp: poison_rounds_def)
next
  case (Suc n)
  then obtain b where b: "run_schedule ctx i (poison_rounds ds n) (w\<lparr>w_broker := b0\<rparr>) = Some (w\<lparr>w_broker := b\<rparr>)"
    "retrying ds (JobCreated e jid) (int n) b" by auto
  let ?r = "retry_q_name Q_PARSE (delay_of ds n)"
  have "int n < MAX_RETRIES (settings ctx)" using Suc.prems by simp
  with poison_delivery [OF b(2) assms(3-8)] obtain b1 m where
    b1: "consume_one ctx i Q_PARSE (w\<lparr>w_broker := b\<rparr>) = Some (w\<lparr>w_broker := b1\<rparr>)" "wf_broker b1"
    "\<And>k. bound b1 k = bound b k" "m_body m = model_dump_json (JobCreated e jid)" "get_retry_count m = Inr (int n + 1)"
    "\<And>q. msgs_in b1 q = (if q = ?r then [m] else [])" by auto
  have pq: "Q_PARSE \<in> set live_queues" "bound b1 Q_PARSE" "msgs_in b1 ?r = [m]"
    using b(2) b1(3,6) by (simp_all add: live_queues_def retrying_def)
  from expire_head_ok [OF b1(2) pq(3,1,2)] b1(3,6) obtain b2 where
    b2: "expire_head b1 ?r = Some b2" "wf_broker b2" "\<And>k. bound b2 k = bound b k"
    "\<And>q. msgs_in b2 q = (if q = Q_PARSE then [m] else [])" by auto
  have "retrying ds (JobCreated e jid) (int (Suc n)) b2"
    using b(2) b2 b1(4,5) by (auto simp: retrying_def algebra_simps)
  moreover have "poison_rounds ds (Suc n) = poison_rounds ds n @ [Deliver Q_PARSE, Expire ?r]"
    by (simp add: poison_rounds_def)
  ultimately show ?case using b(1) b1(1) b2(1) by (intro exI [of _ b2]) (simp add: run_schedule_append)
qed

text \<open>
  C11. A manuscript that never parses is executed exactly \<open>1 + MAX_RETRIES\<close> times, with the configured
  delays in between, then dead-lettered; the resolver then fails the job. No task row is written, no
  other message is published, and no message of the job is left anywhere. (The text of the vendor
  module speaks of failing after three attempts: with the default settings there are four.)
\<close>

theorem poison_manuscript_fails:
  assumes "i_fault i = NoFault" and "retry_delays (settings ctx) = Inr ds" and "ds \<noteq> []"
    and "0 \<le> MAX_RETRIES (settings ctx)"
    and "wf_broker (w_broker w)" and "bound (w_broker w) Q_PARSE" and "bound (w_broker w) Q_DLQ"
    and "\<forall>d \<in> set ds. bound (w_broker w) (retry_q_name Q_PARSE d)"
    and "\<forall>q. msgs_in (w_broker w) q = (if q = Q_PARSE then [event_msg (JobCreated e jid)] else [])"
    and "get_job (w_db w) jid = Some j" and "\<not> terminal (j_status j)"
    and "get_text (w_minio w) (manuscript_key j) = Inr ms" and "contains POISON_MARKER ms"
  shows "\<exists>d b. run_schedule ctx i
        (poison_rounds ds (nat (MAX_RETRIES (settings ctx))) @ [Deliver Q_PARSE, Deliver Q_DLQ]) w =
        Some (w\<lparr>w_db := d, w_broker := b\<rparr>)
    \<and> map_option j_status (get_job d jid) = Some FAILED \<and> tasks d = tasks (w_db w) \<and> (\<forall>q. msgs_in b q = [])"
proof -
  let ?n = "nat (MAX_RETRIES (settings ctx))"
  have "retrying ds (JobCreated e jid) 0 (w_broker w)"
    using assms(5-9) by (auto simp: retrying_def event_msg_def get_retry_count_def)
  from poison_ladder [OF this _ assms(1,10,12,13,2,3), of ?n] assms(4) obtain b1 where
    b1: "run_schedule ctx i (poison_rounds ds ?n) w = Some (w\<lparr>w_broker := b1\<rparr>)"
    "retrying ds (JobCreated e jid) (MAX_RETRIES (settings ctx)) b1" by auto
  from poison_delivery [OF b1(2) assms(1,10,12,13,2,3,4)] obtain b2 m where
    b2: "consume_one ctx i Q_PARSE (w\<lparr>w_broker := b1\<rparr>) = Some (w\<lparr>w_broker := b2\<rparr>)" "wf_broker b2"
    "m_body m = model_dump_json (JobCreated e jid)" "\<And>q. msgs_in b2 q = (if q = Q_DLQ then [m] else [])" by auto
  have "msgs_in b2 Q_DLQ = m # []" using b2(4) by simp
  from take_msg_ok [OF b2(2) this] obtain b3 where b3: "take_msg Q_DLQ b2 = Some (m, b3)" "wf_broker b3"
    "\<And>q. bound b3 q = bound b2 q" "\<And>q. msgs_in b3 q = (if q = Q_DLQ then [] else msgs_in b2 q)" by blast
  let ?d = "fst (advance_status (w_db w) jid FAILED)"
  have body: "m_body m = model_dump_json (JobCreated e jid) \<or> m_body m = model_dump_json (StitchReady e jid)"
    using b2(3) by simp
  have "run i (make_dlq_handler ctx m) (w\<lparr>w_broker := b3\<rparr>) = (w\<lparr>w_broker := b3, w_db := ?d\<rparr>, Done Acked)"
    using assms(1) by (simp add: make_dlq_handler_def handle_dlq_job [OF body] run_simps dlq_fail_job_def split_beta)
  then have "consume_one ctx i Q_DLQ (w\<lparr>w_broker := b2\<rparr>) = Some (w\<lparr>w_db := ?d, w_broker := b3\<rparr>)"
    using b3(1) by (simp add: consume_one_def)
  moreover have "map_option j_status (get_job ?d jid) = Some FAILED"
    using assms(10,11) by (cases "j_status j") (simp_all add: advance_job can_transition_iff terminal_def)
  moreover have "\<forall>q. msgs_in b3 q = []" using b3(4) b2(4) by simp
  ultimately show ?thesis
    using b1(1) b2(1) by (intro exI [of _ ?d] exI [of _ b3]) (simp add: run_schedule_append)
qed

lemma ready_broker_delays: "d \<in> {1, 4, 16} \<Longrightarrow> bound ready_broker (retry_q_name Q_PARSE d)"
proof -
  assume d: "d \<in> {1, 4, 16}"
  have "\<forall>d \<in> set DEFAULT_RETRY_DELAYS. 0 \<le> d" by (simp add: DEFAULT_RETRY_DELAYS_def)
  from empty_declared [OF this] obtain b where "declare_full DEFAULT_RETRY_DELAYS empty_broker = Inr b"
    "\<forall>l \<in> set live_queues. \<forall>d \<in> set DEFAULT_RETRY_DELAYS. bound b (retry_q_name l d)" by blast
  with d show ?thesis by (auto simp: ready_broker_def live_queues_def DEFAULT_RETRY_DELAYS_def)
qed

definition poison_world :: world where
  "poison_world = example_world\<lparr>w_db := example_pending,
     w_minio := (case put_text (ensure_bucket empty_minio) ''raw/j.txt'' POISON_MARKER of Inr s \<Rightarrow> s | Inl _ \<Rightarrow> empty_minio),
     w_broker := exchange_publish ready_broker (event_msg (JobCreated ''e'' ''j'')) Q_PARSE\<rparr>"

lemma poison_world_text: "get_text (w_minio poison_world) ''raw/j.txt'' = Inr POISON_MARKER"
proof -
  have "list_all scalar POISON_MARKER" by (simp add: POISON_MARKER_def scalar_def)
  then obtain s where "put_text (ensure_bucket empty_minio) ''raw/j.txt'' POISON_MARKER = Inr s"
    using put_text_ensured by blast
  then show ?thesis by (simp add: poison_world_def get_text_put_text)
qed

theorem poison_manuscript_fails_witness:
  "\<exists>w'. run_schedule example_context calm
      [Deliver Q_PARSE, Expire (retry_q_name Q_PARSE 1), Deliver Q_PARSE, Expire (retry_q_name Q_PARSE 4),
       Deliver Q_PARSE, Expire (retry_q_name Q_PARSE 16), Deliver Q_PARSE, Deliver Q_DLQ] poison_world = Some w'
    \<and> map_option j_status (get_job (w_db w') ''j'') = Some FAILED"
proof -
  obtain j where j: "get_job (w_db poison_world) ''j'' = Some j" "j_status j = PENDING" "manuscript_key j = ''raw/j.txt''"
    using example_pending_ok(3) by (auto simp: poison_world_def)
  have set: "retry_delays (settings example_context) = Inr [1, 4, 16]" "MAX_RETRIES (settings example_context) = 3"
    using default_retry_delays by (simp_all add: example_context_def default_settings_def)
  have br: "wf_broker (w_broker poison_world)" "bound (w_broker poison_world) Q_PARSE" "bound (w_broker poison_world) Q_DLQ"
    "\<forall>d \<in> set [1, 4, 16]. bound (w_broker poison_world) (retry_q_name Q_PARSE d)"
    "\<forall>q. msgs_in (w_broker poison_world) q = (if q = Q_PARSE then [event_msg (JobCreated ''e'' ''j'')] else [])"
    using ready_broker_ok ready_broker_delays
    by (simp_all add: poison_world_def amqp.wf_put amqp.bound_put amqp.contents_put)
  have "contains POISON_MARKER POISON_MARKER" unfolding contains_iff by (metis append_Nil append_Nil2)
  moreover have "[0..<3] = [0, 1, 2 :: nat]" by (simp add: upt_rec)
  then have "poison_rounds [1, 4, 16] 3 =
      [Deliver Q_PARSE, Expire (retry_q_name Q_PARSE 1), Deliver Q_PARSE, Expire (retry_q_name Q_PARSE 4),
       Deliver Q_PARSE, Expire (retry_q_name Q_PARSE 16)]"
    by (simp add: poison_rounds_def delay_of_def)
  ultimately show ?thesis
    using poison_manuscript_fails [OF calm_simps(1) set(1) _ _ br j(1), of POISON_MARKER] j(2,3) set(2) poison_world_text
    by (auto simp: terminal_def simp del: run_schedule.simps)
qed

end
