(* ===== verification/System.thy ===== *)
theory System
  imports Retry_Ladder
begin

text \<open>
  The whole system: consumers with their deliveries in hand, requests and loops beside them, and
  the environment (expiry of delays, time, crashes of workers, loss of the Redis data), as one step
  relation in which every atomic step of every program may come next. A relation between databases
  that every transaction of the program satisfies (the locale \<open>query_relation\<close>) holds of every step of
  the system; the statuses of the jobs are one instance.
\<close>

section \<open>Relations on the database\<close>

text \<open>
  A relation between worlds that looks at the database only; the adapters of the other services
  keep it.
\<close>

definition on_db :: "(db \<Rightarrow> db \<Rightarrow> bool) \<Rightarrow> world \<Rightarrow> world \<Rightarrow> bool" where
  "on_db D w w' \<longleftrightarrow> D (w_db w) (w_db w')"

locale db_relation =
  fixes D :: "db \<Rightarrow> db \<Rightarrow> bool"
  assumes D_refl: "D d d"
begin

lemma on_db_same: "w_db w' = w_db w \<Longrightarrow> on_db D w w'"
  by (simp add: on_db_def D_refl)

lemma steps_transaction: "(\<And>d. D d (fst (t d))) \<Longrightarrow> all_steps (on_db D) (transaction t)"
  by (rule all_steps_transaction) (simp_all add: on_db_def D_refl)

lemma steps_read_db: "all_steps (on_db D) (read_db q)"
  unfolding read_db_def by (rule steps_transaction) (simp add: D_refl)

lemma steps_adapters:
  "all_steps (on_db D) (redis_cmd c)" "all_steps (on_db D) (minio_put c2)" "all_steps (on_db D) (minio_get c3)"
  "all_steps (on_db D) (broker_put c4)" "all_steps (on_db D) (ask g)" "all_steps (on_db D) pskip"
  "all_steps (on_db D) (publish_event ev key)" "all_steps (on_db D) (stop_heartbeat ctx token)"
  by (simp_all add: publish_event_def all_steps_redis_cmd all_steps_minio_put all_steps_minio_get
      all_steps_broker_put all_steps_ask all_steps_pskip on_db_same stop_heartbeat_def all_steps_Step)

lemma steps_local: "(\<And>w. w_db (f w) = w_db w) \<Longrightarrow> all_steps (on_db D) (local_step f)"
  by (rule all_steps_local_step) (rule on_db_same)

lemma steps_acquire: "all_steps (on_db D) (sem_acquire ctx owner)"
  unfolding sem_acquire_def
  by (intro all_steps_pbind all_steps_blocking steps_adapters steps_local)
     (auto simp: on_db_same start_heartbeat_def)

lemma steps_slot: "all_steps (on_db D) p \<Longrightarrow> all_steps (on_db D) (slot ctx owner p)"
  unfolding slot_def sem_release_def
  by (intro all_steps_pbind all_steps_pfinally steps_acquire steps_adapters)

lemma steps_wait: "all_steps (on_db D) (wait_for_cache ctx h n)"
  by (induction n) (auto simp: do_cache_get_def intro!: all_steps_pbind steps_adapters split: option.split)

lemma steps_fan_out: "all_steps (on_db D) (fan_out jid n)"
  unfolding fan_out_def by (simp add: steps_adapters all_steps_pfor)

lemma steps_route: "all_steps (on_db D) (route_failed ctx q m e)"
  unfolding route_failed_def by (intro all_steps_pbind all_steps_plift steps_adapters)

lemma steps_ack_last: "all_steps (on_db D) (work m) \<Longrightarrow> all_steps (on_db D) (ack_last ctx q work m)"
  unfolding ack_last_def
  by (intro all_steps_pbind all_steps_ptry) (auto intro!: all_steps_pbind steps_route split: sum.split)

end

section \<open>Programs that run beside the consumers\<close>

text \<open>Requests, passes of the sweeper and of the maintenance loops, and further starts of services.\<close>

inductive background :: "Settings \<Rightarrow> unit action \<Rightarrow> bool" for st where
  request: "background st (pbind (serve st rq) (\<lambda>_. Ret ()))"
| sweeper: "background st (sweeper_pass (PENDING_TIMEOUT_S st) (PROCESSED_EVENTS_RETENTION_S st))"
| reseeder: "background st (reseed_pass (context_of st wid))"
| reaper: "background st (reap_pass (context_of st wid))"
| boot: "background st (pbind (build_context st wid) (\<lambda>_. Ret ()))"
| gateway: "background st gateway_startup"

text \<open>What each transaction of the program does to the database, as an interface.\<close>

locale query_relation = db_relation +
  assumes D_complete: "D d (fst (complete_task_and_decrement d jid tid key))"
    and D_fail: "D d (fst (fail_task_and_decrement d jid tid))"
    and D_parse: "D d (fst (parse_transaction jid blocks d))"
    and D_advance: "D d (fst (advance_status d jid target))"
    and D_finalize: "D d (fst (finalize_job d jid key))"
    and D_insert: "insert_job d jid key cb = Inr d' \<Longrightarrow> D d d'"
    and D_purge: "D d (fst (purge_processed_events d retention))"
    and D_tick: "D d (d\<lparr>db_now := now\<rparr>)"
begin

lemma steps_handle_parse: "all_steps (on_db D) (handle_parse ctx ev)"
  unfolding handle_parse_def Let_def
  by (intro all_steps_pbind steps_read_db steps_adapters all_steps_plift steps_transaction steps_fan_out)
     (simp_all add: D_parse D_advance split_beta)

lemma steps_synthesize: "all_steps (on_db D) (synthesize ctx h key block owner)"
  unfolding synthesize_def generate_def
  by (auto intro!: all_steps_pbind all_steps_pfinally steps_adapters steps_slot steps_wait split: option.split)

lemma steps_after_decrement: "all_steps (on_db D) (after_decrement jid remaining)"
  unfolding after_decrement_def emit_stitch_def
  by (auto intro!: all_steps_pbind steps_adapters steps_read_db split: option.split)

lemma steps_handle_tts: "all_steps (on_db D) (handle_tts ctx ev)"
  unfolding handle_tts_def Let_def load_block_text_def do_cache_get_def
  by (auto intro!: all_steps_pbind all_steps_plift steps_read_db steps_adapters steps_synthesize
      steps_transaction steps_after_decrement simp: D_complete split: option.split)

lemma steps_notify: "all_steps (on_db D) (notify ctx jid)"
  unfolding notify_def Let_def post_webhook_def
  by (auto intro!: all_steps_pbind all_steps_plift steps_read_db steps_adapters
      simp: all_steps_Step on_db_same split: option.split)

lemma steps_handle_stitch: "all_steps (on_db D) (handle_stitch ctx ev)"
  unfolding handle_stitch_def Let_def
  by (auto intro!: all_steps_pbind steps_read_db steps_adapters steps_transaction all_steps_pmap steps_notify
      simp: D_advance D_finalize split_beta)

lemma steps_handle_dlq: "all_steps (on_db D) (make_dlq_handler ctx m)"
  unfolding make_dlq_handler_def handle_dlq_def
  by (auto intro!: all_steps_pbind all_steps_ptry all_steps_plift steps_transaction steps_adapters
      simp: dlq_fail_task_def dlq_fail_job_def emit_stitch_for_def emit_stitch_def D_fail D_advance D_refl split_beta
      split: option.splits json.splits sum.split)

lemma steps_handlers: "map_of (all_handlers ctx) q = Some h \<Longrightarrow> all_steps (on_db D) (h m)"
  by (auto simp: all_handlers_def build_handlers_def make_parse_handler_def make_tts_handler_def make_stitch_handler_def
      intro!: steps_ack_last all_steps_pbind all_steps_plift steps_adapters steps_handle_parse steps_handle_tts
        steps_handle_stitch steps_handle_dlq split: if_splits)

lemma steps_serve: "all_steps (on_db D) (serve st rq)"
proof -
  have "all_steps (on_db D) (transaction (\<lambda>d. case insert_job d jid key cb of Inl e \<Rightarrow> (d, Inl e) | Inr d' \<Rightarrow> (d', Inr ())))" for jid key cb
    by (rule steps_transaction) (auto simp: D_refl D_insert split: sum.split)
  then have "all_steps (on_db D) (call_route r)" for r
    by (cases r) (auto simp: create_job_def stats_def get_status_def
        intro!: all_steps_pbind steps_adapters steps_read_db split: option.split)
  then show ?thesis
    unfolding serve_def guard_manuscript_size_def
    by (auto intro!: all_steps_pcatch all_steps_pbind simp del: call_route.simps split: route.split option.split)
qed

lemma steps_background: "background st t \<Longrightarrow> all_steps (on_db D) t"
proof (induction rule: background.induct)
  case (request rq)
  then show ?case by (intro all_steps_pbind steps_serve) simp
next
  case sweeper
  then show ?case
    unfolding sweeper_pass_def sweep_once_def purge_once_def
    by (intro all_steps_pbind all_steps_pcatch all_steps_pfor steps_read_db steps_adapters steps_transaction)
       (simp_all add: D_purge split_beta)
qed (auto simp: reseed_pass_def reap_pass_def build_context_def gateway_startup_def Let_def
      intro!: all_steps_pbind all_steps_pcatch all_steps_pfor all_steps_plift steps_adapters)

end

section \<open>The board of job statuses\<close>

text \<open>The abstract view of the system: which jobs there are, and their statuses.\<close>

type_synonym board = "string \<Rightarrow> JobStatus option"

definition board :: "db \<Rightarrow> board" where
  "board d jid = map_option j_status (get_job d jid)"

inductive board_step :: "board \<Rightarrow> board \<Rightarrow> bool" where
  stutter: "board_step m m"
| create: "m jid = None \<Longrightarrow> board_step m (m(jid \<mapsto> PENDING))"
| move: "m jid = Some a \<Longrightarrow> can_transition a b \<Longrightarrow> board_step m (m(jid \<mapsto> b))"

definition board_kept :: "db \<Rightarrow> db \<Rightarrow> bool" where
  "board_kept d d' \<longleftrightarrow> (wf_db d \<longrightarrow> wf_db d' \<and> board_step (board d) (board d'))"

lemma board_move:
  assumes "\<And>i. get_job d' i = map_option (\<lambda>j. if i = jid \<and> P j then f j else j) (get_job d i)"
    and "\<And>j. get_job d jid = Some j \<Longrightarrow> P j \<Longrightarrow> can_transition (j_status j) (j_status (f j))"
  shows "board_step (board d) (board d')"
proof (cases "\<exists>j. get_job d jid = Some j \<and> P j")
  case True
  then obtain j where j: "get_job d jid = Some j" "P j" by blast
  have "board d' = (board d)(jid \<mapsto> j_status (f j))"
    using j by (auto simp: board_def assms(1) fun_eq_iff option.map_comp comp_def split: option.split)
  then show ?thesis using board_step.move [of "board d" jid "j_status j"] j assms(2) by (simp add: board_def)
next
  case False
  have "board d' i = board d i" for i
    using False by (cases "get_job d i") (auto simp: board_def assms(1))
  then have "board d' = board d" by (rule ext)
  then show ?thesis using board_step.stutter by metis
qed

lemma board_same: "(\<And>i. map_option j_status (get_job d' i) = map_option j_status (get_job d i)) \<Longrightarrow> board_step (board d) (board d')"
  using board_step.stutter by (metis board_def ext)

lemma get_job_decremented_any:
  "get_job (d\<lparr>tasks := ts, jobs := decremented d jid\<rparr>) i =
    map_option (\<lambda>j. if i = jid then j\<lparr>pending_count := pending_count j - 1, j_updated_at := db_now d\<rparr> else j) (get_job d i)"
  using row_get_SomeD [of j_id i "jobs d"]
  by (cases "get_job d i") (auto simp: decremented_def row_get_update)

lemma board_decremented: "board_step (board d) (board (d\<lparr>tasks := ts, jobs := decremented d jid\<rparr>))"
proof (rule board_same)
  fix i
  show "map_option j_status (get_job (d\<lparr>tasks := ts, jobs := decremented d jid\<rparr>) i) = map_option j_status (get_job d i)"
    unfolding get_job_decremented_any by (cases "get_job d i") auto
qed

lemma board_begin_parse: "board_step (board d) (board (fst (begin_parse d jid n)))"
  by (rule board_move [where P = "\<lambda>j. j_status j = PENDING", OF begin_parse_job]) (auto simp: can_transition_iff)

lemma board_advance: "board_step (board d) (board (fst (advance_status d jid s)))"
  by (rule board_move [where P = "\<lambda>j. can_transition (j_status j) s", OF advance_job]) auto

lemma board_finalize: "board_step (board d) (board (fst (finalize_job d jid key)))"
  by (rule board_move [where P = "\<lambda>j. j_status j = STITCHING", OF finalize_job_row]) (auto simp: can_transition_iff)

lemma board_insert_job:
  assumes "insert_job d jid key cb = Inr d'"
  shows "board_step (board d) (board d')"
proof -
  from assms have new: "jid \<notin> j_id ` set (jobs d)" by (auto simp: insert_job_def split: if_splits)
  then have none: "get_job d jid = None" by (simp add: row_get_None_iff)
  have "board d' = (board d)(jid \<mapsto> PENDING)"
    using assms none by (auto simp: insert_job_def board_def row_get_append fun_eq_iff split: if_splits option.split)
  then show ?thesis using board_step.create [of "board d" jid] none by (simp add: board_def)
qed

lemma board_parse:
  assumes "wf_db d"
  shows "wf_db (fst (parse_transaction jid blocks d)) \<and> board_step (board d) (board (fst (parse_transaction jid blocks d)))"
proof (cases "bind_res (task_rows (db_now d) jid blocks) (\<lambda>rows. insert_tasks rows d)")
  case (Inl e)
  then show ?thesis using assms by (simp add: parse_transaction_def board_step.stutter)
next
  case (Inr d1)
  then obtain rows where rows: "insert_tasks rows d = Inr d1" by (auto simp: bind_res_Inr_iff)
  then have "board d1 = board d" by (simp add: board_def fun_eq_iff insert_tasks_jobs)
  with Inr rows show ?thesis
    using wf_insert_tasks [OF assms rows] board_begin_parse [of d1]
    by (simp add: parse_transaction_def split_beta wf_begin_parse)
qed

interpretation board_rel: query_relation board_kept
proof
  fix d d' jid tid key blocks target cb retention now
  show "board_kept d d" by (simp add: board_kept_def board_step.stutter)
  show "board_kept d (fst (complete_task_and_decrement d jid tid key))"
    using wf_complete [of d jid tid key]
    by (auto simp: board_kept_def complete_cases board_decremented board_step.stutter split: option.split)
  show "board_kept d (fst (fail_task_and_decrement d jid tid))"
    using wf_fail [of d jid tid]
    by (auto simp: board_kept_def fail_cases board_decremented board_step.stutter split: option.split)
  show "board_kept d (fst (parse_transaction jid blocks d))" using board_parse by (simp add: board_kept_def)
  show "board_kept d (fst (advance_status d jid target))" by (simp add: board_kept_def wf_advance board_advance)
  show "board_kept d (fst (finalize_job d jid key))" by (simp add: board_kept_def wf_finalize board_finalize)
  show "insert_job d jid key cb = Inr d' \<Longrightarrow> board_kept d d'"
    by (simp add: board_kept_def wf_insert_job board_insert_job)
  show "board_kept d (fst (purge_processed_events d retention))"
    using wf_purge [of d retention] by (auto simp: board_kept_def purge_processed_events_def intro!: board_same)
  show "board_kept d (d\<lparr>db_now := now\<rparr>)"
    by (auto simp: board_kept_def wf_db_def intro!: board_same)
qed

section \<open>The system\<close>

text \<open>A delivery in the hands of a consumer, with what is left of its handler.\<close>

record delivery =
  p_worker :: string
  p_queue :: string
  p_msg :: msg
  p_prog :: "disposition action"

record sys =
  s_world :: world
  s_procs :: "delivery list"
  s_tasks :: "unit action list"
  s_drawn :: "string set"

definition give_back :: "bool \<Rightarrow> delivery \<Rightarrow> world \<Rightarrow> world" where
  "give_back again p w = (if again then w\<lparr>w_broker := requeue (p_msg p) (p_queue p) (w_broker w)\<rparr> else w)"

definition requeued :: "disposition \<Rightarrow> bool" where
  "requeued r \<longleftrightarrow> r = Nacked True"

definition crash_worker :: "string \<Rightarrow> sys \<Rightarrow> sys" where
  "crash_worker wid s =
    s\<lparr>s_world := (fold (give_back True) (filter (\<lambda>p. p_worker p = wid) (s_procs s)) (s_world s))
        \<lparr>w_heartbeats := filter (\<lambda>h. hb_worker h \<noteq> wid) (w_heartbeats (s_world s))\<rparr>,
      s_procs := filter (\<lambda>p. p_worker p \<noteq> wid) (s_procs s)\<rparr>"

text \<open>
  One step of the system: a delivery, a step of a handler or of another program, the end of a
  handler, a crash, or the passing of time. Every step has its own input, with an identifier that
  was never drawn before. \<open>esc\<close> says for which exceptions that leave a handler the delivery is given
  back to its queue (the others drop it).
\<close>

inductive sys_step :: "Settings \<Rightarrow> (exn \<Rightarrow> bool) \<Rightarrow> sys \<Rightarrow> sys \<Rightarrow> bool" for st esc where
  deliver: "take_msg q (w_broker (s_world s)) = Some (m, b) \<Longrightarrow>
    map_of (all_handlers (context_of st wid)) q = Some h \<Longrightarrow>
    sys_step st esc s (s\<lparr>s_world := (s_world s)\<lparr>w_broker := b\<rparr>,
      s_procs := s_procs s @ [\<lparr>p_worker = wid, p_queue = q, p_msg = m, p_prog = h m\<rparr>]\<rparr>)"
| handler: "k < length (s_procs s) \<Longrightarrow> p_prog (s_procs s ! k) = Step f \<Longrightarrow> i_uuid i \<notin> s_drawn s \<Longrightarrow>
    f i (s_world s) = Some (w', p') \<Longrightarrow>
    sys_step st esc s (s\<lparr>s_world := w', s_procs := (s_procs s)[k := (s_procs s ! k)\<lparr>p_prog := p'\<rparr>],
      s_drawn := insert (i_uuid i) (s_drawn s)\<rparr>)"
| settle: "k < length (s_procs s) \<Longrightarrow> p_prog (s_procs s ! k) = Ret r \<Longrightarrow>
    sys_step st esc s (s\<lparr>s_world := give_back (requeued r) (s_procs s ! k) (s_world s),
      s_procs := remove_nth k (s_procs s)\<rparr>)"
| escape: "k < length (s_procs s) \<Longrightarrow> p_prog (s_procs s ! k) = Raise e \<Longrightarrow>
    sys_step st esc s (s\<lparr>s_world := give_back (esc e) (s_procs s ! k) (s_world s),
      s_procs := remove_nth k (s_procs s)\<rparr>)"
| start: "background st t \<Longrightarrow> sys_step st esc s (s\<lparr>s_tasks := s_tasks s @ [t]\<rparr>)"
| task: "k < length (s_tasks s) \<Longrightarrow> s_tasks s ! k = Step f \<Longrightarrow> i_uuid i \<notin> s_drawn s \<Longrightarrow>
    f i (s_world s) = Some (w', t') \<Longrightarrow>
    sys_step st esc s (s\<lparr>s_world := w', s_tasks := (s_tasks s)[k := t'], s_drawn := insert (i_uuid i) (s_drawn s)\<rparr>)"
| stop: "k < length (s_tasks s) \<Longrightarrow> sys_step st esc s (s\<lparr>s_tasks := remove_nth k (s_tasks s)\<rparr>)"
| crash: "sys_step st esc s (crash_worker wid s)"
| expire: "expire_head (w_broker (s_world s)) q = Some b \<Longrightarrow>
    sys_step st esc s (s\<lparr>s_world := (s_world s)\<lparr>w_broker := b\<rparr>\<rparr>)"
| renew: "sys_step st esc s (s\<lparr>s_world := beat (context_of st wid) k f (s_world s)\<rparr>)"
| tick: "sys_step st esc s (s\<lparr>s_world := (s_world s)\<lparr>w_redis := redis_tick (w_redis (s_world s)) dt,
      w_db := (w_db (s_world s))\<lparr>db_now := db_now (w_db (s_world s)) + int dt\<rparr>\<rparr>\<rparr>)"
| wipe: "sys_step st esc s (s\<lparr>s_world := (s_world s)\<lparr>w_redis := empty_redis\<lparr>r_now := r_now (w_redis (s_world s))\<rparr>\<rparr>\<rparr>)"

text \<open>The states that are reached while \<open>P\<close> holds.\<close>

inductive sys_reach :: "Settings \<Rightarrow> (exn \<Rightarrow> bool) \<Rightarrow> (sys \<Rightarrow> bool) \<Rightarrow> sys \<Rightarrow> sys \<Rightarrow> bool" for st esc P s0 where
  init: "P s0 \<Longrightarrow> sys_reach st esc P s0 s0"
| step: "sys_reach st esc P s0 s \<Longrightarrow> sys_step st esc s s' \<Longrightarrow> P s' \<Longrightarrow> sys_reach st esc P s0 s'"

definition sys_of :: "world \<Rightarrow> sys" where
  "sys_of w = \<lparr>s_world = w, s_procs = [], s_tasks = [], s_drawn = {}\<rparr>"

lemma give_back_db [simp]: "w_db (give_back again p w) = w_db w"
  by (simp add: give_back_def)

lemma fold_give_back_db [simp]: "w_db (fold (give_back again) ps w) = w_db w"
  by (induction ps arbitrary: w) simp_all

lemma beat_db [simp]: "w_db (beat ctx k f w) = w_db w"
  by (simp add: beat_def Let_def split: fault.split)

lemma set_remove_nth: "set (remove_nth k xs) \<subseteq> set xs"
  by (auto simp: remove_nth_def dest: in_set_takeD in_set_dropD)

definition programs_ok :: "(world \<Rightarrow> world \<Rightarrow> bool) \<Rightarrow> sys \<Rightarrow> bool" where
  "programs_ok G s \<longleftrightarrow> (\<forall>p \<in> set (s_procs s). all_steps G (p_prog p)) \<and> (\<forall>t \<in> set (s_tasks s). all_steps G t)"

context query_relation
begin

text \<open>Every step of the system moves the database by the relation.\<close>

lemma system_step:
  assumes "sys_step st esc s s'" and "programs_ok (on_db D) s"
  shows "programs_ok (on_db D) s' \<and> D (w_db (s_world s)) (w_db (s_world s'))"
  using assms
proof (cases rule: sys_step.cases)
  case (deliver q m b wid h)
  then show ?thesis using assms(2) steps_handlers by (auto simp: programs_ok_def D_refl)
next
  case (handler k f i w' p')
  then have "all_steps (on_db D) (Step f)" using assms(2) by (metis nth_mem programs_ok_def)
  then have "on_db D (s_world s) w'" "all_steps (on_db D) p'" using handler(5) by (auto simp: all_steps_Step)
  then show ?thesis
    using assms(2) handler by (auto simp: programs_ok_def on_db_def dest!: set_update_subset_insert [THEN subsetD])
next
  case (task k f i w' t')
  then have "all_steps (on_db D) (Step f)" using assms(2) by (metis nth_mem programs_ok_def)
  then have "on_db D (s_world s) w'" "all_steps (on_db D) t'" using task(5) by (auto simp: all_steps_Step)
  then show ?thesis
    using assms(2) task by (auto simp: programs_ok_def on_db_def dest!: set_update_subset_insert [THEN subsetD])
next
  case (start t)
  then show ?thesis using assms(2) steps_background by (auto simp: programs_ok_def D_refl)
next
  case (crash wid)
  then show ?thesis using assms(2) by (auto simp: programs_ok_def crash_worker_def D_refl)
qed (use assms(2) in \<open>auto simp: programs_ok_def D_refl D_tick dest: set_remove_nth [THEN subsetD]\<close>)

lemma system_reach:
  assumes "sys_reach st esc P (sys_of w) s"
  shows "programs_ok (on_db D) s"
  using assms by induction (simp_all add: programs_ok_def sys_of_def, metis programs_ok_def system_step)

end

text \<open>
  C8. Refinement of the status machine: whatever the consumers, requests, loops and the environment
  do, in every interleaving and with every fault and crash, a step of the system is on the board of
  job statuses a step of the abstract machine: nothing, one new job that is \<open>PENDING\<close>, or one legal
  transition of one job. The integrity of the tables is kept.
\<close>

theorem system_refines_board:
  assumes "wf_db (w_db w)" and "sys_reach st esc P (sys_of w) s" and "sys_step st esc s s'"
  shows "wf_db (w_db (s_world s)) \<and> board_step (board (w_db (s_world s))) (board (w_db (s_world s')))"
proof -
  have wf: "wf_db (w_db (s_world s))"
    using assms(2)
  proof induction
    case init
    then show ?case using assms(1) by (simp add: sys_of_def)
  next
    case (step s s')
    then show ?case using board_rel.system_step [OF step(2) board_rel.system_reach [OF step(1)]]
      by (simp add: board_kept_def)
  qed
  then show ?thesis
    using board_rel.system_step [OF assms(3) board_rel.system_reach [OF assms(2)]] by (simp add: board_kept_def)
qed

theorem system_refines_board_witness:
  "wf_db (w_db example_world) \<and> board_step (board (w_db example_world)) (board ((w_db example_world)\<lparr>db_now := 7\<rparr>))"
proof -
  have reach: "sys_reach st esc (\<lambda>_. True) (sys_of example_world) (sys_of example_world)" for st esc
    by (rule sys_reach.init) simp
  have "sys_step default_settings (\<lambda>_. True) (sys_of example_world)
      ((sys_of example_world)\<lparr>s_world := example_world\<lparr>w_redis := redis_tick (w_redis example_world) 7,
        w_db := (w_db example_world)\<lparr>db_now := 7\<rparr>\<rparr>\<rparr>)"
    using sys_step.tick [of default_settings "\<lambda>_. True" "sys_of example_world" 7]
    by (simp add: sys_of_def example_db_def)
  from system_refines_board [OF _ reach this] example_db_ok(1) show ?thesis by (simp add: sys_of_def)
qed

end
