(* ===== verification/Protocol.thy ===== *)
theory Protocol
  imports System
begin

text \<open>
  The programs as seen by the others. \<open>sim\<close> says that the steps of a program, in whatever world each
  of them is taken, are transitions of an automaton; the automaton \<open>ptrans\<close> is the protocol of a
  delivery (where a handler stands, what it does to the tables and the queues, how it ends) and
  \<open>btrans\<close> the one of requests and background loops. Every handler of the worker follows the protocol
  (\<open>follows_handler\<close>), every other program the second one (\<open>sim_background\<close>), with every fault.
\<close>

section \<open>Programs as runs of an automaton\<close>

text \<open>
  \<open>sim T F p S\<close>: from the automaton state \<open>S\<close> on, each step of \<open>p\<close>, in whatever world it is taken, is a
  transition of \<open>T\<close>, and the automaton state at the end fits the result by \<open>F\<close>.
\<close>

primrec sim :: "('i \<Rightarrow> 's \<Rightarrow> 'w \<Rightarrow> 'w \<Rightarrow> 's \<Rightarrow> bool) \<Rightarrow> ('s \<Rightarrow> 'a res \<Rightarrow> bool) \<Rightarrow> ('i, 'w, 'a) prog \<Rightarrow> 's \<Rightarrow> bool" where
  "sim T F (Ret a) = (\<lambda>S. F S (Inr a))"
| "sim T F (Raise e) = (\<lambda>S. F S (Inl e))"
| "sim T F (Step f) = (\<lambda>S. \<forall>i w. pred_option (\<lambda>(w', ok). \<exists>S'. T i S w w' S' \<and> ok S') (map_option (map_prod id (sim T F)) (f i w)))"

lemma pred_map_option: "pred_option P (map_option g x) \<longleftrightarrow> (\<forall>y. x = Some y \<longrightarrow> P (g y))"
  by (cases x) simp_all

lemma sim_Step:
  "sim T F (Step f) S \<longleftrightarrow> (\<forall>i w w' p. f i w = Some (w', p) \<longrightarrow> (\<exists>S'. T i S w w' S' \<and> sim T F p S'))"
  by (simp add: pred_map_option split_paired_All)

declare sim.simps(3) [simp del]

lemma sim_pbind:
  assumes "sim T F' p S" and "\<And>a S. F' S (Inr a) \<Longrightarrow> sim T F (k a) S" and "\<And>e S. F' S (Inl e) \<Longrightarrow> F S (Inl e)"
  shows "sim T F (pbind p k) S"
  using assms(1)
proof (induction p arbitrary: S)
  case (Step f)
  show ?case
    unfolding pbind.simps sim_Step
  proof (intro allI impI)
    fix i w w' p
    assume "map_option (map_prod id (\<lambda>p. pbind p k)) (f i w) = Some (w', p)"
    then obtain x where x: "f i w = Some (w', x)" "p = pbind x k" by auto
    with Step.prems obtain S' where "T i S w w' S'" "sim T F' x S'" unfolding sim_Step by blast
    with x Step.IH [of "f i" "f i w" "(w', x)" x S'] rangeI [of "f i" w]
    show "\<exists>S'. T i S w w' S' \<and> sim T F p S'" by auto
  qed
qed (use assms(2,3) in auto)

lemma sim_ptry:
  assumes "sim T (\<lambda>S r. F S (Inr r)) p S"
  shows "sim T F (ptry p) S"
  using assms
proof (induction p arbitrary: S)
  case (Step f)
  show ?case
    unfolding ptry.simps sim_Step
  proof (intro allI impI)
    fix i w w' p
    assume "map_option (map_prod id ptry) (f i w) = Some (w', p)"
    then obtain x where x: "f i w = Some (w', x)" "p = ptry x" by auto
    with Step.prems obtain S' where "T i S w w' S'" "sim T (\<lambda>S r. F S (Inr r)) x S'" unfolding sim_Step by blast
    with x Step.IH [of "f i" "f i w" "(w', x)" x S'] rangeI [of "f i" w]
    show "\<exists>S'. T i S w w' S' \<and> sim T F p S'" by auto
  qed
qed simp_all

lemma sim_weaken:
  assumes "sim T F p S" and "\<And>S r. F S r \<Longrightarrow> F' S r"
  shows "sim T F' p S"
  using assms(1)
proof (induction p arbitrary: S)
  case (Step f)
  then show ?case
    unfolding sim_Step by (metis option.set_intros prod_set_simps(2) rangeI singletonI)
qed (use assms(2) in auto)

lemma sim_stay:
  assumes "all_steps G p" and "\<And>i w w'. G w w' \<Longrightarrow> T i S w w' S" and "\<And>r. F S r"
  shows "sim T F p S"
  using assms(1)
proof (induction p)
  case (Step f)
  show ?case
    unfolding sim_Step
  proof (intro allI impI)
    fix i w w' p
    assume f: "f i w = Some (w', p)"
    with Step.prems have "G w w'" "all_steps G p" by (auto simp: all_steps_Step)
    with f assms(2) Step.IH [of "f i" "f i w" "(w', p)" p] rangeI [of "f i" w]
    show "\<exists>S'. T i S w w' S' \<and> sim T F p S'" by auto
  qed
qed (use assms(3) in simp_all)

lemma sim_plift: "F S r \<Longrightarrow> sim T F (plift r) S"
  by (cases r) (simp_all add: plift_def)

lemma sim_atomic:
  assumes "\<And>i w a. snd (f i w) = Inr a \<Longrightarrow> \<exists>S'. T i S w (fst (f i w)) S' \<and> F S' (Inr a)"
    and "\<And>i w e. snd (f i w) = Inl e \<Longrightarrow> \<exists>S'. T i S w (fst (f i w)) S' \<and> F S' (Inl e)"
    and "\<And>i w. \<exists>S'. T i S w w S' \<and> F S' (Inl InfraError)"
    and "\<And>i w. \<exists>S'. T i S w (fst (f i w)) S' \<and> F S' (Inl InfraError)"
  shows "sim T F (atomic f) S"
  unfolding atomic_def sim_Step
proof (intro allI impI)
  fix i w w' and p :: "'a action"
  assume "Some (case i_fault i of
        NoFault \<Rightarrow> (fst (f i w), plift (snd (f i w)))
      | FaultBefore \<Rightarrow> (w, Raise InfraError)
      | FaultAfter \<Rightarrow> (fst (f i w), Raise InfraError)) = Some (w', p)"
  then show "\<exists>S'. T i S w w' S' \<and> sim T F p S'"
    using assms by (cases "i_fault i"; cases "snd (f i w)") (auto simp: plift_def)
qed

section \<open>Quiet steps\<close>

text \<open>A step that touches neither the database nor the broker nor a manuscript.\<close>

definition quiet :: "world \<Rightarrow> world \<Rightarrow> bool" where
  "quiet w w' \<longleftrightarrow> w_db w' = w_db w \<and> w_broker w' = w_broker w
    \<and> (\<forall>jid. get_text (w_minio w') (manuscript_key_of jid) = get_text (w_minio w) (manuscript_key_of jid))"

lemma quiet_refl [simp]: "quiet w w"
  by (simp add: quiet_def)

lemma quiet_updates [simp]: "quiet w (w\<lparr>w_redis := r\<rparr>)" "quiet w (w\<lparr>w_heartbeats := hs\<rparr>)" "quiet w (w\<lparr>w_webhooks := x\<rparr>)"
  by (simp_all add: quiet_def)

lemma quiet_put:
  "put_bytes (w_minio w) key data c = Inr s \<Longrightarrow> (\<And>jid. key \<noteq> manuscript_key_of jid) \<Longrightarrow> quiet w (w\<lparr>w_minio := s\<rparr>)"
  using get_text_put_bytes by (simp add: quiet_def) metis

lemma quiet_adapters:
  "all_steps quiet (redis_cmd c)" "all_steps quiet (minio_get g)" "all_steps quiet (ask x)" "all_steps quiet pskip"
  "all_steps quiet (read_db rq)" "all_steps quiet (stop_heartbeat ctx token)"
  by (simp_all add: all_steps_redis_cmd all_steps_minio_get all_steps_ask all_steps_pskip read_db_def
      all_steps_transaction stop_heartbeat_def all_steps_Step)

lemma quiet_acquire: "all_steps quiet (sem_acquire ctx owner)"
  unfolding sem_acquire_def
  by (intro all_steps_pbind all_steps_blocking quiet_adapters all_steps_local_step)
     (auto simp: start_heartbeat_def)

lemma quiet_slot: "all_steps quiet p \<Longrightarrow> all_steps quiet (slot ctx owner p)"
  unfolding slot_def sem_release_def
  by (intro all_steps_pbind all_steps_pfinally quiet_acquire quiet_adapters)

lemma quiet_wait: "all_steps quiet (wait_for_cache ctx h n)"
  by (induction n) (auto simp: do_cache_get_def intro!: all_steps_pbind quiet_adapters split: option.split)

lemma quiet_synthesize: "all_steps quiet (synthesize ctx h (audio_key_of h') block owner)"
  unfolding synthesize_def generate_def
  by (auto intro!: all_steps_pbind all_steps_pfinally quiet_adapters quiet_slot quiet_wait all_steps_minio_put quiet_put
      split: option.split)

lemma quiet_notify: "all_steps quiet (notify ctx jid)"
  unfolding notify_def Let_def post_webhook_def
  by (auto intro!: all_steps_pbind all_steps_plift quiet_adapters simp: all_steps_Step split: option.split)

section \<open>The protocol of a delivery\<close>

text \<open>Where a handler stands, as far as the other participants can tell.\<close>

datatype stage =
    TWork string string | TCheck string string | TEmit string string
  | PWork string | PKey string string | PRead string pystr | PTx string "pystr list" | PPub string nat "pystr list"
  | SWork string | SAdv string | DWork string
  | Ended string | Fin | Esc

definition working :: "stage \<Rightarrow> bool" where
  "working S \<longleftrightarrow> S \<noteq> Fin \<and> S \<noteq> Esc"

definition after_claim :: "string \<Rightarrow> string \<Rightarrow> int option res \<Rightarrow> stage" where
  "after_claim jid tid r =
    (case r of
       Inl _ \<Rightarrow> TWork jid tid
     | Inr None \<Rightarrow> TCheck jid tid
     | Inr (Some n) \<Rightarrow> if n = 0 then TEmit jid tid else Fin)"

definition at_zero :: "db \<Rightarrow> string \<Rightarrow> bool" where
  "at_zero d jid \<longleftrightarrow> (\<exists>j. get_job d jid = Some j \<and> pending_count j = 0)"

definition retry_targets :: "Settings \<Rightarrow> string \<Rightarrow> string set" where
  "retry_targets st q = (if q \<in> set live_queues
    then insert Q_DLQ {retry_q_name q d | d ds. retry_delays st = Inr ds \<and> d \<in> set ds} else {})"

inductive ptrans :: "Settings \<Rightarrow> string \<Rightarrow> msg \<Rightarrow> stage \<Rightarrow> world \<Rightarrow> world \<Rightarrow> stage \<Rightarrow> bool" for st q m where
  stay: "working S \<Longrightarrow> quiet w w' \<Longrightarrow> ptrans st q m S w w' S"
| reroute: "working S \<Longrightarrow> 0 < c \<Longrightarrow> target \<in> retry_targets st q \<Longrightarrow> S' = Fin \<or> S' = Esc \<Longrightarrow>
    ptrans st q m S w (w\<lparr>w_broker := exchange_publish (w_broker w) (retried_msg m c) target\<rparr>) S'"
| lost: "working S \<Longrightarrow> ptrans st q m S w w Esc"
| claim: "complete_task_and_decrement (w_db w) jid tid key = (d, r) \<Longrightarrow>
    S' = TWork jid tid \<or> S' = after_claim jid tid r \<Longrightarrow>
    ptrans st q m (TWork jid tid) w (w\<lparr>w_db := d\<rparr>) S'"
| check: "S' = (if at_zero (w_db w) jid then TEmit jid tid else Fin) \<Longrightarrow> ptrans st q m (TCheck jid tid) w w S'"
| emit: "S' = TEmit jid tid \<or> S' = Fin \<Longrightarrow>
    ptrans st q m (TEmit jid tid) w (w\<lparr>w_broker := publish (w_broker w) (StitchReady u jid) Q_STITCH\<rparr>) S'"
| key: "get_job (w_db w) jid = Some j \<Longrightarrow> ptrans st q m (PWork jid) w w (PKey jid (manuscript_key j))"
| read: "get_text (w_minio w) key = Inr ms \<Longrightarrow> ptrans st q m (PKey jid key) w w (PRead jid ms)"
| tx: "bl = capped (MAX_BLOCKS st) (split_blocks ms) \<Longrightarrow> parse_transaction jid bl (w_db w) = (d, r) \<Longrightarrow>
    S' = PRead jid ms \<or> S' = PTx jid bl \<and> (\<exists>won. r = Inr won) \<Longrightarrow>
    ptrans st q m (PRead jid ms) w (w\<lparr>w_db := d\<rparr>) S'"
| adv: "S' = PTx jid bl \<or> S' = PPub jid 0 bl \<Longrightarrow>
    ptrans st q m (PTx jid bl) w (w\<lparr>w_db := fst (advance_status (w_db w) jid GENERATING)\<rparr>) S'"
| pub: "k < length bl \<Longrightarrow> S' = PPub jid k bl \<or> S' = (if Suc k = length bl then Fin else PPub jid (Suc k) bl) \<Longrightarrow>
    ptrans st q m (PPub jid k bl) w
      (w\<lparr>w_broker := publish (w_broker w) (TtsRequested u jid (task_id_of jid k)) Q_TTS\<rparr>) S'"
| pub_none: "S' = PPub jid k [] \<or> S' = Fin \<Longrightarrow>
    ptrans st q m (PPub jid k []) w (w\<lparr>w_broker := publish (w_broker w) (StitchReady u jid) Q_STITCH\<rparr>) S'"
| completed: "get_job (w_db w) jid = Some j \<Longrightarrow> j_status j = COMPLETED \<Longrightarrow> ptrans st q m (SWork jid) w w (Ended jid)"
| stitching: "S' = SWork jid \<or> S' = SAdv jid \<Longrightarrow>
    ptrans st q m (SWork jid) w (w\<lparr>w_db := fst (advance_status (w_db w) jid STITCHING)\<rparr>) S'"
| final: "S' = SAdv jid \<or> S' = Ended jid \<Longrightarrow>
    ptrans st q m (SAdv jid) w (w\<lparr>w_db := fst (finalize_job (w_db w) jid key)\<rparr>) S'"
| resolve: "S' = Ended jid \<or> S' = Esc \<Longrightarrow>
    ptrans st q m (DWork jid) w (w\<lparr>w_db := fst (advance_status (w_db w) jid FAILED)\<rparr>) S'"

text \<open>What the automaton state is at the end of the work, and at the end of the handler.\<close>

definition work_end :: "stage \<Rightarrow> unit res \<Rightarrow> bool" where
  "work_end S r \<longleftrightarrow> (case r of Inl _ \<Rightarrow> working S | Inr _ \<Rightarrow> S = Fin \<or> (\<exists>jid. S = Ended jid))"

definition handler_end :: "(exn \<Rightarrow> bool) \<Rightarrow> stage \<Rightarrow> disposition res \<Rightarrow> bool" where
  "handler_end esc S r \<longleftrightarrow>
    (case r of
       Inl e \<Rightarrow> S = Esc \<and> esc e
     | Inr Acked \<Rightarrow> S = Fin \<or> (\<exists>jid. S = Ended jid)
     | Inr (Nacked again) \<Rightarrow> S = Esc \<and> again)"

abbreviation follows :: "Settings \<Rightarrow> string \<Rightarrow> msg \<Rightarrow> (stage \<Rightarrow> 'a res \<Rightarrow> bool) \<Rightarrow> 'a action \<Rightarrow> stage \<Rightarrow> bool" where
  "follows st q m \<equiv> sim (\<lambda>i. ptrans st q m)"

lemma follows_quiet:
  "all_steps quiet p \<Longrightarrow> working S \<Longrightarrow> (\<And>r. F S r) \<Longrightarrow> follows st q m F p S"
  by (rule sim_stay [where G = quiet]) (auto intro: ptrans.stay)

lemma follows_quiet_pbind:
  assumes "all_steps quiet p" and "working S" and "\<And>a. follows st q m work_end (k a) S"
  shows "follows st q m work_end (pbind p k) S"
  by (rule sim_pbind [where F' = "\<lambda>S' r. S' = S", OF follows_quiet [OF assms(1,2)]])
     (use assms(2,3) in \<open>auto simp: work_end_def\<close>)

lemma follows_ack_last:
  assumes "follows st q m work_end (work m) S" and "settings ctx = st"
    and "retry_delays st = Inr ds" and "ds \<noteq> []" and "get_retry_count m = Inr c" and "0 \<le> c" and "esc InfraError"
    and "q \<in> set live_queues"
  shows "follows st q m (handler_end esc) (ack_last ctx q work m) S"
  unfolding ack_last_def
proof (rule sim_pbind [where F' = "\<lambda>S r. \<exists>x. r = Inr x \<and> work_end S x"])
  show "follows st q m (\<lambda>S r. \<exists>x. r = Inr x \<and> work_end S x) (ptry (work m)) S"
    by (rule sim_ptry) (use assms(1) in simp)
next
  fix r S'
  assume "\<exists>x. Inr r = Inr x \<and> work_end S' x"
  then have e: "work_end S' r" by simp
  show "follows st q m (handler_end esc)
      (case r of Inl exc \<Rightarrow> pbind (route_failed ctx q m exc) (\<lambda>_. Ret Acked) | Inr _ \<Rightarrow> Ret Acked) S'"
  proof (cases r)
    case (Inr u)
    with e show ?thesis by (simp add: work_end_def handler_end_def)
  next
    case (Inl exc)
    with e have w: "working S'" by (simp add: work_end_def)
    define mx where "mx = (if is_poison exc then 0 else MAX_RETRIES st)"
    define target where "target = (if c < mx then retry_q_name q (ds ! min (nat c) (length ds - 1)) else Q_DLQ)"
    have route: "route_retry_or_dlq b m q mx ds = Inr (exchange_publish b (retried_msg m (c + 1)) target)" for b
      using route_retry [OF assms(5,6) _ assms(4)] route_dlq [OF assms(5)] by (simp add: target_def)
    have "target \<in> retry_targets st q"
      using assms(3,8) delay_of_in [OF assms(4), of "nat c"] by (auto simp: target_def retry_targets_def delay_of_def)
    then have "follows st q m (\<lambda>S r. case r of Inl e \<Rightarrow> S = Esc \<and> esc e | Inr _ \<Rightarrow> S = Fin)
        (broker_put (\<lambda>i b. route_retry_or_dlq b m q mx ds)) S'"
      unfolding broker_put_def route using w assms(6,7)
      by (intro sim_atomic) (auto intro!: exI ptrans.reroute ptrans.lost)
    then show ?thesis
      unfolding Inl sum.case route_failed_def assms(2) assms(3) plift_def pbind.simps mx_def [symmetric]
      by (rule sim_pbind) (auto simp: handler_end_def split: sum.splits)
  qed
qed (simp add: handler_end_def)

section \<open>The handlers follow the protocol\<close>

lemma working_simps [simp]:
  "working (TWork a b)" "working (TCheck a b)" "working (TEmit a b)" "working (PWork a)" "working (PKey a b)"
  "working (PRead a c)" "working (PTx a bl)" "working (PPub a k bl)" "working (SWork a)" "working (SAdv a)"
  "working (DWork a)" "working (Ended a)" "\<not> working Fin" "\<not> working Esc"
  by (simp_all add: working_def)

lemma work_end_simps [simp]:
  "work_end S (Inl e) = working S" "work_end S (Inr u) \<longleftrightarrow> S = Fin \<or> (\<exists>jid. S = Ended jid)"
  by (simp_all add: work_end_def)

lemma follows_plift_pbind:
  "working S \<Longrightarrow> (\<And>a. r = Inr a \<Longrightarrow> follows st q m work_end (k a) S) \<Longrightarrow> follows st q m work_end (pbind (plift r) k) S"
  by (cases r) (simp_all add: plift_def)

lemma follows_transaction:
  assumes "\<And>w d a. t (w_db w) = (d, Inr a) \<Longrightarrow> \<exists>S'. ptrans st q m S w (w\<lparr>w_db := d\<rparr>) S' \<and> F S' (Inr a)"
    and "\<And>w d r. t (w_db w) = (d, r) \<Longrightarrow> \<exists>S'. ptrans st q m S w (w\<lparr>w_db := d\<rparr>) S' \<and> (\<forall>e. F S' (Inl e))"
    and "\<And>w. \<exists>S'. ptrans st q m S w w S' \<and> (\<forall>e. F S' (Inl e))"
  shows "follows st q m F (transaction t) S"
  unfolding transaction_def
proof (rule sim_atomic)
  fix i and w :: world
  obtain d r where t: "t (w_db w) = (d, r)" by (cases "t (w_db w)")
  show "\<exists>S'. ptrans st q m S w w S' \<and> F S' (Inl InfraError)" using assms(3) by blast
  show "\<exists>S'. ptrans st q m S w (fst (let (d, r) = t (w_db w) in (w\<lparr>w_db := d\<rparr>, r))) S' \<and> F S' (Inl InfraError)"
    using assms(2) [OF t] t by auto
  fix a assume "snd (let (d, r) = t (w_db w) in (w\<lparr>w_db := d\<rparr>, r)) = Inr a"
  then show "\<exists>S'. ptrans st q m S w (fst (let (d, r) = t (w_db w) in (w\<lparr>w_db := d\<rparr>, r))) S' \<and> F S' (Inr a)"
    using assms(1) t by auto
next
  fix i and w :: world and e assume "snd (let (d, r) = t (w_db w) in (w\<lparr>w_db := d\<rparr>, r)) = Inl e"
  then show "\<exists>S'. ptrans st q m S w (fst (let (d, r) = t (w_db w) in (w\<lparr>w_db := d\<rparr>, r))) S' \<and> F S' (Inl e)"
    using assms(2) [of w] by (cases "t (w_db w)") auto
qed

lemma follows_publish:
  assumes "working S"
    and "\<And>w u S'. S' = S \<or> S' = N \<Longrightarrow> ptrans st q m S w (w\<lparr>w_broker := publish (w_broker w) (ev u) key\<rparr>) S'"
  shows "follows st q m (\<lambda>S' r. S' = (case r of Inl _ \<Rightarrow> S | Inr _ \<Rightarrow> N)) (publish_event ev key) S"
  unfolding publish_event_def broker_put_def
  by (rule sim_atomic) (use assms(2) ptrans.stay [OF assms(1) quiet_refl] in auto)

text \<open>One block.\<close>

lemma follows_emit: "follows st q m work_end (emit_stitch jid) (TEmit jid tid)"
  unfolding emit_stitch_def
  by (rule sim_weaken [OF follows_publish [where N = Fin]]) (auto intro: ptrans.emit split: sum.splits)

lemma follows_check:
  "follows st q m work_end (after_decrement jid None) (TCheck jid tid)"
proof -
  have "follows st q m (\<lambda>S' r. case r of Inl _ \<Rightarrow> S' = TCheck jid tid
      | Inr job \<Rightarrow> S' = (if \<exists>j. job = Some j \<and> pending_count j = 0 then TEmit jid tid else Fin))
    (read_db (\<lambda>d. Inr (get_job d jid))) (TCheck jid tid)"
    unfolding read_db_def
  proof (rule follows_transaction)
    fix w :: world and d a assume "(w_db w, Inr (get_job (w_db w) jid)) = (d, Inr a :: Job option res)"
    then show "\<exists>S'. ptrans st q m (TCheck jid tid) w (w\<lparr>w_db := d\<rparr>) S' \<and> (case Inr a :: Job option res of Inl _ \<Rightarrow> S' = TCheck jid tid
      | Inr job \<Rightarrow> S' = (if \<exists>j. job = Some j \<and> pending_count j = 0 then TEmit jid tid else Fin))"
      using ptrans.check [OF HOL.refl, where st = st and q = q and m = m and w = w and jid = jid and tid = tid]
      by (auto simp: at_zero_def split: if_splits)
  qed (auto intro!: exI [of _ "TCheck jid tid"] ptrans.stay)
  then show ?thesis
    unfolding after_decrement_def
    by (simp, elim sim_pbind) (auto simp: follows_emit split: option.splits if_splits)
qed

lemma follows_tts: "follows st q m work_end (handle_tts ctx (TtsRequested e jid tid)) (TWork jid tid)"
proof -
  let ?F = "\<lambda>S' (r :: int option res). case r of Inl _ \<Rightarrow> S' = TWork jid tid | Inr x \<Rightarrow> S' = after_claim jid tid (Inr x)"
  have claim: "follows st q m ?F (transaction (\<lambda>d. complete_task_and_decrement d jid tid key)) (TWork jid tid)" for key
  proof (rule follows_transaction)
    fix w :: world and d a assume t: "complete_task_and_decrement (w_db w) jid tid key = (d, Inr a)"
    show "\<exists>S'. ptrans st q m (TWork jid tid) w (w\<lparr>w_db := d\<rparr>) S' \<and> ?F S' (Inr a)"
      using ptrans.claim [OF t] by auto
  next
    fix w :: world and d r assume t: "complete_task_and_decrement (w_db w) jid tid key = (d, r)"
    show "\<exists>S'. ptrans st q m (TWork jid tid) w (w\<lparr>w_db := d\<rparr>) S' \<and> (\<forall>e. ?F S' (Inl e))"
      using ptrans.claim [OF t] by auto
  qed (auto intro: ptrans.stay)
  have after: "follows st q m work_end (after_decrement jid r) (after_claim jid tid (Inr r))" for r
  proof (cases r)
    case None
    then show ?thesis using follows_check by (simp add: after_claim_def)
  next
    case (Some n)
    then show ?thesis using follows_emit by (simp add: after_claim_def after_decrement_def)
  qed
  have tail: "follows st q m work_end (pbind (transaction (\<lambda>d. complete_task_and_decrement d jid tid key)) (after_decrement jid)) (TWork jid tid)" for key
    by (rule sim_pbind [OF claim]) (use after in auto)
  have load: "all_steps quiet (load_block_text ctx jid tid)"
    unfolding load_block_text_def by (auto intro!: all_steps_pbind quiet_adapters simp: Let_def)
  show ?thesis
    unfolding handle_tts_def Let_def do_cache_get_def
    by (auto intro!: follows_quiet_pbind follows_plift_pbind load quiet_adapters quiet_synthesize tail split: option.split)
qed

text \<open>The fan-out.\<close>

lemma follows_fan_out_from:
  "k < length bl \<Longrightarrow> follows st q m work_end
    (pfor [k..<length bl] (\<lambda>i. publish_event (\<lambda>u. TtsRequested u jid (task_id_of jid i)) Q_TTS)) (PPub jid k bl)"
proof (induction "length bl - k" arbitrary: k)
  case (Suc x)
  let ?N = "if Suc k = length bl then Fin else PPub jid (Suc k) bl"
  have pub: "follows st q m (\<lambda>S' r. S' = (case r of Inl _ \<Rightarrow> PPub jid k bl | Inr _ \<Rightarrow> ?N))
      (publish_event (\<lambda>u. TtsRequested u jid (task_id_of jid k)) Q_TTS) (PPub jid k bl)"
    by (rule follows_publish) (use Suc.prems in \<open>auto intro: ptrans.pub\<close>)
  have rest: "follows st q m work_end
      (pfor [Suc k..<length bl] (\<lambda>i. publish_event (\<lambda>u. TtsRequested u jid (task_id_of jid i)) Q_TTS)) ?N"
    using Suc.hyps(1) [of "Suc k"] Suc.hyps(2) Suc.prems by (cases "Suc k = length bl") auto
  have "[k..<length bl] = k # [Suc k..<length bl]" using Suc.prems by (simp add: upt_conv_Cons)
  then show ?case by (simp, intro sim_pbind [OF pub]) (use rest in simp_all)
qed simp

lemma follows_fan_out: "follows st q m work_end (fan_out jid (length bl)) (PPub jid 0 bl)"
proof (cases "bl = []")
  case True
  show ?thesis
    unfolding fan_out_def True
    by (simp, rule sim_weaken [OF follows_publish [where N = Fin]]) (auto intro: ptrans.pub_none split: sum.splits)
next
  case False
  then show ?thesis using follows_fan_out_from [of 0 bl] by (simp add: fan_out_def)
qed

lemma follows_parse:
  assumes "settings ctx = st"
  shows "follows st q m work_end (handle_parse ctx (JobCreated e jid)) (PWork jid)"
proof -
  let ?bl = "\<lambda>ms. capped (MAX_BLOCKS st) (split_blocks ms)"
  have key: "follows st q m (\<lambda>S' r. S' = (case r of Inl _ \<Rightarrow> PWork jid | Inr key \<Rightarrow> PKey jid key))
      (read_db (load_manuscript_key jid)) (PWork jid)"
    unfolding read_db_def
    by (rule follows_transaction)
       (auto simp: load_manuscript_key_def intro: ptrans.key ptrans.stay split: option.splits)
  have read: "follows st q m (\<lambda>S' r. S' = (case r of Inl _ \<Rightarrow> PKey jid key | Inr ms \<Rightarrow> PRead jid ms))
      (minio_get (\<lambda>s. get_text s key)) (PKey jid key)" for key
    unfolding minio_get_def by (rule sim_atomic) (auto intro: ptrans.read ptrans.stay)
  have tx: "follows st q m (\<lambda>S' r. S' = (case r of Inl _ \<Rightarrow> PRead jid ms | Inr _ \<Rightarrow> PTx jid (?bl ms)))
      (transaction (parse_transaction jid (?bl ms))) (PRead jid ms)" for ms
    by (rule follows_transaction) (auto intro: ptrans.tx ptrans.stay)
  have adv: "follows st q m (\<lambda>S' r. S' = (case r of Inl _ \<Rightarrow> PTx jid bl | Inr _ \<Rightarrow> PPub jid 0 bl))
      (transaction (\<lambda>d. case advance_status d jid GENERATING of (d', won) \<Rightarrow> (d', Inr won))) (PTx jid bl)" for bl
  proof (rule follows_transaction)
    fix w :: world and d a
    assume "(case advance_status (w_db w) jid GENERATING of (d', won) \<Rightarrow> (d', Inr won)) = (d, Inr a :: bool res)"
    then have "d = fst (advance_status (w_db w) jid GENERATING)" by (auto split: prod.splits)
    then show "\<exists>S'. ptrans st q m (PTx jid bl) w (w\<lparr>w_db := d\<rparr>) S' \<and>
        S' = (case Inr a :: bool res of Inl _ \<Rightarrow> PTx jid bl | Inr _ \<Rightarrow> PPub jid 0 bl)"
      using ptrans.adv by auto
  next
    fix w :: world and d r
    assume "(case advance_status (w_db w) jid GENERATING of (d', won) \<Rightarrow> (d', Inr won)) = (d, r :: bool res)"
    then have "d = fst (advance_status (w_db w) jid GENERATING)" by (auto split: prod.splits)
    then show "\<exists>S'. ptrans st q m (PTx jid bl) w (w\<lparr>w_db := d\<rparr>) S' \<and>
        (\<forall>e. S' = (case Inl e :: bool res of Inl _ \<Rightarrow> PTx jid bl | Inr _ \<Rightarrow> PPub jid 0 bl))"
      using ptrans.adv by auto
  qed (auto intro: ptrans.stay)
  have tail: "follows st q m work_end (pbind (transaction (parse_transaction jid (?bl ms))) (\<lambda>_.
      pbind (transaction (\<lambda>d. case advance_status d jid GENERATING of (d', won) \<Rightarrow> (d', Inr won))) (\<lambda>_.
      fan_out jid (length (?bl ms))))) (PRead jid ms)" for ms
    by (rule sim_pbind [OF tx]) (auto intro!: sim_pbind [OF adv] follows_fan_out)
  have body: "follows st q m work_end
      (pbind pskip (\<lambda>_. pbind (ask i_draw) (\<lambda>draw.
        pbind (plift (simulate_parse ms (PARSE_FAILURE_RATE st) draw)) (\<lambda>all_blocks.
        let blocks = capped (MAX_BLOCKS st) all_blocks in
        pbind (transaction (parse_transaction jid blocks)) (\<lambda>_.
        pbind (transaction (\<lambda>d. case advance_status d jid GENERATING of (d', won) \<Rightarrow> (d', Inr won))) (\<lambda>_.
        fan_out jid (length blocks))))))) (PRead jid ms)" for ms
  proof (rule follows_quiet_pbind [OF quiet_adapters(4)], simp, rule follows_quiet_pbind [OF quiet_adapters(3)], simp,
      rule follows_plift_pbind, simp)
    fix draw all_blocks
    assume "simulate_parse ms (PARSE_FAILURE_RATE st) draw = Inr all_blocks"
    then have "all_blocks = split_blocks ms" by (simp add: simulate_parse_Inr_iff)
    with tail [of ms] show "follows st q m work_end
        (let blocks = capped (MAX_BLOCKS st) all_blocks in
         pbind (transaction (parse_transaction jid blocks)) (\<lambda>_.
         pbind (transaction (\<lambda>d. case advance_status d jid GENERATING of (d', won) \<Rightarrow> (d', Inr won))) (\<lambda>_.
         fan_out jid (length blocks)))) (PRead jid ms)"
      by (simp only: Let_def)
  qed
  show ?thesis
    unfolding handle_parse_def Let_def assms event.sel
    by (rule sim_pbind [OF key]) (auto intro!: sim_pbind [OF read] body [unfolded Let_def])
qed

text \<open>The finalizer.\<close>

lemma follows_stitch: "follows st q m work_end (handle_stitch ctx (StitchReady e jid)) (SWork jid)"
proof -
  have status: "follows st q m (\<lambda>S' r. S' = (case r of Inl _ \<Rightarrow> SWork jid | Inr status \<Rightarrow> if status = COMPLETED then Ended jid else SWork jid))
      (read_db (\<lambda>d. case get_job d jid of None \<Rightarrow> Inl RuntimeError | Some j \<Rightarrow> Inr (j_status j))) (SWork jid)"
    unfolding read_db_def
    by (rule follows_transaction) (auto intro: ptrans.completed ptrans.stay split: option.splits)
  have adv: "follows st q m (\<lambda>S' r. S' = (case r of Inl _ \<Rightarrow> SWork jid | Inr _ \<Rightarrow> SAdv jid))
      (transaction (\<lambda>d. case advance_status d jid STITCHING of (d', won) \<Rightarrow> (d', Inr won))) (SWork jid)"
    by (rule follows_transaction)
       (auto intro: ptrans.stay simp: ptrans.stitching [of _ jid st q m, unfolded split_beta] split_beta
         intro!: exI [of _ "SWork jid"] ptrans.stitching)
  have fin: "follows st q m (\<lambda>S' r. S' = (case r of Inl _ \<Rightarrow> SAdv jid | Inr _ \<Rightarrow> Ended jid))
      (transaction (\<lambda>d. case finalize_job d jid (final_key_of jid) of (d', won) \<Rightarrow> (d', Inr won))) (SAdv jid)"
    by (rule follows_transaction)
       (auto intro: ptrans.stay simp: split_beta intro!: exI [of _ "SAdv jid"] ptrans.final)
  have tell: "follows st q m work_end (notify ctx jid) (Ended jid)"
    by (rule follows_quiet [OF quiet_notify]) (auto simp: work_end_def split: sum.split)
  have fetch: "all_steps quiet (pmap keys (\<lambda>key. minio_get (\<lambda>s. get_bytes s key)))" for keys
    by (rule all_steps_pmap) (rule quiet_adapters)
  have put: "all_steps quiet (minio_put (\<lambda>s. put_bytes s (final_key_of jid) data ''audio/mpeg''))" for data
    by (auto intro!: all_steps_minio_put quiet_put)
  have last: "follows st q m work_end (pbind (transaction (\<lambda>d. case finalize_job d jid (final_key_of jid) of (d', won) \<Rightarrow> (d', Inr won)))
      (\<lambda>finalized. if finalized then notify ctx jid else Ret ())) (SAdv jid)"
    by (rule sim_pbind [OF fin]) (use tell in auto)
  have rest: "follows st q m work_end
       (pbind (pmap keys (\<lambda>key. minio_get (\<lambda>s. get_bytes s key))) (\<lambda>parts.
       pbind (minio_put (\<lambda>s. put_bytes s (final_key_of jid) (concat parts) ''audio/mpeg'')) (\<lambda>_.
       pbind (transaction (\<lambda>d. case finalize_job d jid (final_key_of jid) of (d', won) \<Rightarrow> (d', Inr won))) (\<lambda>finalized.
       if finalized then notify ctx jid else Ret ())))) (SAdv jid)" for keys
    by (rule follows_quiet_pbind [OF fetch], simp, rule follows_quiet_pbind [OF put], simp, rule last)
  show ?thesis
    unfolding handle_stitch_def Let_def event.sel
  proof (rule sim_pbind [OF status], simp_all, rule impI, rule follows_quiet_pbind [OF quiet_adapters(5)], simp)
    fix keys
    show "follows st q m work_end (pbind (transaction (\<lambda>d. case advance_status d jid STITCHING of (d', won) \<Rightarrow> (d', Inr won))) (\<lambda>_.
       pbind (pmap keys (\<lambda>key. minio_get (\<lambda>s. get_bytes s key))) (\<lambda>parts.
       pbind (minio_put (\<lambda>s. put_bytes s (final_key_of jid) (concat parts) ''audio/mpeg'')) (\<lambda>_.
       pbind (transaction (\<lambda>d. case finalize_job d jid (final_key_of jid) of (d', won) \<Rightarrow> (d', Inr won))) (\<lambda>finalized.
       if finalized then notify ctx jid else Ret ()))))) (SWork jid)"
      by (rule sim_pbind [OF adv]) (use rest in auto)
  qed
qed

text \<open>The dead letters of \<open>JobCreated\<close> and \<open>StitchReady\<close>.\<close>

lemma follows_dlq:
  assumes "m_body m = model_dump_json (JobCreated e jid) \<or> m_body m = model_dump_json (StitchReady e jid)"
  shows "follows st q m (handler_end esc) (make_dlq_handler ctx m) (DWork jid)"
proof -
  have "follows st q m (\<lambda>S' r. S' = (case r of Inl _ \<Rightarrow> Esc | Inr _ \<Rightarrow> Ended jid)) (transaction (dlq_fail_job (JStr jid))) (DWork jid)"
    unfolding dlq_fail_job_def json.case
    by (rule follows_transaction)
       (auto intro: ptrans.lost simp: split_beta intro!: exI [of _ Esc] ptrans.resolve)
  then show ?thesis
    unfolding make_dlq_handler_def handle_dlq_job [OF assms]
    by (intro sim_pbind [where F' = "\<lambda>S r. \<exists>x :: unit res. r = Inr x \<and> S = (case x of Inl _ \<Rightarrow> Esc | Inr _ \<Rightarrow> Ended jid)"] sim_ptry)
       (auto simp: handler_end_def intro!: sim_pbind split: sum.splits)
qed

section \<open>Deliveries\<close>

fun route_of :: "event \<Rightarrow> string" where
  "route_of (JobCreated e jid) = Q_PARSE"
| "route_of (TtsRequested e jid tid) = Q_TTS"
| "route_of (StitchReady e jid) = Q_STITCH"

fun start_stage :: "string \<Rightarrow> event \<Rightarrow> stage" where
  "start_stage q (JobCreated e jid) = (if q = Q_DLQ then DWork jid else PWork jid)"
| "start_stage q (StitchReady e jid) = (if q = Q_DLQ then DWork jid else SWork jid)"
| "start_stage q (TtsRequested e jid tid) = TWork jid tid"

lemma follows_handler:
  assumes "map_of (all_handlers ctx) q = Some h" and "m_body m = model_dump_json ev"
    and "q = route_of ev \<or> q = Q_DLQ \<and> route_of ev \<noteq> Q_TTS" and "settings ctx = st"
    and "retry_delays st = Inr ds" and "ds \<noteq> []" and "get_retry_count m = Inr c" and "0 \<le> c" and "esc InfraError"
  shows "follows st q m (handler_end esc) (h m) (start_stage q ev)"
proof (cases "q = Q_DLQ")
  case True
  with assms(1-3) show ?thesis
    by (cases ev) (auto simp: all_handlers_def build_handlers_def intro!: follows_dlq)
next
  case False
  have al: "follows st p m (handler_end esc) (ack_last ctx p work m) S"
    if "follows st p m work_end (work m) S" "p \<in> set live_queues" for work S p
    by (rule follows_ack_last [where work = work and m = m and esc = esc, OF that(1) assms(4-9) that(2)])
  from False assms(3) have q: "q = route_of ev" by simp
  show ?thesis
  proof (cases ev)
    case (JobCreated e jid)
    with q assms(1) have h: "h = make_parse_handler ctx" by simp
    show ?thesis
      unfolding h make_parse_handler_def q JobCreated route_of.simps
      by (rule al, rule follows_quiet_pbind [OF quiet_adapters(3)])
         (use assms(2) follows_parse [OF assms(4)] JobCreated in \<open>simp_all add: plift_def live_queues_def\<close>)
  next
    case (TtsRequested e jid tid)
    with q assms(1) have h: "h = make_tts_handler ctx" by simp
    show ?thesis
      unfolding h make_tts_handler_def q TtsRequested route_of.simps
      by (rule al, rule follows_quiet_pbind [OF quiet_adapters(3)])
         (use assms(2) follows_tts TtsRequested in \<open>simp_all add: plift_def live_queues_def\<close>)
  next
    case (StitchReady e jid)
    with q assms(1) have h: "h = make_stitch_handler ctx" by simp
    show ?thesis
      unfolding h make_stitch_handler_def q StitchReady route_of.simps
      by (rule al, rule follows_quiet_pbind [OF quiet_adapters(3)])
         (use assms(2) follows_stitch StitchReady in \<open>simp_all add: plift_def live_queues_def\<close>)
  qed
qed

section \<open>The protocol of the other programs\<close>

definition texts_kept :: "world \<Rightarrow> world \<Rightarrow> bool" where
  "texts_kept w w' \<longleftrightarrow> (\<forall>jid ms. get_text (w_minio w) (manuscript_key_of jid) = Inr ms \<longrightarrow>
    get_text (w_minio w') (manuscript_key_of jid) = Inr ms)"

text \<open>
  A step that leaves jobs, tasks and manuscripts alone and at most declares the topology again or
  publishes a \<open>JobCreated\<close> of one of the jobs \<open>J\<close>.
\<close>

definition harmless :: "Settings \<Rightarrow> string set \<Rightarrow> broker \<Rightarrow> broker \<Rightarrow> bool" where
  "harmless st J b b' \<longleftrightarrow> b' = b \<or> (\<exists>u. \<exists>jid \<in> J. b' = publish b (JobCreated u jid) Q_PARSE)
    \<or> (\<exists>ds. declare_full ds b = Inr b' \<and> (retry_delays st = Inr ds \<or> ds = DEFAULT_RETRY_DELAYS))"

definition beside :: "Settings \<Rightarrow> string set \<Rightarrow> world \<Rightarrow> world \<Rightarrow> bool" where
  "beside st J w w' \<longleftrightarrow> jobs (w_db w') = jobs (w_db w) \<and> tasks (w_db w') = tasks (w_db w)
    \<and> (wf_db (w_db w) \<longrightarrow> wf_db (w_db w')) \<and> harmless st J (w_broker w) (w_broker w') \<and> texts_kept w w'"

lemma beside_refl [simp]: "beside st J w w"
  by (simp add: beside_def harmless_def texts_kept_def)

lemma quiet_beside: "quiet w w' \<Longrightarrow> beside st J w w'"
  by (simp add: quiet_def beside_def harmless_def texts_kept_def)

lemma beside_adapters:
  "all_steps (beside st J) (redis_cmd c)" "all_steps (beside st J) (ask x)" "all_steps (beside st J) pskip"
  "all_steps (beside st J) (read_db rq)" "jid \<in> J \<Longrightarrow> all_steps (beside st J) (publish_event (\<lambda>u. JobCreated u jid) Q_PARSE)"
  "retry_delays st = Inr ds \<or> ds = DEFAULT_RETRY_DELAYS \<Longrightarrow> all_steps (beside st J) (broker_put (\<lambda>i b. declare_full ds b))"
  "all_steps (beside st J) (minio_put (\<lambda>m. Inr (ensure_bucket m)))"
proof -
  have quiet: "all_steps quiet p \<Longrightarrow> all_steps (beside st J) p" for p :: "'z action"
    by (erule all_steps_mono) (rule quiet_beside)
  show "all_steps (beside st J) (redis_cmd c)" "all_steps (beside st J) (ask x)" "all_steps (beside st J) pskip"
    "all_steps (beside st J) (read_db rq)"
    by (auto intro: all_steps_mono [OF _ quiet_beside] quiet_adapters)
  show "all_steps (beside st J) (publish_event (\<lambda>u. JobCreated u jid) Q_PARSE)" if "jid \<in> J"
    unfolding publish_event_def
    by (rule all_steps_broker_put) (use that in \<open>auto simp: beside_def harmless_def texts_kept_def\<close>)
  show "all_steps (beside st J) (broker_put (\<lambda>i b. declare_full ds b))" if "retry_delays st = Inr ds \<or> ds = DEFAULT_RETRY_DELAYS"
    by (rule all_steps_broker_put) (use that in \<open>auto simp: beside_def harmless_def texts_kept_def\<close>)
  have "get_text (ensure_bucket s) k = Inr ms" if "get_text s k = Inr ms" for s k ms
    using that by (auto simp: get_text_def get_bytes_def ensure_bucket_def split: if_splits)
  then show "all_steps (beside st J) (minio_put (\<lambda>m. Inr (ensure_bucket m)))"
    by (intro all_steps_minio_put) (auto simp: beside_def harmless_def texts_kept_def)
qed

datatype tstage = GFree "string set" | GAsk | GPut string | GIns string

fun known :: "tstage \<Rightarrow> string set" where
  "known (GFree J) = J"
| "known _ = {}"

inductive btrans :: "Settings \<Rightarrow> inp \<Rightarrow> tstage \<Rightarrow> world \<Rightarrow> world \<Rightarrow> tstage \<Rightarrow> bool" for st i where
  free: "beside st (known S) w w' \<Longrightarrow> S' = S \<or> S' = GFree {} \<Longrightarrow> btrans st i S w w' S'"
| draw: "btrans st i GAsk w w (GPut (i_uuid i))"
| put: "put_text (w_minio w) (manuscript_key_of jid) ms = Inr s \<Longrightarrow> S' = GIns jid \<or> S' = GFree {} \<Longrightarrow>
    btrans st i (GPut jid) w (w\<lparr>w_minio := s\<rparr>) S'"
| insert_row: "insert_job (w_db w) jid (manuscript_key_of jid) cb = Inr d \<Longrightarrow> btrans st i (GIns jid) w (w\<lparr>w_db := d\<rparr>) (GFree {jid})"
| look: "\<forall>jid \<in> J. get_job (w_db w) jid \<noteq> None \<Longrightarrow> btrans st i (GFree {}) w w (GFree J)"

definition any_end :: "tstage \<Rightarrow> 'a res \<Rightarrow> bool" where
  "any_end S r \<longleftrightarrow> True"

lemma btrans_free: "all_steps (beside st J) p \<Longrightarrow> sim (btrans st) any_end p (GFree J)"
  by (rule sim_stay [where G = "beside st J"]) (auto intro: btrans.free simp: any_end_def)

lemma sim_create_job: "sim (btrans st) any_end (create_job body) GAsk"
proof -
  have draw: "sim (btrans st) (\<lambda>S r. \<exists>jid. r = Inr jid \<and> S = GPut jid) (ask i_uuid) GAsk"
    by (auto simp: ask_def sim_Step intro: btrans.draw)
  have put: "sim (btrans st) (\<lambda>S r. S = (case r of Inl _ \<Rightarrow> GFree {} | Inr _ \<Rightarrow> GIns jid))
      (minio_put (\<lambda>s. put_text s (manuscript_key_of jid) ms)) (GPut jid)" for jid ms
    unfolding minio_put_def
    by (rule sim_atomic) (auto intro: btrans.put btrans.free split: sum.splits)
  have ins: "sim (btrans st) (\<lambda>S r. case r of Inl _ \<Rightarrow> True | Inr _ \<Rightarrow> S = GFree {jid})
      (transaction (\<lambda>d. case insert_job d jid (manuscript_key_of jid) cb of Inl e \<Rightarrow> (d, Inl e) | Inr d' \<Rightarrow> (d', Inr ())))
      (GIns jid)" for jid cb
    unfolding transaction_def
    by (rule sim_atomic) (auto intro: btrans.insert_row btrans.free [OF beside_refl] simp: Let_def split: sum.splits)
  have tail: "sim (btrans st) any_end (pbind (publish_event (\<lambda>u. JobCreated u jid) Q_PARSE) (\<lambda>_. Ret (JobAccepted jid))) (GFree {jid})" for jid
    by (rule btrans_free) (intro all_steps_pbind beside_adapters, simp_all)
  show ?thesis
    unfolding create_job_def
  proof (rule sim_pbind [OF draw], elim exE conjE, simp)
    fix jid
    show "sim (btrans st) any_end (pbind (minio_put (\<lambda>s. put_text s (manuscript_key_of jid) (manuscript body))) (\<lambda>_.
      pbind (transaction (\<lambda>d. case insert_job d jid (manuscript_key_of jid) (req_callback_url body) of
        Inl e \<Rightarrow> (d, Inl e) | Inr d' \<Rightarrow> (d', Inr ()))) (\<lambda>_.
      pbind (publish_event (\<lambda>u. JobCreated u jid) Q_PARSE) (\<lambda>_. Ret (JobAccepted jid))))) (GPut jid)"
      by (rule sim_pbind [OF put]) (auto simp: any_end_def intro!: sim_pbind [OF ins] tail)
  qed (simp add: any_end_def)
qed

lemma sim_catch:
  assumes "sim (btrans st) any_end p S" and "\<And>e. \<exists>a. h e = Ret a"
  shows "sim (btrans st) any_end (pbind (pcatch p h) (\<lambda>_. Ret ())) S"
proof -
  have "sim (btrans st) any_end (ptry p) S"
    by (rule sim_ptry) (rule sim_weaken [OF assms(1)], simp add: any_end_def)
  moreover have "sim (btrans st) any_end (h e) S'" for e S'
    using assms(2) [of e] by (auto simp: any_end_def)
  ultimately show ?thesis
    unfolding pcatch_def
    by (intro sim_pbind [where F' = any_end]) (auto simp: any_end_def split: sum.split)
qed

lemma sim_background:
  assumes "background st t"
  shows "\<exists>S. (S = GFree {} \<or> S = GAsk) \<and> sim (btrans st) any_end t S"
  using assms
proof (cases rule: background.cases)
  case (request rq)
  show ?thesis
  proof (cases "rq_route rq")
    case (PostJobs body)
    have guard: "sim (btrans st) any_end (guard_manuscript_size st rq (create_job body)) GAsk"
      using sim_create_job [of st body]
      by (auto simp: guard_manuscript_size_def PostJobs plift_def any_end_def split: option.split sum.split)
    then show ?thesis
      unfolding request serve_def PostJobs call_route.simps by (intro exI [of _ GAsk] conjI disjI2 sim_catch) simp_all
  next
    case (GetStatus jid)
    then show ?thesis
      unfolding request serve_def guard_manuscript_size_def
      by (auto simp: get_status_def intro!: exI [of _ "GFree {}"] btrans_free all_steps_pbind all_steps_pcatch beside_adapters
          split: option.split)
  next
    case GetStats
    then show ?thesis
      unfolding request serve_def guard_manuscript_size_def
      by (auto simp: stats_def intro!: exI [of _ "GFree {}"] btrans_free all_steps_pbind all_steps_pcatch beside_adapters
          split: option.split)
  next
    case GetHealth
    then show ?thesis
      unfolding request serve_def guard_manuscript_size_def
      by (auto intro!: exI [of _ "GFree {}"] btrans_free all_steps_pbind all_steps_pcatch split: option.split)
  qed
next
  case sweeper
  have purge: "all_steps (beside st J) (purge_once r)" for J r
    unfolding purge_once_def
    by (rule all_steps_transaction)
       (use wf_purge in \<open>auto simp: beside_def harmless_def texts_kept_def purge_processed_events_def split_beta Let_def\<close>)
  have stale: "get_job d jid \<noteq> None" if "jid \<in> set (stale_pending d s)" for d s jid
    using that by (auto simp: stale_pending_def row_get_None_iff)
  have look: "sim (btrans st) (\<lambda>S r. case r of Inl _ \<Rightarrow> S = GFree {} | Inr ids \<Rightarrow> S = GFree (set ids))
      (read_db (\<lambda>d. Inr (stale_pending d s))) (GFree {})" for s
    unfolding read_db_def transaction_def
    by (rule sim_atomic) (auto intro!: btrans.look stale btrans.free simp: Let_def)
  have pubs: "sim (btrans st) (\<lambda>S r. \<exists>J. S = GFree J) (pbind (pfor ids (\<lambda>jid. publish_event (\<lambda>u. JobCreated u jid) Q_PARSE)) (\<lambda>_. Ret n)) (GFree (set ids))" for ids n
    by (rule sim_stay [where G = "beside st (set ids)"])
       (auto intro!: all_steps_pbind all_steps_pfor beside_adapters btrans.free)
  have once: "sim (btrans st) (\<lambda>S r. \<exists>J. S = GFree J) (sweep_once s) (GFree {})" for s
    unfolding sweep_once_def by (rule sim_pbind [OF look]) (auto intro!: pubs)
  have pass: "sim (btrans st) (\<lambda>S r. (\<exists>J. S = GFree J) \<and> (\<exists>a. r = Inr a))
      (pcatch (pbind (sweep_once s) (\<lambda>_. Ret ())) (\<lambda>_. Ret ())) (GFree {})" for s
    unfolding pcatch_def
    by (rule sim_pbind [where F' = "\<lambda>S r. (\<exists>J. S = GFree J) \<and> (\<exists>a. r = Inr a)"], rule sim_ptry)
       (auto intro!: sim_pbind [OF once] split: sum.split)
  show ?thesis
    unfolding sweeper sweeper_pass_def
    by (intro exI [of _ "GFree {}"] conjI disjI1 sim_pbind [OF pass])
       (auto intro!: btrans_free all_steps_pcatch all_steps_pbind purge)
next
  case (boot wid)
  have "all_steps (beside st {}) (build_context st wid)"
    unfolding build_context_def Let_def plift_def
    by (cases "retry_delays st") (auto intro!: all_steps_pbind beside_adapters)
  then show ?thesis unfolding boot by (intro exI [of _ "GFree {}"] conjI disjI1 btrans_free all_steps_pbind) simp_all
qed (auto simp: reseed_pass_def reap_pass_def gateway_startup_def
      intro!: exI [of _ "GFree {}"] btrans_free all_steps_pbind all_steps_pcatch all_steps_pfor beside_adapters)

end
