(* ===== verification/Duties.thy ===== *)
theory Duties
  imports Protocol
begin

text \<open>
  What a message stands for (\<open>duty\<close>), and what the tables say about a job: \<open>db_ok\<close> is their integrity in
  the light of the stored manuscripts, \<open>driven\<close> that every active job has the duties that bring it to
  its next stage. For each transaction of the services there is a lemma on what it does to both, and
  for each message that may be dropped a lemma that the job is still driven.
\<close>

section \<open>Messages as duties\<close>

text \<open>
  What a message in a queue stands for. The bodies of \<open>JobCreated\<close> and \<open>StitchReady\<close> are the same, so
  it is the queue that tells them apart; in the dead-letter queue such a message stands for both.
\<close>

datatype duty = NCreated string | NTts string string | NStitch string

fun duty_of :: "event \<Rightarrow> duty" where
  "duty_of (JobCreated e jid) = NCreated jid"
| "duty_of (TtsRequested e jid tid) = NTts jid tid"
| "duty_of (StitchReady e jid) = NStitch jid"

definition queue_for :: "string \<Rightarrow> event \<Rightarrow> bool" where
  "queue_for q ev \<longleftrightarrow> q = route_of ev \<or> (\<exists>d. q = retry_q_name (route_of ev) d)"

definition has :: "string \<Rightarrow> msg \<Rightarrow> duty \<Rightarrow> bool" where
  "has q m n \<longleftrightarrow> (\<exists>ev. m_body m = model_dump_json ev \<and> duty_of ev = n \<and> (q = Q_DLQ \<or> queue_for q ev))"

lemma route_of_live: "route_of ev \<in> set live_queues"
  by (cases ev) (simp_all add: live_queues_def)

lemma live_not_retry: "l \<in> set live_queues \<Longrightarrow> retry_q_name l' d \<noteq> l" "l \<in> set live_queues \<Longrightarrow> l \<noteq> retry_q_name l' d"
  by (auto simp: live_queues_def dest: retry_q_name_not_live [THEN notE, rotated])

lemma queue_for_route: "queue_for q ev \<Longrightarrow> queue_for q ev' \<Longrightarrow> route_of ev = route_of ev'"
  unfolding queue_for_def using live_not_retry route_of_live retry_q_name_inj by metis

lemma dump_eq: "model_dump_json ev = model_dump_json ev' \<Longrightarrow> route_of ev = route_of ev' \<Longrightarrow> ev = ev'"
  by (cases ev; cases ev') (simp_all add: model_dump_json_def)

lemma queue_for_DLQ [simp]: "\<not> queue_for Q_DLQ ev"
  using route_of_live [of ev] retry_q_name_not_live(1) [symmetric] by (auto simp: queue_for_def live_queues_def)

lemma has_unique: "has q m n \<Longrightarrow> has q m n' \<Longrightarrow> q \<noteq> Q_DLQ \<Longrightarrow> n = n'"
  unfolding has_def using queue_for_route dump_eq by metis

lemma has_event_msg: "queue_for q ev \<Longrightarrow> has q (event_msg ev) n \<longleftrightarrow> n = duty_of ev"
  by (metis event_msg_body has_def has_unique queue_for_DLQ)

lemma has_retried [simp]: "has q (retried_msg m c) n \<longleftrightarrow> has q m n"
  by (simp add: has_def)

lemma has_target:
  assumes "has q m n" and "q \<in> set live_queues" and "target \<in> retry_targets st q"
  shows "has target m n"
proof -
  have "q \<noteq> Q_DLQ" using assms(2) by (auto simp: live_queues_def)
  with assms(1) obtain ev where ev: "m_body m = model_dump_json ev" "duty_of ev = n" "queue_for q ev" by (auto simp: has_def)
  then have "q = route_of ev" using assms(2) live_not_retry(2) by (auto simp: queue_for_def)
  with assms(2,3) have "target = Q_DLQ \<or> queue_for target ev" by (auto simp: retry_targets_def queue_for_def)
  with ev show ?thesis by (auto simp: has_def)
qed

section \<open>What the database says about a job\<close>

definition status_in :: "db \<Rightarrow> string \<Rightarrow> JobStatus set \<Rightarrow> bool" where
  "status_in d jid A \<longleftrightarrow> (\<exists>j. get_job d jid = Some j \<and> j_status j \<in> A)"

definition row_at :: "db \<Rightarrow> string \<Rightarrow> nat \<Rightarrow> bool" where
  "row_at d jid k \<longleftrightarrow> (\<exists>t \<in> set (tasks d). t_job t = jid \<and> block_index t = k)"

definition is_done :: "db \<Rightarrow> string \<Rightarrow> bool" where
  "is_done d tid \<longleftrightarrow> (\<exists>t \<in> set (tasks d). t_id t = tid \<and> t_status t = T_DONE)"

abbreviation launched :: "db \<Rightarrow> string \<Rightarrow> bool" where
  "launched d jid \<equiv> status_in d jid (- {PENDING, PARSING})"

definition all_done :: "db \<Rightarrow> string \<Rightarrow> bool" where
  "all_done d jid \<longleftrightarrow> (\<forall>t \<in> set (tasks d). t_job t = jid \<longrightarrow> t_status t = T_DONE)"

text \<open>The barrier of the job is open for good, or the job has failed.\<close>

definition settled :: "db \<Rightarrow> string \<Rightarrow> bool" where
  "settled d jid \<longleftrightarrow> status_in d jid {FAILED} \<or> launched d jid \<and> all_done d jid"

definition blks :: "Settings \<Rightarrow> world \<Rightarrow> string \<Rightarrow> pystr list" where
  "blks st w jid =
    (case get_text (w_minio w) (manuscript_key_of jid) of
       Inr ms \<Rightarrow> capped (MAX_BLOCKS st) (split_blocks ms) | Inl _ \<Rightarrow> [])"

text \<open>The integrity of the tables in the light of the manuscripts.\<close>

definition db_ok :: "Settings \<Rightarrow> world \<Rightarrow> bool" where
  "db_ok st w \<longleftrightarrow> (let d = w_db w in
     wf_db d \<and> task_ids_ok d \<and> fan_in_ok d
     \<and> (\<forall>t \<in> set (tasks d). t_status t \<noteq> T_FAILED \<and> block_index t < length (blks st w (t_job t)))
     \<and> (\<forall>jid j. get_job d jid = Some j \<longrightarrow>
          manuscript_key j = manuscript_key_of jid \<and> (\<exists>ms. get_text (w_minio w) (manuscript_key_of jid) = Inr ms)
          \<and> (j_status j \<notin> {PENDING, FAILED} \<longrightarrow> (\<forall>k < length (blks st w jid). row_at d jid k))
          \<and> (j_status j = PARSING \<longrightarrow> (\<forall>t \<in> set (tasks d). t_job t = jid \<longrightarrow> t_status t = T_PENDING))
          \<and> (j_status j \<in> {STITCHING, COMPLETED} \<longrightarrow> all_done d jid)))"

text \<open>
  Who is still to act on a job: a parsed job has its \<open>JobCreated\<close> or a \<open>TtsRequested\<close> for every block
  that is to be done; at the barrier there is a \<open>StitchReady\<close>, or the message of a completed block
  whose handler will (again) find the counter at zero.
\<close>

definition driven_job :: "Task list \<Rightarrow> duty set \<Rightarrow> string \<Rightarrow> Job \<Rightarrow> bool" where
  "driven_job ts C jid j \<longleftrightarrow>
     (j_status j = PARSING \<longrightarrow> NCreated jid \<in> C)
     \<and> (j_status j = GENERATING \<longrightarrow>
         (NCreated jid \<in> C \<or> (\<forall>t \<in> set ts. t_job t = jid \<and> t_status t = T_PENDING \<longrightarrow> NTts jid (t_id t) \<in> C))
         \<and> ((\<exists>t \<in> set ts. t_job t = jid) \<longrightarrow> pending_count j = 0 \<longrightarrow>
              NStitch jid \<in> C \<or> (\<exists>t \<in> set ts. t_job t = jid \<and> t_status t = T_DONE \<and> NTts jid (t_id t) \<in> C))
         \<and> ((\<forall>t \<in> set ts. t_job t \<noteq> jid) \<longrightarrow> NCreated jid \<in> C \<or> NStitch jid \<in> C))
     \<and> (j_status j = STITCHING \<longrightarrow> NStitch jid \<in> C)"

definition driven :: "db \<Rightarrow> duty set \<Rightarrow> bool" where
  "driven d C \<longleftrightarrow> (\<forall>jid j. get_job d jid = Some j \<longrightarrow> driven_job (tasks d) C jid j)"

lemma driven_mono: "driven d C \<Longrightarrow> C \<subseteq> C' \<Longrightarrow> driven d C'"
  unfolding driven_def driven_job_def by (meson subsetD)

text \<open>A job for which nothing is left to act has ended or waits for the sweeper.\<close>

lemma driven_job_none:
  assumes "driven_job (tasks d) {} jid j" and "fan_in_ok d" and "get_job d jid = Some j"
  shows "j_status j \<in> {PENDING, COMPLETED, FAILED}"
proof -
  from assms(1) have o: "j_status j \<noteq> PARSING" "j_status j \<noteq> STITCHING"
    "j_status j = GENERATING \<Longrightarrow> (\<forall>t \<in> set (tasks d). t_job t = jid \<longrightarrow> t_status t \<noteq> T_PENDING)
      \<and> ((\<exists>t \<in> set (tasks d). t_job t = jid) \<longrightarrow> pending_count j \<noteq> 0) \<and> \<not> (\<forall>t \<in> set (tasks d). t_job t \<noteq> jid)"
    by (auto simp: driven_job_def)
  have False if "j_status j = GENERATING"
  proof -
    have "pending_count j = int (pending_tasks d jid)"
      using assms(2,3) that row_get_SomeD [OF assms(3)] by (auto simp: fan_in_ok_def)
    moreover have "pending_tasks d jid = 0"
      using o(3) [OF that] by (simp add: pending_tasks_def rowcount_zero_iff)
    ultimately show False using o(3) [OF that] by auto
  qed
  with o(1,2) show ?thesis by (cases "j_status j") auto
qed

section \<open>The transactions keep every job driven\<close>

lemma status_in_step:
  assumes "statuses_step d d'" and "status_in d jid A" and "\<And>a b. a \<in> A \<Longrightarrow> can_transition a b \<Longrightarrow> b \<in> A"
  shows "status_in d' jid A"
proof -
  from assms(2) obtain j where "get_job d jid = Some j" "j_status j \<in> A" by (auto simp: status_in_def)
  moreover from this(1) assms(1) obtain j' where "get_job d' jid = Some j'" "status_step (j_status j) (j_status j')"
    unfolding statuses_step_def by blast
  ultimately show ?thesis using assms(3) by (auto simp: status_in_def status_step_def)
qed

lemma settled_step:
  assumes "statuses_step d d'" and "tasks d' = tasks d" and "settled d jid"
  shows "settled d' jid"
proof -
  have "status_in d jid {FAILED} \<Longrightarrow> status_in d' jid {FAILED}" "launched d jid \<Longrightarrow> launched d' jid"
    by (erule status_in_step [OF assms(1)], auto simp: can_transition_iff)+
  then show ?thesis using assms(2,3) by (auto simp: settled_def all_done_def)
qed

definition keeps :: "db \<Rightarrow> db \<Rightarrow> bool" where
  "keeps d d' \<longleftrightarrow> statuses_step d d' \<and> (\<forall>jid k. row_at d jid k \<longrightarrow> row_at d' jid k)
    \<and> (\<forall>tid. is_done d tid \<longrightarrow> is_done d' tid) \<and> (\<forall>jid. get_job d' jid = None \<longleftrightarrow> get_job d jid = None)
    \<and> (\<forall>jid. settled d jid \<longrightarrow> settled d' jid)"

lemma keeps_refl [simp]: "keeps d d"
  by (simp add: keeps_def)

lemma blks_db [simp]: "blks st (w\<lparr>w_db := d\<rparr>) = blks st w"
  by (simp add: blks_def fun_eq_iff)

lemma db_ok_D:
  assumes "db_ok st w"
  shows "wf_db (w_db w)" "task_ids_ok (w_db w)" "fan_in_ok (w_db w)"
    "\<And>t. t \<in> set (tasks (w_db w)) \<Longrightarrow> t_status t \<noteq> T_FAILED"
    "\<And>t. t \<in> set (tasks (w_db w)) \<Longrightarrow> block_index t < length (blks st w (t_job t))"
    "\<And>jid j. get_job (w_db w) jid = Some j \<Longrightarrow> manuscript_key j = manuscript_key_of jid"
    "\<And>jid j. get_job (w_db w) jid = Some j \<Longrightarrow> \<exists>ms. get_text (w_minio w) (manuscript_key_of jid) = Inr ms"
    "\<And>jid j k. get_job (w_db w) jid = Some j \<Longrightarrow> j_status j \<notin> {PENDING, FAILED} \<Longrightarrow> k < length (blks st w jid) \<Longrightarrow>
      row_at (w_db w) jid k"
    "\<And>jid j t. get_job (w_db w) jid = Some j \<Longrightarrow> j_status j = PARSING \<Longrightarrow> t \<in> set (tasks (w_db w)) \<Longrightarrow> t_job t = jid \<Longrightarrow>
      t_status t = T_PENDING"
    "\<And>jid j. get_job (w_db w) jid = Some j \<Longrightarrow> j_status j \<in> {STITCHING, COMPLETED} \<Longrightarrow> all_done (w_db w) jid"
  using assms by (simp_all add: db_ok_def Let_def) blast

lemma get_task_row:
  assumes "wf_db d" and "t \<in> set (tasks d)"
  shows "get_task d (t_id t) = Some t"
  using assms row_get_unique [of t_id "tasks d" t] by (simp add: wf_db_def)

text \<open>The rows after a claim.\<close>

definition claimed :: "db \<Rightarrow> string \<Rightarrow> string \<Rightarrow> Task \<Rightarrow> Task" where
  "claimed d tid key t = (if t_id t = tid \<and> t_status t \<noteq> T_DONE
    then t\<lparr>t_status := T_DONE, audio_key := Some key, t_updated_at := db_now d\<rparr> else t)"

lemma claimed_simps [simp]:
  "t_id (claimed d tid key t) = t_id t" "t_job (claimed d tid key t) = t_job t"
  "block_index (claimed d tid key t) = block_index t"
  "t_status (claimed d tid key t) = (if t_id t = tid then T_DONE else t_status t)"
  by (simp_all add: claimed_def)

lemma set_claim_done: "set (claim_done d tid key) = claimed d tid key ` set (tasks d)"
  by (simp add: claim_done_def sql_update_def claimed_def [abs_def])

lemma get_job_decrementedE:
  assumes "get_job (d\<lparr>tasks := ts, jobs := decremented d jid\<rparr>) i = Some j'"
  obtains j where "get_job d i = Some j" "j_status j' = j_status j" "manuscript_key j' = manuscript_key j"
    "pending_count j' = (if i = jid then pending_count j - 1 else pending_count j)"
proof -
  from assms obtain j where "get_job d i = Some j"
    "j' = (if i = jid then j\<lparr>pending_count := pending_count j - 1, j_updated_at := db_now d\<rparr> else j)"
    unfolding get_job_decremented_any by (cases "get_job d i") simp_all
  then show ?thesis using that by simp
qed

lemma keeps_claim:
  "keeps d (d\<lparr>tasks := claim_done d tid key, jobs := decremented d jid\<rparr>)"
  unfolding keeps_def
proof (intro conjI allI impI)
  let ?d = "d\<lparr>tasks := claim_done d tid key, jobs := decremented d jid\<rparr>"
  show "statuses_step d ?d" by (rule statuses_step_decremented)
  show "row_at ?d i k" if "row_at d i k" for i k
    using that by (auto simp: row_at_def set_claim_done)
  show "is_done ?d x" if "is_done d x" for x
    using that by (auto simp: is_done_def set_claim_done)
  show "(get_job ?d i = None) = (get_job d i = None)" for i
    unfolding get_job_decremented_any by simp
  have job: "get_job ?d i = Some j' \<Longrightarrow> \<exists>j. get_job d i = Some j \<and> j_status j = j_status j'"
    "get_job d i = Some j \<Longrightarrow> \<exists>j'. get_job ?d i = Some j' \<and> j_status j' = j_status j" for i j j'
    unfolding get_job_decremented_any by auto
  have "status_in d i S \<Longrightarrow> status_in ?d i S" for i S
    using job(2) [of i] unfolding status_in_def by metis
  moreover have "all_done d i \<Longrightarrow> all_done ?d i" for i by (auto simp: all_done_def set_claim_done)
  ultimately show "settled ?d i" if "settled d i" for i using that unfolding settled_def by blast
qed

lemma db_ok_claim:
  assumes "db_ok st w" and "t \<in> set (tasks (w_db w))" and "t_status t = T_PENDING" and "t_id t = tid" and "t_job t = jid"
    and "launched (w_db w) jid"
  shows "db_ok st (w\<lparr>w_db := (w_db w)\<lparr>tasks := claim_done (w_db w) tid key, jobs := decremented (w_db w) jid\<rparr>\<rparr>)"
proof -
  let ?d = "w_db w"
  let ?d' = "?d\<lparr>tasks := claim_done ?d tid key, jobs := decremented ?d jid\<rparr>"
  note ok = db_ok_D [OF assms(1)]
  from assms(6) obtain j where j: "get_job ?d jid = Some j" "j_status j \<notin> {PENDING, PARSING}" by (auto simp: status_in_def)
  have t: "get_task ?d tid = Some t" using get_task_row [OF ok(1) assms(2)] assms(4) by simp
  have res: "complete_task_and_decrement ?d jid tid key = (?d', Inr (Some (pending_count j - 1)))"
    using complete_cases [OF ok(1)] t assms(3) j(1) by simp
  have wf: "wf_db ?d'" using wf_complete [OF ok(1), of jid tid key] res by simp
  have "fan_in_ok ?d'" using fan_in_complete [OF ok(1,3), of tid jid key] res t assms(3,5) by auto
  moreover have "task_ids_ok ?d'" using ok(2) by (simp add: task_ids_ok_def set_claim_done)
  moreover have "t_status t' \<noteq> T_FAILED \<and> block_index t' < length (blks st w (t_job t'))" if "t' \<in> set (tasks ?d')" for t'
    using that ok(4,5) by (auto simp: set_claim_done split: if_splits)
  moreover have "manuscript_key j' = manuscript_key_of i \<and> (\<exists>ms. get_text (w_minio w) (manuscript_key_of i) = Inr ms)
      \<and> (j_status j' \<notin> {PENDING, FAILED} \<longrightarrow> (\<forall>k < length (blks st w i). row_at ?d' i k))
      \<and> (j_status j' = PARSING \<longrightarrow> (\<forall>t \<in> set (tasks ?d'). t_job t = i \<longrightarrow> t_status t = T_PENDING))
      \<and> (j_status j' \<in> {STITCHING, COMPLETED} \<longrightarrow> all_done ?d' i)"
    if "get_job ?d' i = Some j'" for i j'
  proof -
    from get_job_decrementedE [OF that] obtain j0 where j0: "get_job ?d i = Some j0" "j_status j' = j_status j0"
      "manuscript_key j' = manuscript_key j0" by metis
    have row: "row_at ?d' i k" if "row_at ?d i k" for k using that keeps_claim by (simp add: keeps_def)
    have "t_status t' = T_PENDING" if "j_status j' = PARSING" "t' \<in> set (tasks ?d')" "t_job t' = i" for t'
    proof -
      from that(2) obtain t0 where t0: "t0 \<in> set (tasks ?d)" "t' = claimed ?d tid key t0"
        by (auto simp: set_claim_done)
      have "i \<noteq> jid" using that(1) j0 j by auto
      moreover have "t_job t0 = i" using t0(2) that(3) by simp
      moreover have "t_id t0 = tid \<Longrightarrow> t0 = t" using get_task_row [OF ok(1) t0(1)] t by simp
      ultimately show ?thesis using t0 ok(9) [OF j0(1) _ t0(1)] that(1) j0(2) assms(5) by auto
    qed
    moreover have "all_done ?d' i" if "all_done ?d i" using that by (auto simp: all_done_def set_claim_done)
    ultimately show ?thesis using j0 ok(6,7) [OF j0(1)] ok(8,10) [OF j0(1)] row by auto
  qed
  ultimately show ?thesis
    using wf by (simp add: db_ok_def Let_def)
qed

lemma driven_claim:
  assumes "db_ok st w" and "driven (w_db w) C" and "NTts jid tid \<in> C"
    and "t \<in> set (tasks (w_db w))" and "t_id t = tid" and "t_job t = jid" and "t_status t = T_PENDING"
  shows "driven ((w_db w)\<lparr>tasks := claim_done (w_db w) tid key, jobs := decremented (w_db w) jid\<rparr>) C"
proof -
  let ?d = "w_db w"
  let ?d' = "?d\<lparr>tasks := claim_done ?d tid key, jobs := decremented ?d jid\<rparr>"
  have dn: "\<exists>t' \<in> set (tasks ?d'). t_job t' = jid \<and> t_status t' = T_DONE \<and> t_id t' = tid"
    using assms(4-7) by (auto simp: set_claim_done)
  show ?thesis
    unfolding driven_def
  proof (intro allI impI)
    fix i j'
    assume "get_job ?d' i = Some j'"
    from get_job_decrementedE [OF this] obtain j where j: "get_job ?d i = Some j" "j_status j' = j_status j"
      "pending_count j' = (if i = jid then pending_count j - 1 else pending_count j)"
      by metis
    have dr: "driven_job (tasks ?d) C i j" using assms(2) j(1) by (simp add: driven_def)
    have rows: "(\<exists>t \<in> set (tasks ?d'). t_job t = i) \<longleftrightarrow> (\<exists>t \<in> set (tasks ?d). t_job t = i)"
      by (simp add: set_claim_done)
    have pend: "\<forall>t \<in> set (tasks ?d'). t_job t = i \<and> t_status t = T_PENDING \<longrightarrow> NTts i (t_id t) \<in> C"
      if "\<forall>t \<in> set (tasks ?d). t_job t = i \<and> t_status t = T_PENDING \<longrightarrow> NTts i (t_id t) \<in> C"
      using that by (simp add: set_claim_done)
    have fin: "\<exists>t \<in> set (tasks ?d'). t_job t = i \<and> t_status t = T_DONE \<and> NTts i (t_id t) \<in> C"
      if "\<exists>t \<in> set (tasks ?d). t_job t = i \<and> t_status t = T_DONE \<and> NTts i (t_id t) \<in> C"
      using that by (simp add: set_claim_done) blast
    have zero: "NStitch i \<in> C \<or> (\<exists>t \<in> set (tasks ?d'). t_job t = i \<and> t_status t = T_DONE \<and> NTts i (t_id t) \<in> C)"
      if "j_status j = GENERATING" "\<exists>t \<in> set (tasks ?d). t_job t = i" "pending_count j' = 0"
      using that dn assms(3) dr [unfolded driven_job_def] fin j(3) by (cases "i = jid") auto
    show "driven_job (tasks ?d') C i j'"
      unfolding driven_job_def using dr [unfolded driven_job_def] pend zero rows j(2) by (metis (no_types, lifting))
  qed
qed

lemma driven_resolved:
  assumes "driven d C" and "wf_db d" and "is_done d tid"
    and "\<And>j. get_job d jid = Some j \<Longrightarrow> pending_count j \<noteq> 0 \<or> NStitch jid \<in> C"
  shows "driven d (C - {NTts jid tid})"
  unfolding driven_def
proof (intro allI impI)
  fix i j
  assume j: "get_job d i = Some j"
  have dr: "driven_job (tasks d) C i j" using assms(1) j by (simp add: driven_def)
  show "driven_job (tasks d) (C - {NTts jid tid}) i j"
  proof (cases "i = jid")
    case False
    with dr show ?thesis by (simp add: driven_job_def)
  next
    case True
    have "t_id t \<noteq> tid" if "t \<in> set (tasks d)" "t_status t = T_PENDING" for t
    proof
      assume "t_id t = tid"
      with assms(3) obtain t' where "t' \<in> set (tasks d)" "t_id t' = t_id t" "t_status t' = T_DONE" by (auto simp: is_done_def)
      with get_task_row [OF assms(2)] that show False by (metis TaskStatus.distinct(1) option.inject)
    qed
    with dr True assms(4) j show ?thesis by (auto simp: driven_job_def)
  qed
qed

text \<open>The fan-out transaction.\<close>

lemma set_missing: "set (missing_rows d rows) \<subseteq> set rows"
  by (auto simp: missing_rows_def)

lemma row_at_missing:
  assumes "k < length blocks"
  shows "row_at (d\<lparr>tasks := tasks d @ missing_rows d (rows_of now jid blocks)\<rparr>) jid k"
proof (cases "row_at d jid k")
  case True
  then show ?thesis by (auto simp: row_at_def)
next
  case False
  let ?r = "rows_of now jid blocks ! k"
  have "?r \<in> set (rows_of now jid blocks)" using assms by (metis nth_mem rows_of_simps(1))
  moreover have "t_job ?r = jid" "block_index ?r = k" using assms by (simp_all add: rows_of_nth)
  ultimately have r: "?r \<in> set (rows_of now jid blocks)" "t_job ?r = jid" "block_index ?r = k" by blast+
  with False have "?r \<in> set (missing_rows d (rows_of now jid blocks))" by (auto simp: missing_rows_def row_at_def)
  with r show ?thesis by (auto simp: row_at_def)
qed

lemma begin_parse_noop:
  assumes "wf_db d" and "get_job d jid = Some j" and "j_status j \<noteq> PENDING"
  shows "fst (begin_parse d jid n) = d"
proof -
  have "rowcount (\<lambda>j. j_id j = jid \<and> j_status j = PENDING) (jobs d) = 0"
    using assms rowcount_key [of j_id "jobs d" jid "\<lambda>j. j_status j = PENDING"] by (simp add: wf_db_def)
  then show ?thesis by (simp add: begin_parse_def Let_def sql_update_none)
qed

lemma parse_transaction_shape:
  assumes "db_ok st w" and "get_job (w_db w) jid = Some j" and "bl = blks st w jid"
  defines "d1 \<equiv> (w_db w)\<lparr>tasks := tasks (w_db w) @ missing_rows (w_db w) (rows_of (db_now (w_db w)) jid bl)\<rparr>"
  shows "parse_transaction jid bl (w_db w) =
    (fst (begin_parse d1 jid (int (length bl))), Inr (snd (begin_parse d1 jid (int (length bl)))))"
proof -
  note ok = db_ok_D [OF assms(1)]
  obtain ms where ms: "get_text (w_minio w) (manuscript_key_of jid) = Inr ms" using ok(7) [OF assms(2)] by blast
  have "list_all scalar b" if "b \<in> set bl" for b
  proof -
    have "b \<in> set (split_blocks ms)"
      using that assms(3) ms capped_prefix(3) [where xs = "split_blocks ms"] by (auto simp: blks_def)
    then show ?thesis using get_text_scalar [OF ms] split_blocks_scalar by blast
  qed
  from parse_transaction_eq [OF ok(2) assms(2) this] show ?thesis by (simp add: Let_def d1_def)
qed

lemma no_missing_rows:
  assumes "db_ok st w" and "get_job (w_db w) jid = Some j" and "j_status j \<notin> {PENDING, FAILED}"
  shows "missing_rows (w_db w) (rows_of now jid (blks st w jid)) = []"
  using db_ok_D(8) [OF assms] by (intro missing_rows_none) (auto simp: row_at_def)

lemma missing_row_facts:
  "t \<in> set (missing_rows d (rows_of now jid bl)) \<Longrightarrow>
    t_job t = jid \<and> t_id t = task_id_of jid (block_index t) \<and> t_status t = T_PENDING \<and> block_index t < length bl"
  using rows_of_simps(4) [of t now jid bl] set_missing by blast

text \<open>The transaction of the parse handler, seen from the rows: new rows of the job, one new status.\<close>

definition parse_rows :: "Settings \<Rightarrow> world \<Rightarrow> string \<Rightarrow> Task list" where
  "parse_rows st w jid = missing_rows (w_db w) (rows_of (db_now (w_db w)) jid (blks st w jid))"

definition parsed_job :: "Settings \<Rightarrow> world \<Rightarrow> string \<Rightarrow> string \<Rightarrow> Job \<Rightarrow> Job" where
  "parsed_job st w jid i j = (if i = jid \<and> j_status j = PENDING
    then j\<lparr>j_status := PARSING, pending_count := int (length (blks st w jid)), j_updated_at := db_now (w_db w)\<rparr> else j)"

lemma parse_row_facts:
  "t \<in> set (parse_rows st w jid) \<Longrightarrow>
    t_job t = jid \<and> t_id t = task_id_of jid (block_index t) \<and> t_status t = T_PENDING \<and> block_index t < length (blks st w jid)"
  unfolding parse_rows_def by (rule missing_row_facts)

lemma parse_tables:
  assumes "db_ok st w" and "get_job (w_db w) jid = Some j" and "parse_transaction jid (blks st w jid) (w_db w) = (d', r)"
  shows "tasks d' = tasks (w_db w) @ parse_rows st w jid" "get_job d' i = map_option (parsed_job st w jid i) (get_job (w_db w) i)"
    "wf_db d'" "fan_in_ok d'" "statuses_step (w_db w) d'" "j_status j \<notin> {PENDING, FAILED} \<Longrightarrow> parse_rows st w jid = []"
proof -
  let ?d1 = "(w_db w)\<lparr>tasks := tasks (w_db w) @ parse_rows st w jid\<rparr>"
  note ok = db_ok_D [OF assms(1)]
  have d': "d' = fst (begin_parse ?d1 jid (int (length (blks st w jid))))"
    using parse_transaction_shape [OF assms(1,2) HOL.refl] assms(3) by (simp add: parse_rows_def)
  show "tasks d' = tasks (w_db w) @ parse_rows st w jid" by (simp add: d')
  show "get_job d' i = map_option (parsed_job st w jid i) (get_job (w_db w) i)"
    using begin_parse_job [where d = ?d1 and jid = jid and n = "int (length (blks st w jid))" and i = i]
    by (simp add: d' parsed_job_def [abs_def] cong: if_cong)
  show "wf_db d'" using board_parse [OF ok(1), of jid "blks st w jid"] assms(3) by simp
  show none: "parse_rows st w jid = []" if "j_status j \<notin> {PENDING, FAILED}"
    using no_missing_rows [OF assms(1,2) that] by (simp add: parse_rows_def)
  show "fan_in_ok d'" using fan_in_parse [OF ok(1,3) assms(2), of "blks st w jid"] none by (simp add: d' parse_rows_def)
  show "statuses_step (w_db w) d'"
    using statuses_begin_parse [where d = ?d1 and jid = jid and n = "int (length (blks st w jid))"] by (auto simp: d' statuses_step_def)
qed

lemma parse_done_kept:
  assumes "db_ok st w" and "get_job (w_db w) jid = Some j" and "parse_transaction jid (blks st w jid) (w_db w) = (d', r)"
    and "all_done (w_db w) i" and "i = jid \<Longrightarrow> j_status j \<notin> {PENDING, FAILED}"
  shows "all_done d' i"
proof -
  note tab = parse_tables [OF assms(1-3)]
  have "t \<notin> set (parse_rows st w jid)" if "t_job t = i" for t
    using parse_row_facts [of t st w jid] tab(6) that assms(5) by force
  then show ?thesis using assms(4) unfolding all_done_def tab(1) by auto
qed

lemma parse_keeps:
  assumes "db_ok st w" and "get_job (w_db w) jid = Some j" and "parse_transaction jid (blks st w jid) (w_db w) = (d', r)"
  shows "keeps (w_db w) d'"
proof -
  let ?d = "w_db w"
  note tab = parse_tables [OF assms]
  have stat: "status_in d' i X" if x: "status_in ?d i X" "PENDING \<notin> X" for i X
  proof -
    from x(1) obtain j0 where j0: "get_job ?d i = Some j0" "j_status j0 \<in> X" by (auto simp: status_in_def)
    then have "get_job d' i = Some j0" using x(2) by (auto simp: tab(2) parsed_job_def)
    then show ?thesis using j0(2) by (simp add: status_in_def)
  qed
  have "settled d' i" if s: "settled ?d i" for i
  proof (cases "status_in ?d i {FAILED}")
    case True
    then show ?thesis using stat [of i "{FAILED}"] by (simp add: settled_def)
  next
    case False
    with s have l: "launched ?d i" "all_done ?d i" by (simp_all add: settled_def)
    have "i = jid \<Longrightarrow> j_status j \<notin> {PENDING, FAILED}" using l(1) False assms(2) by (auto simp: status_in_def)
    then have "all_done d' i" by (rule parse_done_kept [OF assms l(2)])
    moreover have "launched d' i" using stat [OF l(1)] by simp
    ultimately show ?thesis by (simp add: settled_def)
  qed
  moreover have "is_done d' x" if "is_done ?d x" for x using that by (auto simp: is_done_def tab(1))
  moreover have "row_at d' i k" if "row_at ?d i k" for i k using that by (auto simp: row_at_def tab(1))
  moreover have "get_job d' i = None \<longleftrightarrow> get_job ?d i = None" for i by (simp add: tab(2))
  ultimately show ?thesis using tab(5) unfolding keeps_def by blast
qed

lemma parse_db_ok:
  assumes "db_ok st w" and "get_job (w_db w) jid = Some j" and "parse_transaction jid (blks st w jid) (w_db w) = (d', r)"
    and rows: "\<And>k. k < length (blks st w jid) \<Longrightarrow> row_at d' jid k"
  shows "db_ok st (w\<lparr>w_db := d'\<rparr>)"
proof -
  let ?d = "w_db w"
  note ok = db_ok_D [OF assms(1)] and tab = parse_tables [OF assms(1-3)] and new = parse_row_facts [of _ st w jid]
  have fresh: "t_job t \<noteq> jid" if "j_status j = PENDING" "t \<in> set (tasks ?d)" for t
    using that ok(3) row_get_SomeD [OF assms(2)] by (auto simp: fan_in_ok_def)
  have row: "row_at d' i k" if "row_at ?d i k" for i k using that by (auto simp: row_at_def tab(1))
  have "task_ids_ok d'" using ok(2) new by (auto simp: task_ids_ok_def tab(1))
  moreover have "t_status t \<noteq> T_FAILED \<and> block_index t < length (blks st w (t_job t))" if "t \<in> set (tasks d')" for t
    using that ok(4,5) new by (auto simp: tab(1))
  moreover have "manuscript_key j' = manuscript_key_of i \<and> (\<exists>ms. get_text (w_minio w) (manuscript_key_of i) = Inr ms)
      \<and> (j_status j' \<notin> {PENDING, FAILED} \<longrightarrow> (\<forall>k < length (blks st w i). row_at d' i k))
      \<and> (j_status j' = PARSING \<longrightarrow> (\<forall>t \<in> set (tasks d'). t_job t = i \<longrightarrow> t_status t = T_PENDING))
      \<and> (j_status j' \<in> {STITCHING, COMPLETED} \<longrightarrow> all_done d' i)"
    if j': "get_job d' i = Some j'" for i j'
  proof -
    from j' obtain j0 where j0: "get_job ?d i = Some j0" "j' = parsed_job st w jid i j0"
      unfolding tab(2) by (cases "get_job ?d i") simp_all
    have ad: "j_status j' \<in> {STITCHING, COMPLETED} \<longrightarrow> all_done d' i"
    proof
      assume "j_status j' \<in> {STITCHING, COMPLETED}"
      then have s: "j_status j0 \<in> {STITCHING, COMPLETED}" using j0(2) by (auto simp: parsed_job_def split: if_splits)
      show "all_done d' i" by (rule parse_done_kept [OF assms(1-3) ok(10) [OF j0(1) s]]) (use s j0(1) assms(2) in auto)
    qed
    show ?thesis
    proof (cases "i = jid")
      case False
      then have "j' = j0" using j0(2) by (simp add: parsed_job_def)
      then show ?thesis using ok(6,7) [OF j0(1)] ok(8) [OF j0(1)] ok(9) [OF j0(1)] ad row new False by (auto simp: tab(1))
    next
      case True
      with j0(1) assms(2) have "j0 = j" by simp
      then show ?thesis
        using True j0(2) ok(6,7) [OF j0(1)] ok(9) [OF j0(1)] ad rows new fresh
        by (auto simp: tab(1) parsed_job_def split: if_splits)
    qed
  qed
  ultimately show ?thesis using tab(3,4) by (simp add: db_ok_def Let_def)
qed

lemma parse_driven:
  assumes "db_ok st w" and "get_job (w_db w) jid = Some j" and "parse_transaction jid (blks st w jid) (w_db w) = (d', r)"
    and "driven (w_db w) C" and "NCreated jid \<in> C"
  shows "driven d' C"
  unfolding driven_def
proof (intro allI impI)
  fix i j'
  note tab = parse_tables [OF assms(1-3)] and new = parse_row_facts [of _ st w jid]
  assume j': "get_job d' i = Some j'"
  then obtain j0 where j0: "get_job (w_db w) i = Some j0" "j' = parsed_job st w jid i j0"
    unfolding tab(2) by (cases "get_job (w_db w) i") simp_all
  have dr: "driven_job (tasks (w_db w)) C i j0" using assms(4) j0(1) by (simp add: driven_def)
  show "driven_job (tasks d') C i j'"
  proof (cases "i = jid")
    case False
    then have "j' = j0" using j0(2) by (simp add: parsed_job_def)
    moreover have "t_job t \<noteq> i" if "t \<in> set (parse_rows st w jid)" for t using new [OF that] False by simp
    ultimately show ?thesis using dr by (auto simp: driven_job_def tab(1))
  next
    case True
    with j0(1) assms(2) have "j0 = j" by simp
    then show ?thesis
      using True j0(2) dr tab(6) assms(5) by (cases "j_status j") (auto simp: driven_job_def tab(1) parsed_job_def)
  qed
qed

lemma parse_effect:
  assumes "db_ok st w" and "get_job (w_db w) jid = Some j" and "bl = blks st w jid"
    and "parse_transaction jid bl (w_db w) = (d', r)" and "driven (w_db w) C" and "NCreated jid \<in> C"
  shows "db_ok st (w\<lparr>w_db := d'\<rparr>)" "driven d' C" "keeps (w_db w) d'" "status_in d' jid (- {PENDING})"
    "\<And>k. k < length bl \<Longrightarrow> row_at d' jid k"
proof -
  note tx = assms(4) [unfolded assms(3)]
  note tab = parse_tables [OF assms(1,2) tx]
  have rows: "row_at d' jid k" if "k < length (blks st w jid)" for k
    using row_at_missing [OF that, of "w_db w" "db_now (w_db w)" jid] by (simp add: row_at_def tab(1) parse_rows_def)
  then show "\<And>k. k < length bl \<Longrightarrow> row_at d' jid k" by (simp add: assms(3))
  show "status_in d' jid (- {PENDING})" using assms(2) by (auto simp: status_in_def tab(2) parsed_job_def)
  show "db_ok st (w\<lparr>w_db := d'\<rparr>)" by (rule parse_db_ok [OF assms(1,2) tx rows])
  show "driven d' C" by (rule parse_driven [OF assms(1,2) tx assms(5,6)])
  show "keeps (w_db w) d'" by (rule parse_keeps [OF assms(1,2) tx])
qed

text \<open>The compare-and-sets on one job.\<close>

lemma moved_effect:
  assumes "db_ok st w" and "driven (w_db w) C" and "wf_db d'" and "fan_in_ok d'" and "statuses_step (w_db w) d'"
    and "tasks d' = tasks (w_db w)"
    and job: "\<And>i. get_job d' i = map_option (\<lambda>j. if i = jid \<and> P j then f j else j) (get_job (w_db w) i)"
    and kept: "\<And>j. manuscript_key (f j) = manuscript_key j"
    and move: "\<And>j. P j \<Longrightarrow> j_status (f j) \<noteq> PARSING \<and> (j_status (f j) = FAILED \<or> j_status j \<notin> {PENDING, FAILED})"
    and rows: "\<And>j. get_job (w_db w) jid = Some j \<Longrightarrow> P j \<Longrightarrow> j_status (f j) \<in> {STITCHING, COMPLETED} \<Longrightarrow> all_done (w_db w) jid"
    and here: "\<And>j. get_job (w_db w) jid = Some j \<Longrightarrow> P j \<Longrightarrow> driven_job (tasks (w_db w)) C jid (f j)"
  shows "db_ok st (w\<lparr>w_db := d'\<rparr>) \<and> driven d' C \<and> keeps (w_db w) d'"
proof (intro conjI)
  note ok = db_ok_D [OF assms(1)]
  have j0: "\<exists>j. get_job (w_db w) i = Some j \<and> j' = (if i = jid \<and> P j then f j else j)" if "get_job d' i = Some j'" for i j'
    using that job [of i] by (cases "get_job (w_db w) i") simp_all
  have row: "row_at d' i k = row_at (w_db w) i k" for i k by (simp add: row_at_def assms(6))
  have dn: "all_done d' i = all_done (w_db w) i" for i by (simp add: all_done_def assms(6))
  show "keeps (w_db w) d'"
    using assms(5) settled_step [OF assms(5,6)] by (simp add: keeps_def row is_done_def assms(6) job)
  have "manuscript_key j' = manuscript_key_of i \<and> (\<exists>ms. get_text (w_minio w) (manuscript_key_of i) = Inr ms)
      \<and> (j_status j' \<notin> {PENDING, FAILED} \<longrightarrow> (\<forall>k < length (blks st w i). row_at d' i k))
      \<and> (j_status j' = PARSING \<longrightarrow> (\<forall>t \<in> set (tasks d'). t_job t = i \<longrightarrow> t_status t = T_PENDING))
      \<and> (j_status j' \<in> {STITCHING, COMPLETED} \<longrightarrow> all_done d' i)"
    if j': "get_job d' i = Some j'" for i j'
  proof -
    from j0 [OF j'] obtain j where j: "get_job (w_db w) i = Some j" "j' = (if i = jid \<and> P j then f j else j)" by blast
    have "j_status j' \<in> {STITCHING, COMPLETED} \<longrightarrow> all_done d' i"
      using ok(10) [OF j(1)] rows [of j] j by (cases "i = jid \<and> P j") (simp_all add: dn)
    then show ?thesis
      using ok(6,7) [OF j(1)] ok(8,9) [OF j(1)] j(2) kept move by (auto simp: row assms(6))
  qed
  moreover have "task_ids_ok d'" using ok(2) by (simp add: task_ids_ok_def assms(6))
  ultimately show "db_ok st (w\<lparr>w_db := d'\<rparr>)"
    using ok(4,5) assms(3,4) by (simp add: db_ok_def Let_def assms(6))
  show "driven d' C"
    unfolding driven_def assms(6)
  proof (intro allI impI)
    fix i j'
    assume "get_job d' i = Some j'"
    from j0 [OF this] obtain j where j: "get_job (w_db w) i = Some j" "j' = (if i = jid \<and> P j then f j else j)" by blast
    then show "driven_job (tasks (w_db w)) C i j'" using assms(2) here by (auto simp: driven_def)
  qed
qed

lemma advance_effect:
  assumes "db_ok st w" and "driven (w_db w) C" and "s \<in> {GENERATING, STITCHING, FAILED}"
    and "s = STITCHING \<longrightarrow> NStitch jid \<in> C \<and> settled (w_db w) jid"
  defines "d' \<equiv> fst (advance_status (w_db w) jid s)"
  shows "db_ok st (w\<lparr>w_db := d'\<rparr>) \<and> driven d' C \<and> keeps (w_db w) d'"
proof (rule moved_effect [where jid = jid and P = "\<lambda>j. can_transition (j_status j) s"
      and f = "\<lambda>j. j\<lparr>j_status := s, j_updated_at := db_now (w_db w)\<rparr>", OF assms(1,2)])
  note ok = db_ok_D [OF assms(1)]
  show "wf_db d'" "fan_in_ok d'" "statuses_step (w_db w) d'" "tasks d' = tasks (w_db w)"
    using ok(1,3) by (simp_all add: d'_def wf_advance fan_in_advance statuses_advance)
  show "get_job d' i = map_option (\<lambda>j. if i = jid \<and> can_transition (j_status j) s
      then j\<lparr>j_status := s, j_updated_at := db_now (w_db w)\<rparr> else j) (get_job (w_db w) i)" for i
    unfolding d'_def by (rule advance_job)
  fix j :: Job
  assume P: "can_transition (j_status j) s"
  then show "j_status (j\<lparr>j_status := s, j_updated_at := db_now (w_db w)\<rparr>) \<noteq> PARSING
      \<and> (j_status (j\<lparr>j_status := s, j_updated_at := db_now (w_db w)\<rparr>) = FAILED \<or> j_status j \<notin> {PENDING, FAILED})"
    using assms(3) by (auto simp: can_transition_iff)
  assume j: "get_job (w_db w) jid = Some j"
  show "all_done (w_db w) jid" if "j_status (j\<lparr>j_status := s, j_updated_at := db_now (w_db w)\<rparr>) \<in> {STITCHING, COMPLETED}"
    using that assms(3,4) P j by (auto simp: settled_def status_in_def can_transition_iff)
  have dr: "driven_job (tasks (w_db w)) C jid j" using assms(2) j by (simp add: driven_def)
  show "driven_job (tasks (w_db w)) C jid (j\<lparr>j_status := s, j_updated_at := db_now (w_db w)\<rparr>)"
  proof (cases "s = GENERATING")
    case False
    then show ?thesis using assms(3,4) by (auto simp: driven_job_def)
  next
    case True
    with P have pa: "j_status j = PARSING" by (simp add: can_transition_iff)
    have cnt: "pending_count j = int (pending_tasks (w_db w) jid)"
      using ok(3) row_get_SomeD [OF j] pa by (auto simp: fan_in_ok_def)
    have "pending_count j \<noteq> 0" if "t \<in> set (tasks (w_db w))" "t_job t = jid" for t
      using cnt that ok(9) [OF j pa that] by (auto simp: pending_tasks_def rowcount_zero_iff)
    then show ?thesis using dr pa True by (auto simp: driven_job_def)
  qed
qed simp

lemma finalize_effect:
  fixes jid key
  assumes "db_ok st w" and "driven (w_db w) C"
  defines "d' \<equiv> fst (finalize_job (w_db w) jid key)"
  shows "db_ok st (w\<lparr>w_db := d'\<rparr>) \<and> driven d' C \<and> keeps (w_db w) d'"
proof (rule moved_effect [where jid = jid and P = "\<lambda>j. j_status j = STITCHING"
      and f = "\<lambda>j. j\<lparr>j_status := COMPLETED, final_key := Some key, j_updated_at := db_now (w_db w)\<rparr>", OF assms(1,2)])
  note ok = db_ok_D [OF assms(1)]
  show "wf_db d'" "fan_in_ok d'" "statuses_step (w_db w) d'" "tasks d' = tasks (w_db w)"
    using ok(1,3) by (simp_all add: d'_def wf_finalize fan_in_finalize statuses_finalize)
      (simp add: finalize_job_def Let_def)
  show "all_done (w_db w) jid" if "get_job (w_db w) jid = Some j" "j_status j = STITCHING" for j
    using ok(10) [OF that(1)] that(2) by simp
qed (simp_all add: driven_job_def d'_def finalize_job_row)

lemma insert_effect:
  assumes "db_ok st w" and "driven (w_db w) C" and "insert_job (w_db w) jid (manuscript_key_of jid) cb = Inr d'"
    and "get_text (w_minio w) (manuscript_key_of jid) = Inr ms"
  shows "db_ok st (w\<lparr>w_db := d'\<rparr>)" "driven d' C" "tasks d' = tasks (w_db w)" "statuses_step (w_db w) d'"
    "get_job d' i = None \<longleftrightarrow> i \<noteq> jid \<and> get_job (w_db w) i = None"
proof -
  note ok = db_ok_D [OF assms(1)]
  show ts: "tasks d' = tasks (w_db w)" using assms(3) by (auto simp: insert_job_def split: if_splits)
  define j0 where "j0 = \<lparr>j_id = jid, j_status = PENDING, pending_count = 0, manuscript_key = manuscript_key_of jid,
    final_key = None, callback_url = cb, j_created_at = db_now (w_db w), j_updated_at = db_now (w_db w)\<rparr>"
  have job: "get_job d' i = (case get_job (w_db w) i of Some j \<Rightarrow> Some j | None \<Rightarrow> if i = jid then Some j0 else None)" for i
    using assms(3) by (auto simp: insert_job_def row_get_append j0_def split: if_splits option.split)
  show "get_job d' i = None \<longleftrightarrow> i \<noteq> jid \<and> get_job (w_db w) i = None"
    using job [of i] by (auto split: option.splits if_splits)
  show "statuses_step (w_db w) d'" by (rule statuses_insert_job [OF assms(3)])
  have old: "get_job (w_db w) i = Some j \<or> i = jid \<and> j_status j = PENDING \<and> manuscript_key j = manuscript_key_of jid"
    if "get_job d' i = Some j" for i j
    using job [of i] that by (auto simp: j0_def split: option.splits if_splits)
  have row: "row_at d' i k = row_at (w_db w) i k" for i k by (simp add: row_at_def ts)
  have "manuscript_key j' = manuscript_key_of i \<and> (\<exists>ms. get_text (w_minio w) (manuscript_key_of i) = Inr ms)
      \<and> (j_status j' \<notin> {PENDING, FAILED} \<longrightarrow> (\<forall>k < length (blks st w i). row_at d' i k))
      \<and> (j_status j' = PARSING \<longrightarrow> (\<forall>t \<in> set (tasks d'). t_job t = i \<longrightarrow> t_status t = T_PENDING))
      \<and> (j_status j' \<in> {STITCHING, COMPLETED} \<longrightarrow> all_done d' i)"
    if j': "get_job d' i = Some j'" for i j'
    using old [OF j']
  proof (elim disjE conjE)
    assume "get_job (w_db w) i = Some j'"
    from ok(6,7) [OF this] ok(8,9,10) [OF this] show ?thesis by (auto simp: row ts all_done_def)
  qed (use assms(4) in simp)
  moreover have "task_ids_ok d'" using ok(2) by (simp add: task_ids_ok_def ts)
  ultimately show "db_ok st (w\<lparr>w_db := d'\<rparr>)"
    using ok(4,5) wf_insert_job [OF ok(1) assms(3)] fan_in_insert_job [OF ok(1,3) assms(3)]
    by (simp add: db_ok_def Let_def ts)
  show "driven d' C"
    unfolding driven_def ts
  proof (intro allI impI)
    fix i j
    assume "get_job d' i = Some j"
    from old [OF this] show "driven_job (tasks (w_db w)) C i j"
      using assms(2) unfolding driven_def by (elim disjE conjE) (simp_all add: driven_job_def)
  qed
qed

section \<open>Dropping a message\<close>

fun duty_job :: "duty \<Rightarrow> string" where
  "duty_job (NCreated jid) = jid"
| "duty_job (NTts jid tid) = jid"
| "duty_job (NStitch jid) = jid"

lemma driven_job_mono:
  assumes "driven_job ts C jid j" and "NCreated jid \<in> C \<longrightarrow> NCreated jid \<in> C'" and "NStitch jid \<in> C \<longrightarrow> NStitch jid \<in> C'"
    and "\<And>x. NTts jid x \<in> C \<Longrightarrow> NTts jid x \<in> C'"
  shows "driven_job ts C' jid j"
  using assms(1-3) assms(4) unfolding driven_job_def by (cases "j_status j") (simp_all, blast)

lemma driven_other:
  assumes "driven d C" and "\<And>n. n \<in> C \<Longrightarrow> n \<in> C' \<or> duty_job n = jid"
    and "\<And>j. get_job d jid = Some j \<Longrightarrow> driven_job (tasks d) C jid j \<Longrightarrow> driven_job (tasks d) C' jid j"
  shows "driven d C'"
  unfolding driven_def
proof (intro allI impI)
  fix i j
  assume j: "get_job d i = Some j"
  have dr: "driven_job (tasks d) C i j" using assms(1) j by (simp add: driven_def)
  have mem: "duty_job n \<noteq> jid \<Longrightarrow> n \<in> C \<Longrightarrow> n \<in> C'" for n using assms(2) by blast
  show "driven_job (tasks d) C' i j"
  proof (cases "i = jid")
    case False
    then show ?thesis using mem by (intro driven_job_mono [OF dr]) simp_all
  qed (use assms(3) j dr in blast)
qed

lemma driven_job_ended: "j_status j \<in> {COMPLETED, FAILED} \<Longrightarrow> driven_job ts C jid j"
  by (auto simp: driven_job_def)

lemma driven_ended:
  assumes "driven d C" and "status_in d jid {COMPLETED, FAILED}" and "\<And>n. n \<in> C \<Longrightarrow> n \<in> C' \<or> duty_job n = jid"
  shows "driven d C'"
  by (rule driven_other [OF assms(1,3)]) (use assms(2) in \<open>auto simp: status_in_def intro: driven_job_ended\<close>)

lemma driven_parsed:
  assumes "driven d C" and "launched d jid" and "\<And>n. n \<in> C \<Longrightarrow> n \<in> C' \<or> n = NCreated jid"
    and "\<And>t. t \<in> set (tasks d) \<Longrightarrow> t_job t = jid \<Longrightarrow> t_status t = T_PENDING \<Longrightarrow> NTts jid (t_id t) \<in> C'"
    and "(\<forall>t \<in> set (tasks d). t_job t \<noteq> jid) \<Longrightarrow> NStitch jid \<in> C'"
  shows "driven d C'"
proof (rule driven_other [OF assms(1)])
  show "n \<in> C' \<or> duty_job n = jid" if "n \<in> C" for n using assms(3) [OF that] by auto
  fix j
  assume j: "get_job d jid = Some j" and dr: "driven_job (tasks d) C jid j"
  have "NStitch jid \<in> C \<Longrightarrow> NStitch jid \<in> C'" "\<And>x. NTts jid x \<in> C \<Longrightarrow> NTts jid x \<in> C'" using assms(3) by blast+
  moreover have "j_status j \<noteq> PARSING" using assms(2) j by (auto simp: status_in_def)
  ultimately show "driven_job (tasks d) C' jid j"
    using dr assms(4,5) unfolding driven_job_def by blast
qed

end
