(* ===== verification/Choreography.thy ===== *)
theory Choreography
  imports Duties
begin

text \<open>
  The invariant \<open>choreo\<close> of the choreography: the tables, the topology, every message in a queue, every
  delivery in hand with the stage of its handler, the requests that are creating jobs, and that the
  duties carried by messages and deliveries drive every job. Every transition of the protocol of a
  delivery keeps it (\<open>choreo_ptrans\<close>).
\<close>

section \<open>The invariant of the choreography\<close>

text \<open>What is left of the past in a later world.\<close>

definition kept :: "db \<Rightarrow> db \<Rightarrow> bool" where
  "kept d d' \<longleftrightarrow> statuses_step d d' \<and> (\<forall>jid k. row_at d jid k \<longrightarrow> row_at d' jid k) \<and> (\<forall>tid. is_done d tid \<longrightarrow> is_done d' tid)
    \<and> (\<forall>jid. settled d jid \<longrightarrow> settled d' jid)"

definition evolves :: "world \<Rightarrow> world \<Rightarrow> bool" where
  "evolves w w' \<longleftrightarrow> kept (w_db w) (w_db w')
    \<and> (\<forall>jid ms. get_job (w_db w) jid \<noteq> None \<longrightarrow> get_text (w_minio w) (manuscript_key_of jid) = Inr ms \<longrightarrow>
        get_text (w_minio w') (manuscript_key_of jid) = Inr ms)"

lemma keeps_kept: "keeps d d' \<Longrightarrow> kept d d'"
  by (simp add: keeps_def kept_def)

lemma evolves_db: "kept (w_db w) d \<Longrightarrow> evolves w (w\<lparr>w_db := d\<rparr>)"
  by (simp add: evolves_def)

lemma kept_refl [simp]: "kept d d"
  by (simp add: kept_def)

lemma status_in_kept:
  "status_in d jid A \<Longrightarrow> kept d d' \<Longrightarrow> (\<And>a b. a \<in> A \<Longrightarrow> can_transition a b \<Longrightarrow> b \<in> A) \<Longrightarrow> status_in d' jid A"
  by (rule status_in_step) (auto simp: kept_def)

lemma launched_kept: "launched d jid \<Longrightarrow> kept d d' \<Longrightarrow> launched d' jid"
  by (erule status_in_kept) (auto simp: can_transition_iff)

lemma exists_kept: "get_job d jid \<noteq> None \<Longrightarrow> kept d d' \<Longrightarrow> get_job d' jid \<noteq> None"
  unfolding kept_def statuses_step_def by blast

lemma status_in_exists: "status_in d jid A \<Longrightarrow> get_job d jid \<noteq> None"
  by (auto simp: status_in_def)

text \<open>The messages.\<close>

fun duty_fits :: "db \<Rightarrow> duty \<Rightarrow> bool" where
  "duty_fits d (NCreated jid) \<longleftrightarrow> get_job d jid \<noteq> None"
| "duty_fits d (NTts jid tid) \<longleftrightarrow> launched d jid \<and> (\<exists>k. tid = task_id_of jid k \<and> row_at d jid k)"
| "duty_fits d (NStitch jid) \<longleftrightarrow> settled d jid"

definition msg_ok :: "db \<Rightarrow> string \<Rightarrow> msg \<Rightarrow> bool" where
  "msg_ok d q m \<longleftrightarrow> (\<exists>ev c. m_body m = model_dump_json ev \<and> get_retry_count m = Inr c \<and> 0 \<le> c
    \<and> (q = Q_DLQ \<and> get_job d (job_id ev) \<noteq> None \<or> queue_for q ev \<and> duty_fits d (duty_of ev)))"

lemma settled_launched: "settled d jid \<Longrightarrow> launched d jid"
  by (auto simp: settled_def status_in_def)

lemma duty_fits_exists: "duty_fits d n \<Longrightarrow> get_job d (duty_job n) \<noteq> None"
  by (cases n) (auto dest: status_in_exists settled_launched)

lemma duty_job_of [simp]: "duty_job (duty_of ev) = job_id ev"
  by (cases ev) simp_all

lemma duty_fits_kept: "duty_fits d n \<Longrightarrow> kept d d' \<Longrightarrow> duty_fits d' n"
  using exists_kept launched_kept by (cases n) (auto simp: kept_def)

lemma msg_ok_kept: "msg_ok d q m \<Longrightarrow> kept d d' \<Longrightarrow> msg_ok d' q m"
  unfolding msg_ok_def using duty_fits_kept exists_kept by blast

lemma msg_ok_fits: "msg_ok d q m \<Longrightarrow> has q m n \<Longrightarrow> q \<noteq> Q_DLQ \<Longrightarrow> duty_fits d n"
  unfolding msg_ok_def using has_unique has_def by metis

lemma msg_ok_event: "queue_for q ev \<Longrightarrow> duty_fits d (duty_of ev) \<Longrightarrow> msg_ok d q (event_msg ev)"
  unfolding msg_ok_def
  by (intro exI [of _ ev] exI [of _ 0]) (simp add: event_msg_def get_retry_count_def)

lemma msg_ok_retried:
  assumes "msg_ok d q m" and "target \<in> retry_targets st q" and "0 < c"
  shows "msg_ok d target (retried_msg m c)"
proof -
  have live: "q \<in> set live_queues" using assms(2) by (auto simp: retry_targets_def split: if_splits)
  then have "q \<noteq> Q_DLQ" by (auto simp: live_queues_def)
  with assms(1) obtain ev where ev: "m_body m = model_dump_json ev" "queue_for q ev" "duty_fits d (duty_of ev)"
    by (auto simp: msg_ok_def)
  from ev(2) live have "q = route_of ev" using live_not_retry(2) by (auto simp: queue_for_def)
  with assms(2) live have "target = Q_DLQ \<or> queue_for target ev" by (auto simp: retry_targets_def queue_for_def)
  then show ?thesis
    unfolding msg_ok_def
    using ev duty_fits_exists [OF ev(3)] assms(3) by (intro exI [of _ ev] exI [of _ c]) auto
qed

text \<open>The deliveries in hand.\<close>

type_synonym held = "string \<times> msg \<times> stage"

definition in_queues :: "broker \<Rightarrow> duty set" where
  "in_queues b = {n. \<exists>q. \<exists>m \<in> set (msgs_in b q). has q m n}"

fun in_hand :: "held \<Rightarrow> duty set" where
  "in_hand (q, m, S) = (if S = Fin then {} else {n. has q m n})"

definition carried :: "broker \<Rightarrow> held list \<Rightarrow> duty set" where
  "carried b H = in_queues b \<union> \<Union> (in_hand ` set H)"

fun stage_ok :: "Settings \<Rightarrow> world \<Rightarrow> duty set \<Rightarrow> string \<Rightarrow> msg \<Rightarrow> stage \<Rightarrow> bool" where
  "stage_ok st w C q m (TWork jid tid) \<longleftrightarrow> q = Q_TTS \<and> has q m (NTts jid tid)"
| "stage_ok st w C q m (TCheck jid tid) \<longleftrightarrow> q = Q_TTS \<and> has q m (NTts jid tid) \<and> is_done (w_db w) tid"
| "stage_ok st w C q m (TEmit jid tid) \<longleftrightarrow> q = Q_TTS \<and> has q m (NTts jid tid) \<and> is_done (w_db w) tid
    \<and> settled (w_db w) jid"
| "stage_ok st w C q m (PWork jid) \<longleftrightarrow> q = Q_PARSE \<and> has q m (NCreated jid)"
| "stage_ok st w C q m (PKey jid key) \<longleftrightarrow> q = Q_PARSE \<and> has q m (NCreated jid) \<and> key = manuscript_key_of jid"
| "stage_ok st w C q m (PRead jid ms) \<longleftrightarrow> q = Q_PARSE \<and> has q m (NCreated jid)
    \<and> get_text (w_minio w) (manuscript_key_of jid) = Inr ms"
| "stage_ok st w C q m (PTx jid bl) \<longleftrightarrow> q = Q_PARSE \<and> has q m (NCreated jid) \<and> bl = blks st w jid
    \<and> status_in (w_db w) jid (- {PENDING}) \<and> (\<forall>k < length bl. row_at (w_db w) jid k)"
| "stage_ok st w C q m (PPub jid n bl) \<longleftrightarrow> q = Q_PARSE \<and> has q m (NCreated jid) \<and> bl = blks st w jid
    \<and> launched (w_db w) jid \<and> (\<forall>k < length bl. row_at (w_db w) jid k)
    \<and> (\<forall>k < n. is_done (w_db w) (task_id_of jid k) \<or> NTts jid (task_id_of jid k) \<in> C)"
| "stage_ok st w C q m (SWork jid) \<longleftrightarrow> q = Q_STITCH \<and> has q m (NStitch jid)"
| "stage_ok st w C q m (SAdv jid) \<longleftrightarrow> q = Q_STITCH \<and> has q m (NStitch jid)
    \<and> status_in (w_db w) jid {STITCHING, COMPLETED, FAILED}"
| "stage_ok st w C q m (DWork jid) \<longleftrightarrow> q = Q_DLQ \<and> (\<forall>n. has q m n \<longrightarrow> n \<in> {NCreated jid, NStitch jid})"
| "stage_ok st w C q m (Ended jid) \<longleftrightarrow> (\<forall>n. has q m n \<longrightarrow> n \<in> {NCreated jid, NStitch jid})
    \<and> status_in (w_db w) jid {COMPLETED, FAILED}"
| "stage_ok st w C q m Fin \<longleftrightarrow> True"
| "stage_ok st w C q m Esc \<longleftrightarrow> True"

lemma blks_evolves:
  assumes "evolves w w'" and "db_ok st w" and "get_job (w_db w) jid \<noteq> None"
  shows "blks st w' jid = blks st w jid"
proof -
  from assms(2,3) obtain ms where "get_text (w_minio w) (manuscript_key_of jid) = Inr ms"
    using db_ok_D(7) by blast
  with assms(1,3) show ?thesis by (auto simp: evolves_def blks_def)
qed

lemma stage_ok_evolves:
  assumes "stage_ok st w C q m S" and "msg_ok (w_db w) q m" and "evolves w w'" and "db_ok st w"
    and "\<And>jid tid. NTts jid tid \<in> C \<Longrightarrow> NTts jid tid \<in> C' \<or> is_done (w_db w') tid"
  shows "stage_ok st w' C' q m S"
proof -
  have k: "kept (w_db w) (w_db w')" using assms(3) by (simp add: evolves_def)
  have se: "settled (w_db w) i \<Longrightarrow> settled (w_db w') i" for i using k by (simp add: kept_def)
  have dn: "is_done (w_db w) x \<Longrightarrow> is_done (w_db w') x" and row: "row_at (w_db w) i n \<Longrightarrow> row_at (w_db w') i n" for x i n
    using k by (simp_all add: kept_def)
  have st: "status_in (w_db w) i A \<Longrightarrow> status_in (w_db w') i A"
    if "\<And>a b. a \<in> A \<Longrightarrow> can_transition a b \<Longrightarrow> b \<in> A" for i A
    by (erule status_in_kept [OF _ k]) (rule that)
  show ?thesis
  proof (cases S)
    case (PRead jid ms)
    then have "get_job (w_db w) jid \<noteq> None" using msg_ok_fits [OF assms(2), of "NCreated jid"] assms(1) by auto
    then show ?thesis using assms(1,3) PRead by (auto simp: evolves_def)
  next
    case (PTx jid bl)
    then have "get_job (w_db w) jid \<noteq> None" using assms(1) by (auto dest: status_in_exists)
    with assms(1) PTx show ?thesis
      using blks_evolves [OF assms(3,4)] row st [of "- {PENDING}" jid] by (auto simp: can_transition_iff)
  next
    case (PPub jid n bl)
    then have "get_job (w_db w) jid \<noteq> None" using assms(1) by (auto dest: status_in_exists)
    moreover have "is_done (w_db w') (task_id_of jid i) \<or> NTts jid (task_id_of jid i) \<in> C'" if "i < n" for i
    proof -
      have "is_done (w_db w) (task_id_of jid i) \<or> NTts jid (task_id_of jid i) \<in> C" using assms(1) that by (simp add: PPub)
      then show ?thesis using assms(5) dn by blast
    qed
    ultimately show ?thesis
      using assms(1) PPub blks_evolves [OF assms(3,4)] row launched_kept [OF _ k] by auto
  next
    case (SAdv jid)
    with assms(1) show ?thesis using st [of "{STITCHING, COMPLETED, FAILED}" jid] by (auto simp: can_transition_iff)
  next
    case (Ended jid)
    with assms(1) show ?thesis using st [of "{COMPLETED, FAILED}" jid] by (auto simp: can_transition_iff)
  qed (use assms(1) dn se in auto)
qed

definition topo_ok :: "Settings \<Rightarrow> broker \<Rightarrow> bool" where
  "topo_ok st b \<longleftrightarrow> wf_broker b \<and> bound b Q_DLQ \<and> (\<forall>l \<in> set live_queues. bound b l)
    \<and> (\<forall>l \<in> set live_queues. \<forall>ds. retry_delays st = Inr ds \<longrightarrow> (\<forall>d \<in> set ds. bound b (retry_q_name l d)))"

lemma topo_ok_target: "topo_ok st b \<Longrightarrow> target \<in> retry_targets st q \<Longrightarrow> bound b target"
  by (auto simp: topo_ok_def retry_targets_def split: if_splits)

lemma topo_ok_live: "topo_ok st b \<Longrightarrow> wf_broker b \<and> bound b Q_DLQ \<and> bound b Q_PARSE \<and> bound b Q_TTS \<and> bound b Q_STITCH"
  by (simp add: topo_ok_def live_queues_def)

lemma topo_ok_put: "topo_ok st b \<Longrightarrow> topo_ok st (exchange_publish b m k)"
  by (simp add: topo_ok_def amqp.wf_put amqp.bound_put)

lemma msgs_put:
  "topo_ok st b \<Longrightarrow> bound b k \<Longrightarrow> set (msgs_in (exchange_publish b m k) q) = set (msgs_in b q) \<union> (if q = k then {m} else {})"
  by (auto simp: topo_ok_def amqp.contents_put)

text \<open>The requests that are creating a job.\<close>

fun opens :: "tstage \<Rightarrow> string list" where
  "opens (GPut jid) = [jid]"
| "opens (GIns jid) = [jid]"
| "opens _ = []"

definition gs_ok :: "world \<Rightarrow> tstage list \<Rightarrow> string set \<Rightarrow> bool" where
  "gs_ok w G D \<longleftrightarrow> distinct (concat (map opens G))
    \<and> (\<forall>S \<in> set G. (\<forall>jid \<in> set (opens S). jid \<in> D \<and> get_job (w_db w) jid = None)
        \<and> (\<forall>jid \<in> known S. get_job (w_db w) jid \<noteq> None)
        \<and> (\<forall>jid. S = GIns jid \<longrightarrow> (\<exists>ms. get_text (w_minio w) (manuscript_key_of jid) = Inr ms)))
    \<and> (\<forall>jid. get_job (w_db w) jid \<noteq> None \<longrightarrow> jid \<in> D)"

definition held_ok :: "Settings \<Rightarrow> world \<Rightarrow> duty set \<Rightarrow> held \<Rightarrow> bool" where
  "held_ok st w C h \<longleftrightarrow> (case h of (q, m, S) \<Rightarrow>
    q \<in> set (Q_DLQ # live_queues) \<and> msg_ok (w_db w) q m \<and> stage_ok st w C q m S)"

definition choreo :: "Settings \<Rightarrow> world \<Rightarrow> held list \<Rightarrow> tstage list \<Rightarrow> string set \<Rightarrow> bool" where
  "choreo st w H G D \<longleftrightarrow> db_ok st w \<and> topo_ok st (w_broker w)
    \<and> (\<forall>q. \<forall>m \<in> set (msgs_in (w_broker w) q). msg_ok (w_db w) q m)
    \<and> (\<forall>h \<in> set H. held_ok st w (carried (w_broker w) H) h)
    \<and> gs_ok w G D \<and> driven (w_db w) (carried (w_broker w) H)"

lemma held_ok_evolves:
  assumes "held_ok st w C h" and "evolves w w'" and "db_ok st w"
    and "\<And>jid tid. NTts jid tid \<in> C \<Longrightarrow> NTts jid tid \<in> C' \<or> is_done (w_db w') tid"
  shows "held_ok st w' C' h"
proof -
  obtain q m S where h: "h = (q, m, S)" by (cases h)
  have "kept (w_db w) (w_db w')" using assms(2) by (simp add: evolves_def)
  then show ?thesis
    using assms(1) stage_ok_evolves [OF _ _ assms(2,3), of C q m S C'] assms(4) msg_ok_kept
    by (auto simp: held_ok_def h)
qed

text \<open>
  A step keeps the invariant when it keeps the tables and the topology, puts only proper messages
  into queues, leaves the acting delivery in a proper stage and every job driven.
\<close>

lemma choreo_change:
  assumes inv: "choreo st w H G D" and "db_ok st w'" and "topo_ok st (w_broker w')" and ev: "evolves w w'"
    and msgs: "\<And>q m. m \<in> set (msgs_in (w_broker w') q) \<Longrightarrow> m \<in> set (msgs_in (w_broker w) q) \<or> msg_ok (w_db w') q m"
    and held: "\<And>h. h \<in> set H' \<Longrightarrow> h \<in> set H \<or> held_ok st w' (carried (w_broker w') H') h"
    and tts: "\<And>jid tid. NTts jid tid \<in> carried (w_broker w) H \<Longrightarrow>
      NTts jid tid \<in> carried (w_broker w') H' \<or> is_done (w_db w') tid"
    and "driven (w_db w') (carried (w_broker w') H')" and "gs_ok w' G' D'"
  shows "choreo st w' H' G' D'"
proof -
  have ok: "db_ok st w" using inv by (simp add: choreo_def)
  have "msg_ok (w_db w') q m" if "m \<in> set (msgs_in (w_broker w') q)" for q m
    using msgs [OF that] inv ev msg_ok_kept [of "w_db w" q m "w_db w'"] by (auto simp: choreo_def evolves_def)
  moreover have "held_ok st w' (carried (w_broker w') H') h" if "h \<in> set H'" for h
    using held [OF that]
  proof
    assume "h \<in> set H"
    with inv have "held_ok st w (carried (w_broker w) H) h" by (simp add: choreo_def)
    then show ?thesis by (rule held_ok_evolves [OF _ ev ok tts])
  qed
  ultimately show ?thesis using assms(2,3,8,9) by (simp add: choreo_def)
qed

lemma gs_ok_evolves:
  assumes "gs_ok w G D" and "evolves w w'" and "D \<subseteq> D'"
    and "\<And>jid. get_job (w_db w') jid = None \<longleftrightarrow> get_job (w_db w) jid = None" and "w_minio w' = w_minio w"
  shows "gs_ok w' G D'"
  using assms(1,3) unfolding gs_ok_def assms(4,5) by blast

lemma carried_split:
  "carried b (A @ h # B) = in_queues b \<union> \<Union> (in_hand ` set (A @ B)) \<union> in_hand h"
  by (auto simp: carried_def)

text \<open>A step of one delivery.\<close>

lemma choreo_held:
  assumes inv: "choreo st w (A @ (q, m, S) # B) G D" and "D \<subseteq> D'"
    and "db_ok st w'" and "topo_ok st (w_broker w')" and ev: "evolves w w'"
    and ids: "\<And>jid. get_job (w_db w') jid = None \<longleftrightarrow> get_job (w_db w) jid = None"
    and minio: "\<And>jid. get_text (w_minio w') (manuscript_key_of jid) = get_text (w_minio w) (manuscript_key_of jid)"
    and msgs: "\<And>q m. m \<in> set (msgs_in (w_broker w') q) \<Longrightarrow> m \<in> set (msgs_in (w_broker w) q) \<or> msg_ok (w_db w') q m"
    and more: "in_queues (w_broker w) \<subseteq> in_queues (w_broker w')"
    and stage: "stage_ok st w' (carried (w_broker w') (A @ (q, m, S') # B)) q m S'"
    and tts: "\<And>jid tid. S' = Fin \<Longrightarrow> has q m (NTts jid tid) \<Longrightarrow>
      NTts jid tid \<in> carried (w_broker w') (A @ (q, m, S') # B) \<or> is_done (w_db w') tid"
    and "driven (w_db w') (carried (w_broker w') (A @ (q, m, S') # B))"
  shows "choreo st w' (A @ (q, m, S') # B) G D'"
proof (rule choreo_change [OF inv assms(3,4) ev msgs])
  let ?C' = "carried (w_broker w') (A @ (q, m, S') # B)"
  have "held_ok st w (carried (w_broker w) (A @ (q, m, S) # B)) (q, m, S)" using inv by (simp add: choreo_def)
  then have "held_ok st w' ?C' (q, m, S')"
    using stage msg_ok_kept ev by (auto simp: held_ok_def evolves_def)
  then show "h \<in> set (A @ (q, m, S) # B) \<or> held_ok st w' ?C' h" if "h \<in> set (A @ (q, m, S') # B)" for h
    using that by auto
  show "NTts jid tid \<in> ?C' \<or> is_done (w_db w') tid" if "NTts jid tid \<in> carried (w_broker w) (A @ (q, m, S) # B)" for jid tid
    using that more tts by (auto simp: carried_split split: if_splits)
  have "gs_ok w G D" using inv by (simp add: choreo_def)
  then show "gs_ok w' G D'"
    using assms(2) unfolding gs_ok_def ids minio by blast
qed (use assms(12) in simp_all)

lemma in_queues_put:
  "topo_ok st b \<Longrightarrow> bound b k \<Longrightarrow> in_queues (exchange_publish b m k) = in_queues b \<union> {n. has k m n}"
  unfolding in_queues_def by (auto simp: msgs_put split: if_splits)

lemma choreo_db:
  assumes "choreo st w (A @ (q, m, S) # B) G D" and "D \<subseteq> D'" and "db_ok st (w\<lparr>w_db := d\<rparr>)" and "keeps (w_db w) d"
    and "stage_ok st (w\<lparr>w_db := d\<rparr>) (carried (w_broker w) (A @ (q, m, S') # B)) q m S'"
    and "\<And>jid tid. S' = Fin \<Longrightarrow> has q m (NTts jid tid) \<Longrightarrow> is_done d tid"
    and "driven d (carried (w_broker w) (A @ (q, m, S') # B))"
  shows "choreo st (w\<lparr>w_db := d\<rparr>) (A @ (q, m, S') # B) G D'"
proof (rule choreo_held [OF assms(1,2,3)])
  show "evolves w (w\<lparr>w_db := d\<rparr>)" by (rule evolves_db [OF keeps_kept [OF assms(4)]])
  show "topo_ok st (w_broker (w\<lparr>w_db := d\<rparr>))" using assms(1) by (simp add: choreo_def)
  show "get_job (w_db (w\<lparr>w_db := d\<rparr>)) jid = None \<longleftrightarrow> get_job (w_db w) jid = None" for jid
    using assms(4) by (simp add: keeps_def)
qed (use assms(5-7) in simp_all)

lemma choreo_same:
  assumes "choreo st w (A @ (q, m, S) # B) G D" and "D \<subseteq> D'"
    and "stage_ok st w (carried (w_broker w) (A @ (q, m, S') # B)) q m S'"
    and "\<And>jid tid. S' = Fin \<Longrightarrow> has q m (NTts jid tid) \<Longrightarrow> is_done (w_db w) tid"
    and "driven (w_db w) (carried (w_broker w) (A @ (q, m, S') # B))"
  shows "choreo st w (A @ (q, m, S') # B) G D'"
  using choreo_db [OF assms(1,2), of "w_db w"] assms by (simp add: choreo_def)

lemma choreo_put:
  assumes "choreo st w (A @ (q, m, S) # B) G D" and "D \<subseteq> D'" and "bound (w_broker w) k" and "msg_ok (w_db w) k m'"
  defines "w' \<equiv> w\<lparr>w_broker := exchange_publish (w_broker w) m' k\<rparr>"
  assumes "stage_ok st w' (carried (w_broker w') (A @ (q, m, S') # B)) q m S'"
    and "\<And>jid tid. S' = Fin \<Longrightarrow> has q m (NTts jid tid) \<Longrightarrow> has k m' (NTts jid tid) \<or> is_done (w_db w) tid"
    and "driven (w_db w) (carried (w_broker w') (A @ (q, m, S') # B))"
  shows "choreo st w' (A @ (q, m, S') # B) G D'"
proof (rule choreo_held [OF assms(1,2)])
  have ok: "db_ok st w" "topo_ok st (w_broker w)" using assms(1) by (simp_all add: choreo_def)
  show "db_ok st w'" using ok(1) by (simp add: w'_def db_ok_def blks_def)
  show "topo_ok st (w_broker w')" using ok(2) by (simp add: w'_def topo_ok_put)
  show "evolves w w'" by (simp add: w'_def evolves_def)
  show "mm \<in> set (msgs_in (w_broker w) qq) \<or> msg_ok (w_db w') qq mm" if "mm \<in> set (msgs_in (w_broker w') qq)" for qq mm
    using that assms(4) by (auto simp: w'_def msgs_put [OF ok(2) assms(3)] split: if_splits)
  show "in_queues (w_broker w) \<subseteq> in_queues (w_broker w')"
    by (simp add: w'_def in_queues_put [OF ok(2) assms(3)])
  show "NTts jid tid \<in> carried (w_broker w') (A @ (q, m, S') # B) \<or> is_done (w_db w') tid"
    if "S' = Fin" "has q m (NTts jid tid)" for jid tid
    using assms(7) [OF that] by (auto simp: w'_def carried_split in_queues_put [OF ok(2) assms(3)])
qed (use assms(6,8) in \<open>simp_all add: w'_def\<close>)

lemma choreo_held_D:
  assumes "choreo st w (A @ (q, m, S) # B) G D"
  shows "db_ok st w" "topo_ok st (w_broker w)" "msg_ok (w_db w) q m"
    "stage_ok st w (carried (w_broker w) (A @ (q, m, S) # B)) q m S"
    "driven (w_db w) (carried (w_broker w) (A @ (q, m, S) # B))"
  using assms by (auto simp: choreo_def held_ok_def)

text \<open>What is carried after a step of the delivery.\<close>

lemma carried_stays:
  "S' \<noteq> Fin \<Longrightarrow> in_queues b \<subseteq> in_queues b' \<Longrightarrow> carried b (A @ (q, m, S) # B) \<subseteq> carried b' (A @ (q, m, S') # B)"
  by (auto simp: carried_split split: if_splits)

lemma carried_drop:
  assumes "has q m n" and "q \<noteq> Q_DLQ"
  shows "carried b (A @ (q, m, S) # B) - {n} \<subseteq> carried b (A @ (q, m, Fin) # B)"
proof -
  have "in_hand (q, m, S) \<subseteq> {n}" using has_unique [OF assms(1) _ assms(2)] by auto
  then show ?thesis by (auto simp: carried_split)
qed

lemma driven_stays:
  assumes "driven d (carried b (A @ (q, m, S) # B))" and "S' \<noteq> Fin"
  shows "driven d (carried b (A @ (q, m, S') # B))"
  by (rule driven_mono [OF assms(1) carried_stays [OF assms(2) order_refl]])

text \<open>A delivery without an effect.\<close>

lemma choreo_quiet:
  assumes "choreo st w H G D" and "quiet w w'"
  shows "choreo st w' H G D"
proof -
  have q: "w_db w' = w_db w" "w_broker w' = w_broker w"
    "\<And>jid. get_text (w_minio w') (manuscript_key_of jid) = get_text (w_minio w) (manuscript_key_of jid)"
    using assms(2) by (simp_all add: quiet_def)
  have b: "blks st w' = blks st w" by (simp add: blks_def q fun_eq_iff)
  have s: "stage_ok st w' C x y S = stage_ok st w C x y S" for C x y S by (cases S) (simp_all add: q b)
  have "db_ok st w' = db_ok st w" by (simp only: db_ok_def q b)
  moreover have "gs_ok w' G D = gs_ok w G D" by (simp only: gs_ok_def q)
  moreover have "held_ok st w' C h = held_ok st w C h" for C h by (simp only: held_ok_def q s)
  ultimately show ?thesis using assms(1) by (simp add: choreo_def q)
qed

lemma choreo_drawn:
  assumes "choreo st w H G D" and "D \<subseteq> D'"
  shows "choreo st w H G D'"
proof -
  have "gs_ok w G D" using assms(1) by (simp add: choreo_def)
  then have "gs_ok w G D'" using assms(2) unfolding gs_ok_def by blast
  then show ?thesis using assms(1) by (simp add: choreo_def)
qed

lemma step_reroute:
  assumes inv: "choreo st w (A @ (q, m, S) # B) G D" and "D \<subseteq> D'" and "0 < c" and "target \<in> retry_targets st q"
    and "S' = Fin \<or> S' = Esc"
  shows "choreo st (w\<lparr>w_broker := exchange_publish (w_broker w) (retried_msg m c) target\<rparr>) (A @ (q, m, S') # B) G D'"
proof (rule choreo_put [OF inv assms(2)])
  note h = choreo_held_D [OF inv]
  show b: "bound (w_broker w) target" by (rule topo_ok_target [OF h(2) assms(4)])
  show "msg_ok (w_db w) target (retried_msg m c)" by (rule msg_ok_retried [OF h(3) assms(4,3)])
  have live: "q \<in> set live_queues" using assms(4) by (auto simp: retry_targets_def split: if_splits)
  have mv: "has q m n \<Longrightarrow> has target m n" for n using has_target [OF _ live assms(4)] by blast
  then show "has target (retried_msg m c) (NTts jid tid) \<or> is_done (w_db w) tid" if "has q m (NTts jid tid)" for jid tid
    using that by simp
  have "carried (w_broker w) (A @ (q, m, S) # B) \<subseteq>
      carried (exchange_publish (w_broker w) (retried_msg m c) target) (A @ (q, m, S') # B)"
    using mv by (auto simp: carried_split in_queues_put [OF h(2) b] split: if_splits)
  then show "driven (w_db w) (carried (w_broker (w\<lparr>w_broker := exchange_publish (w_broker w) (retried_msg m c) target\<rparr>))
      (A @ (q, m, S') # B))"
    using driven_mono [OF h(5)] by simp
qed (use assms(5) in auto)

lemma step_lost:
  assumes "choreo st w (A @ (q, m, S) # B) G D" and "D \<subseteq> D'"
  shows "choreo st w (A @ (q, m, Esc) # B) G D'"
  by (rule choreo_same [OF assms]) (use driven_stays [OF choreo_held_D(5) [OF assms(1)]] in simp_all)

section \<open>The steps of a block\<close>

lemma fits_row:
  assumes "db_ok st w" and "duty_fits (w_db w) (NTts jid tid)"
  obtains t j where "t \<in> set (tasks (w_db w))" "t_id t = tid" "t_job t = jid" "get_job (w_db w) jid = Some j" "launched (w_db w) jid"
proof -
  from assms(2) obtain k where k: "launched (w_db w) jid" "tid = task_id_of jid k" "row_at (w_db w) jid k" by auto
  then obtain t where "t \<in> set (tasks (w_db w))" "t_job t = jid" "block_index t = k" by (auto simp: row_at_def)
  moreover have "t_id t = tid" using calculation db_ok_D(2) [OF assms(1)] k(2) by (auto simp: task_ids_ok_def)
  moreover obtain j where "get_job (w_db w) jid = Some j" using k(1) by (auto simp: status_in_def)
  ultimately show ?thesis using that k(1) by blast
qed

lemma driven_fin:
  assumes "driven d (carried b (A @ (q, m, S) # B))" and "wf_db d" and "is_done d tid" and "has q m (NTts jid tid)" and "q \<noteq> Q_DLQ"
    and "\<And>j. get_job d jid = Some j \<Longrightarrow> pending_count j \<noteq> 0"
  shows "driven d (carried b (A @ (q, m, Fin) # B))"
  using driven_mono [OF driven_resolved [OF assms(1-3)] carried_drop [OF assms(4,5)]] assms(6) by blast

lemma tts_done: "has q m (NTts jid tid) \<Longrightarrow> q \<noteq> Q_DLQ \<Longrightarrow> is_done d tid \<Longrightarrow> has q m (NTts i x) \<Longrightarrow> is_done d x"
  using has_unique [of q m "NTts jid tid" "NTts i x"] by simp

lemma zero_settled:
  assumes "db_ok st w" and "get_job (w_db w) jid = Some j" and "pending_count j = 0" and "launched (w_db w) jid"
  shows "settled (w_db w) jid"
proof (cases "j_status j = FAILED")
  case True
  then show ?thesis using assms(2) by (simp add: settled_def status_in_def)
next
  case False
  have "j_status j \<noteq> PENDING" using assms(2,4) by (auto simp: status_in_def)
  then have "pending_tasks (w_db w) jid = 0"
    using False db_ok_D(3) [OF assms(1)] row_get_SomeD [OF assms(2)] assms(3) by (auto simp: fan_in_ok_def)
  then have "t_status t = T_DONE" if "t \<in> set (tasks (w_db w))" "t_job t = jid" for t
    using that db_ok_D(4) [OF assms(1) that(1)]
    by (cases "t_status t") (auto simp: pending_tasks_def rowcount_zero_iff)
  then show ?thesis using assms(4) by (simp add: settled_def all_done_def)
qed

lemma step_claim:
  assumes inv: "choreo st w (A @ (q, m, TWork jid tid) # B) G D" and "D \<subseteq> D'"
    and cl: "complete_task_and_decrement (w_db w) jid tid key = (d, r)"
    and S': "S' = TWork jid tid \<or> S' = after_claim jid tid r"
  shows "choreo st (w\<lparr>w_db := d\<rparr>) (A @ (q, m, S') # B) G D'"
proof -
  note h = choreo_held_D [OF inv]
  let ?C = "carried (w_broker w) (A @ (q, m, TWork jid tid) # B)"
  have q: "q = Q_TTS" "has q m (NTts jid tid)" "q \<noteq> Q_DLQ" using h(4) by auto
  have inC: "NTts jid tid \<in> ?C" using q(2) by (simp add: carried_split)
  obtain t j where t: "t \<in> set (tasks (w_db w))" "t_id t = tid" "t_job t = jid" "get_job (w_db w) jid = Some j" "launched (w_db w) jid"
    by (rule fits_row [OF h(1) msg_ok_fits [OF h(3) q(2,3)]])
  have gt: "get_task (w_db w) tid = Some t" using get_task_row [OF db_ok_D(1) [OF h(1)] t(1)] t(2) by simp
  show ?thesis
  proof (cases "t_status t = T_DONE")
    case True
    then have "d = w_db w" "r = Inr None" using cl complete_cases [OF db_ok_D(1) [OF h(1)], of jid tid key] gt by simp_all
    moreover have "is_done (w_db w) tid" using t True by (auto simp: is_done_def)
    ultimately have st: "w\<lparr>w_db := d\<rparr> = w" "S' \<noteq> Fin" "stage_ok st w (carried (w_broker w) (A @ (q, m, S') # B)) q m S'"
      using S' q by (auto simp: after_claim_def)
    show ?thesis unfolding st(1) by (rule choreo_same [OF inv assms(2) st(3) _ driven_stays [OF h(5) st(2)]]) (use st(2) in simp)
  next
    case False
    then have pend: "t_status t = T_PENDING" using db_ok_D(4) [OF h(1) t(1)] by (cases "t_status t") simp_all
    let ?d = "(w_db w)\<lparr>tasks := claim_done (w_db w) tid key, jobs := decremented (w_db w) jid\<rparr>"
    have d: "d = ?d" "r = Inr (Some (pending_count j - 1))"
      using cl complete_cases [OF db_ok_D(1) [OF h(1)], of jid tid key] gt pend t(4) by simp_all
    have dok: "db_ok st (w\<lparr>w_db := d\<rparr>)"
      unfolding d(1) by (rule db_ok_claim [OF h(1) t(1) pend t(2,3,5)])
    have kp: "keeps (w_db w) d" unfolding d(1) by (rule keeps_claim)
    have dr: "driven d ?C" unfolding d(1) by (rule driven_claim [OF h(1,5) inC t(1,2,3) pend])
    have dn: "is_done d tid" using t by (auto simp: is_done_def d(1) set_claim_done)
    have cnt: "pending_count j' = pending_count j - 1" if "get_job d jid = Some j'" for j'
      using that t(4) unfolding d(1) get_job_decremented_any by auto
    have fin: "driven d (carried (w_broker w) (A @ (q, m, Fin) # B))" if "pending_count j \<noteq> 1"
      by (rule driven_fin [OF dr _ dn q(2,3)]) (use db_ok_D(1) [OF dok] cnt that in auto)
    have "S' = Fin \<Longrightarrow> pending_count j \<noteq> 1" using S' d(2) by (auto simp: after_claim_def split: if_splits)
    then have "driven d (carried (w_broker w) (A @ (q, m, S') # B))"
      using fin driven_stays [OF dr] by (cases "S' = Fin") auto
    moreover have "settled d jid" if "pending_count j = 1"
    proof -
      obtain j' where "get_job d jid = Some j'" using t(4) unfolding d(1) get_job_decremented_any by auto
      moreover have "launched d jid" using launched_kept [OF t(5) keeps_kept [OF kp]] .
      ultimately show ?thesis using zero_settled [OF dok] cnt that by simp
    qed
    then have "stage_ok st (w\<lparr>w_db := d\<rparr>) (carried (w_broker w) (A @ (q, m, S') # B)) q m S'"
      using S' q dn by (auto simp: after_claim_def d(2))
    ultimately show ?thesis
      by (intro choreo_db [OF inv assms(2) dok kp]) (use tts_done [OF q(2,3) dn] in blast)+
  qed
qed

lemma step_check:
  assumes inv: "choreo st w (A @ (q, m, TCheck jid tid) # B) G D" and "D \<subseteq> D'"
    and "S' = (if at_zero (w_db w) jid then TEmit jid tid else Fin)"
  shows "choreo st w (A @ (q, m, S') # B) G D'"
proof -
  note h = choreo_held_D [OF inv]
  have q: "q = Q_TTS" "has q m (NTts jid tid)" "q \<noteq> Q_DLQ" "is_done (w_db w) tid" using h(4) by auto
  have "driven (w_db w) (carried (w_broker w) (A @ (q, m, S') # B))"
  proof (cases "at_zero (w_db w) jid")
    case True
    then show ?thesis using driven_stays [OF h(5), of "TEmit jid tid"] assms(3) by simp
  next
    case False
    then have "driven (w_db w) (carried (w_broker w) (A @ (q, m, Fin) # B))"
      by (intro driven_fin [OF h(5) db_ok_D(1) [OF h(1)] q(4,2,3)]) (auto simp: at_zero_def)
    then show ?thesis using False assms(3) by simp
  qed
  moreover have "settled (w_db w) jid" if "at_zero (w_db w) jid"
    using that zero_settled [OF h(1)] msg_ok_fits [OF h(3) q(2,3)] by (auto simp: at_zero_def)
  then have "stage_ok st w (carried (w_broker w) (A @ (q, m, S') # B)) q m S'" using q assms(3) by simp
  ultimately show ?thesis
    by (intro choreo_same [OF inv assms(2)]) (use tts_done [OF q(2,3,4)] in blast)+
qed

lemma step_emit:
  assumes inv: "choreo st w (A @ (q, m, TEmit jid tid) # B) G D" and "D \<subseteq> D'"
    and S': "S' = TEmit jid tid \<or> S' = Fin"
  shows "choreo st (w\<lparr>w_broker := publish (w_broker w) (StitchReady u jid) Q_STITCH\<rparr>) (A @ (q, m, S') # B) G D'"
  unfolding publish_eq
proof (rule choreo_put [OF inv assms(2)])
  note h = choreo_held_D [OF inv]
  let ?m = "event_msg (StitchReady u jid)"
  let ?w = "w\<lparr>w_broker := exchange_publish (w_broker w) ?m Q_STITCH\<rparr>"
  have q: "q = Q_TTS" "has q m (NTts jid tid)" "q \<noteq> Q_DLQ" "is_done (w_db w) tid" "settled (w_db w) jid" using h(4) by auto
  have qf: "queue_for Q_STITCH (StitchReady u jid)" by (simp add: queue_for_def)
  show b: "bound (w_broker w) Q_STITCH" using topo_ok_live [OF h(2)] by simp
  show "msg_ok (w_db w) Q_STITCH ?m"
    by (rule msg_ok_event [OF qf]) (use q(5) in simp)
  show "stage_ok st ?w (carried (w_broker ?w) (A @ (q, m, S') # B)) q m S'" using S' q by auto
  show "has Q_STITCH ?m (NTts i x) \<or> is_done (w_db w) x" if "has q m (NTts i x)" for i x
    using tts_done [OF q(2,3,4) that] by simp
  let ?C = "carried (w_broker w) (A @ (q, m, TEmit jid tid) # B)"
  have "driven (w_db w) (insert (NStitch jid) ?C - {NTts jid tid})"
    by (rule driven_resolved [OF driven_mono [OF h(5)] db_ok_D(1) [OF h(1)] q(4)]) auto
  moreover have "NStitch jid \<in> carried (w_broker ?w) (A @ (q, m, S') # B)"
    using in_queues_put [OF h(2) b] has_event_msg [OF qf] by (simp add: carried_split)
  moreover have "?C - {NTts jid tid} \<subseteq> carried (w_broker w) (A @ (q, m, S') # B)"
    using S' carried_drop [OF q(2,3), of "w_broker w" A "TEmit jid tid" B] by (elim disjE) auto
  moreover have "carried (w_broker w) (A @ (q, m, S') # B) \<subseteq> carried (w_broker ?w) (A @ (q, m, S') # B)"
    using in_queues_put [OF h(2) b] by (auto simp: carried_split)
  ultimately show "driven (w_db w) (carried (w_broker ?w) (A @ (q, m, S') # B))"
    by (elim driven_mono) blast
qed

section \<open>The steps of the parse handler\<close>

lemma not_tts: "has q m n \<Longrightarrow> q \<noteq> Q_DLQ \<Longrightarrow> (\<And>i x. n \<noteq> NTts i x) \<Longrightarrow> \<not> has q m (NTts i x)"
  using has_unique [of q m n "NTts i x"] by blast

lemma parse_held:
  assumes "choreo st w (A @ (q, m, S) # B) G D" and "q = Q_PARSE" and "has q m (NCreated jid)"
  shows "\<exists>j. get_job (w_db w) jid = Some j" "NCreated jid \<in> carried (w_broker w) (A @ (q, m, S') # B) \<or> S' = Fin" "q \<noteq> Q_DLQ"
proof -
  show q: "q \<noteq> Q_DLQ" using assms(2) by simp
  show "\<exists>j. get_job (w_db w) jid = Some j"
    using msg_ok_fits [OF choreo_held_D(3) [OF assms(1)] assms(3) q] by simp
  show "NCreated jid \<in> carried (w_broker w) (A @ (q, m, S') # B) \<or> S' = Fin"
    using assms(3) by (simp add: carried_split)
qed

lemma step_key:
  assumes inv: "choreo st w (A @ (q, m, PWork jid) # B) G D" and "D \<subseteq> D'" and "get_job (w_db w) jid = Some j"
  shows "choreo st w (A @ (q, m, PKey jid (manuscript_key j)) # B) G D'"
proof -
  note h = choreo_held_D [OF inv]
  show ?thesis
    by (rule choreo_same [OF inv assms(2) _ _ driven_stays [OF h(5)]])
       (use h(4) db_ok_D(6) [OF h(1) assms(3)] in auto)
qed

lemma step_read:
  assumes inv: "choreo st w (A @ (q, m, PKey jid key) # B) G D" and "D \<subseteq> D'" and "get_text (w_minio w) key = Inr ms"
  shows "choreo st w (A @ (q, m, PRead jid ms) # B) G D'"
proof -
  note h = choreo_held_D [OF inv]
  show ?thesis
    by (rule choreo_same [OF inv assms(2) _ _ driven_stays [OF h(5)]]) (use h(4) assms(3) in auto)
qed

lemma step_tx:
  assumes inv: "choreo st w (A @ (q, m, PRead jid ms) # B) G D" and "D \<subseteq> D'"
    and bl: "bl = capped (MAX_BLOCKS st) (split_blocks ms)" and tx: "parse_transaction jid bl (w_db w) = (d, r)"
    and S': "S' = PRead jid ms \<or> S' = PTx jid bl"
  shows "choreo st (w\<lparr>w_db := d\<rparr>) (A @ (q, m, S') # B) G D'"
proof -
  note h = choreo_held_D [OF inv]
  have q: "q = Q_PARSE" "has q m (NCreated jid)" "get_text (w_minio w) (manuscript_key_of jid) = Inr ms" using h(4) by auto
  note p = parse_held [OF inv q(1,2)]
  have fin: "S' \<noteq> Fin" using S' by auto
  have bl': "bl = blks st w jid" using bl q(3) by (simp add: blks_def)
  from p(1) obtain j where j: "get_job (w_db w) jid = Some j" by blast
  have "NCreated jid \<in> carried (w_broker w) (A @ (q, m, S') # B)" using p(2) fin by blast
  note e = parse_effect [OF h(1) j bl' tx driven_stays [OF h(5) fin] this]
  have "stage_ok st (w\<lparr>w_db := d\<rparr>) (carried (w_broker w) (A @ (q, m, S') # B)) q m S'"
    using S' q e(4,5) bl' by auto
  then show ?thesis by (rule choreo_db [OF inv assms(2) e(1,3) _ _ e(2)]) (use fin in simp)
qed

lemma step_adv:
  assumes inv: "choreo st w (A @ (q, m, PTx jid bl) # B) G D" and "D \<subseteq> D'"
    and S': "S' = PTx jid bl \<or> S' = PPub jid 0 bl"
  shows "choreo st (w\<lparr>w_db := fst (advance_status (w_db w) jid GENERATING)\<rparr>) (A @ (q, m, S') # B) G D'"
proof -
  note h = choreo_held_D [OF inv]
  let ?d = "fst (advance_status (w_db w) jid GENERATING)"
  have q: "q = Q_PARSE" "has q m (NCreated jid)" "bl = blks st w jid" "status_in (w_db w) jid (- {PENDING})"
    "\<forall>k < length bl. row_at (w_db w) jid k" using h(4) by auto
  have fin: "S' \<noteq> Fin" using S' by auto
  have e: "db_ok st (w\<lparr>w_db := ?d\<rparr>) \<and> driven ?d (carried (w_broker w) (A @ (q, m, S') # B)) \<and> keeps (w_db w) ?d"
    by (rule advance_effect [OF h(1) driven_stays [OF h(5) fin]]) simp_all
  from q(4) obtain j where j: "get_job (w_db w) jid = Some j" "j_status j \<noteq> PENDING" by (auto simp: status_in_def)
  have "get_job ?d jid = Some (if j_status j = PARSING then j\<lparr>j_status := GENERATING, j_updated_at := db_now (w_db w)\<rparr> else j)"
    using j(1) by (simp add: advance_job can_transition_iff)
  then have "launched ?d jid" "status_in ?d jid (- {PENDING})" using j(2) by (auto simp: status_in_def split: if_splits)
  moreover have "row_at ?d jid k" if "k < length bl" for k
    using that q(5) e by (auto simp: keeps_def)
  ultimately have "stage_ok st (w\<lparr>w_db := ?d\<rparr>) (carried (w_broker w) (A @ (q, m, S') # B)) q m S'"
    using S' q by auto
  with e show ?thesis by (intro choreo_db [OF inv assms(2)]) (use fin in blast)+
qed

lemma pending_not_done:
  assumes "db_ok st w" and "t \<in> set (tasks (w_db w))" and "t_status t = T_PENDING"
  shows "\<not> is_done (w_db w) (t_id t)"
proof
  assume "is_done (w_db w) (t_id t)"
  then obtain t' where "t' \<in> set (tasks (w_db w))" "t_id t' = t_id t" "t_status t' = T_DONE" by (auto simp: is_done_def)
  with get_task_row [OF db_ok_D(1) [OF assms(1)]] assms(2,3) show False by (metis TaskStatus.distinct(1) option.inject)
qed

lemma step_pub:
  assumes inv: "choreo st w (A @ (q, m, PPub jid k bl) # B) G D" and "D \<subseteq> D'" and k: "k < length bl"
    and S': "S' = PPub jid k bl \<or> S' = (if Suc k = length bl then Fin else PPub jid (Suc k) bl)"
  shows "choreo st (w\<lparr>w_broker := publish (w_broker w) (TtsRequested u jid (task_id_of jid k)) Q_TTS\<rparr>) (A @ (q, m, S') # B) G D'"
  unfolding publish_eq
proof (rule choreo_put [OF inv assms(2)])
  note h = choreo_held_D [OF inv]
  let ?ev = "TtsRequested u jid (task_id_of jid k)"
  let ?w = "w\<lparr>w_broker := exchange_publish (w_broker w) (event_msg ?ev) Q_TTS\<rparr>"
  let ?C = "carried (w_broker w) (A @ (q, m, PPub jid k bl) # B)" and ?C' = "carried (w_broker ?w) (A @ (q, m, S') # B)"
  have q: "q = Q_PARSE" "has q m (NCreated jid)" "q \<noteq> Q_DLQ" "bl = blks st w jid" "launched (w_db w) jid"
    "\<And>i. i < length bl \<Longrightarrow> row_at (w_db w) jid i"
    "\<And>i. i < k \<Longrightarrow> is_done (w_db w) (task_id_of jid i) \<or> NTts jid (task_id_of jid i) \<in> ?C" using h(4) by auto
  have qf: "queue_for Q_TTS ?ev" by (simp add: queue_for_def)
  show b: "bound (w_broker w) Q_TTS" using topo_ok_live [OF h(2)] by simp
  show "msg_ok (w_db w) Q_TTS (event_msg ?ev)"
    by (rule msg_ok_event [OF qf]) (use q(5) q(6) [OF k] in auto)
  have C': "n \<in> ?C'" if "n \<in> ?C" "n \<noteq> NCreated jid" for n
  proof -
    have "n \<in> carried (w_broker w) (A @ (q, m, Fin) # B)"
      using carried_drop [OF q(2,3), of "w_broker w" A "PPub jid k bl" B] that by blast
    then show ?thesis using in_queues_put [OF h(2) b] by (auto simp: carried_split)
  qed
  have pub: "is_done (w_db w) (task_id_of jid i) \<or> NTts jid (task_id_of jid i) \<in> ?C'" if "i < Suc k" for i
  proof (cases "i = k")
    case True
    have "NTts jid (task_id_of jid k) \<in> ?C'"
      using in_queues_put [OF h(2) b] has_event_msg [OF qf] by (simp add: carried_split)
    with True show ?thesis by simp
  next
    case False
    with that q(7) [of i] C' show ?thesis by auto
  qed
  have blw: "blks st ?w jid = blks st w jid" by (simp add: blks_def)
  have pubk: "is_done (w_db w) (task_id_of jid i) \<or> NTts jid (task_id_of jid i) \<in> ?C'" if "i < k" for i
    using pub [of i] that by simp
  show "stage_ok st ?w ?C' q m S'"
    using S'
  proof
    assume "S' = PPub jid k bl"
    then show ?thesis using q(1-6) pubk blw by simp
  next
    assume "S' = (if Suc k = length bl then Fin else PPub jid (Suc k) bl)"
    then show ?thesis using q(1-6) pub blw by (cases "Suc k = length bl") simp_all
  qed
  show "has Q_TTS (event_msg ?ev) (NTts i x) \<or> is_done (w_db w) x" if "has q m (NTts i x)" for i x
    using not_tts [OF q(2,3)] that by blast
  show "driven (w_db w) ?C'"
  proof (cases "S' = Fin")
    case False
    have "?C \<subseteq> ?C'" by (rule carried_stays [OF False]) (use in_queues_put [OF h(2) b] in simp)
    then show ?thesis by (rule driven_mono [OF h(5)])
  next
    case True
    then have len: "Suc k = length bl" using S' by (auto split: if_splits)
    show ?thesis
    proof (rule driven_parsed [OF h(5) q(5)])
      show "n \<in> ?C' \<or> n = NCreated jid" if "n \<in> ?C" for n using C' [OF that] by blast
      show "NTts jid (t_id t) \<in> ?C'" if t: "t \<in> set (tasks (w_db w))" "t_job t = jid" "t_status t = T_PENDING" for t
      proof -
        have "block_index t < Suc k" using db_ok_D(5) [OF h(1) t(1)] t(2) q(4) len by simp
        moreover have "t_id t = task_id_of jid (block_index t)" using db_ok_D(2) [OF h(1)] t by (auto simp: task_ids_ok_def)
        ultimately show ?thesis using pub pending_not_done [OF h(1) t(1,3)] by metis
      qed
      have "row_at (w_db w) jid k" using q(6) k by blast
      then show "NStitch jid \<in> ?C'" if "\<forall>t \<in> set (tasks (w_db w)). t_job t \<noteq> jid" using that by (auto simp: row_at_def)
    qed
  qed
qed

lemma step_pub_none:
  assumes inv: "choreo st w (A @ (q, m, PPub jid k []) # B) G D" and "D \<subseteq> D'"
    and S': "S' = PPub jid k [] \<or> S' = Fin"
  shows "choreo st (w\<lparr>w_broker := publish (w_broker w) (StitchReady u jid) Q_STITCH\<rparr>) (A @ (q, m, S') # B) G D'"
  unfolding publish_eq
proof (rule choreo_put [OF inv assms(2)])
  note h = choreo_held_D [OF inv]
  let ?ev = "StitchReady u jid"
  let ?w = "w\<lparr>w_broker := exchange_publish (w_broker w) (event_msg ?ev) Q_STITCH\<rparr>"
  let ?C = "carried (w_broker w) (A @ (q, m, PPub jid k []) # B)" and ?C' = "carried (w_broker ?w) (A @ (q, m, S') # B)"
  have q: "q = Q_PARSE" "has q m (NCreated jid)" "q \<noteq> Q_DLQ" "[] = blks st w jid" "launched (w_db w) jid"
    "\<And>i. i < k \<Longrightarrow> is_done (w_db w) (task_id_of jid i) \<or> NTts jid (task_id_of jid i) \<in> ?C" using h(4) by auto
  have qf: "queue_for Q_STITCH ?ev" by (simp add: queue_for_def)
  show b: "bound (w_broker w) Q_STITCH" using topo_ok_live [OF h(2)] by simp
  have none: "t_job t \<noteq> jid" if "t \<in> set (tasks (w_db w))" for t
    using db_ok_D(5) [OF h(1) that] q(4) by (metis less_nat_zero_code list.size(3))
  then have "settled (w_db w) jid" using q(5) by (simp add: settled_def all_done_def)
  then show "msg_ok (w_db w) Q_STITCH (event_msg ?ev)" by (intro msg_ok_event [OF qf]) simp
  have C': "n \<in> ?C'" if "n \<in> ?C" "n \<noteq> NCreated jid" for n
  proof -
    have "n \<in> carried (w_broker w) (A @ (q, m, Fin) # B)"
      using carried_drop [OF q(2,3), of "w_broker w" A "PPub jid k []" B] that by blast
    then show ?thesis using in_queues_put [OF h(2) b] by (auto simp: carried_split)
  qed
  have "blks st ?w jid = blks st w jid" by (simp add: blks_def)
  moreover have "is_done (w_db w) (task_id_of jid i) \<or> NTts jid (task_id_of jid i) \<in> ?C'" if "i < k" for i
    using q(6) [OF that] C' by auto
  ultimately show "stage_ok st ?w ?C' q m S'"
    using S' q(1-5) by auto
  show "has Q_STITCH (event_msg ?ev) (NTts i x) \<or> is_done (w_db w) x" if "has q m (NTts i x)" for i x
    using not_tts [OF q(2,3)] that by blast
  have "NStitch jid \<in> ?C'" using in_queues_put [OF h(2) b] has_event_msg [OF qf] by (simp add: carried_split)
  then show "driven (w_db w) ?C'"
    by (intro driven_parsed [OF h(5) q(5)]) (use C' none in blast)+
qed

section \<open>The steps of the other handlers\<close>

lemma stitch_job:
  assumes "choreo st w (A @ (q, m, S) # B) G D" and "q = Q_STITCH" and "has q m (NStitch jid)"
  obtains j where "get_job (w_db w) jid = Some j" "j_status j \<in> {GENERATING, STITCHING, COMPLETED, FAILED}"
    "\<And>n. has q m n \<Longrightarrow> n = NStitch jid" "settled (w_db w) jid"
proof -
  have q: "q \<noteq> Q_DLQ" using assms(2) by simp
  have s: "settled (w_db w) jid" using msg_ok_fits [OF choreo_held_D(3) [OF assms(1)] assms(3) q] by simp
  from settled_launched [OF s] obtain j where
    "get_job (w_db w) jid = Some j" "j_status j \<notin> {PENDING, PARSING}" by (auto simp: status_in_def)
  then show ?thesis using that [of j] has_unique [OF _ assms(3) q] s by (cases "j_status j") auto
qed

lemma step_completed:
  assumes inv: "choreo st w (A @ (q, m, SWork jid) # B) G D" and "D \<subseteq> D'"
    and "get_job (w_db w) jid = Some j" and "j_status j = COMPLETED"
  shows "choreo st w (A @ (q, m, Ended jid) # B) G D'"
proof -
  note h = choreo_held_D [OF inv]
  have q: "q = Q_STITCH" "has q m (NStitch jid)" using h(4) by auto
  obtain j' where "\<And>n. has q m n \<Longrightarrow> n = NStitch jid" using stitch_job [OF inv q] by metis
  then have "stage_ok st w (carried (w_broker w) (A @ (q, m, Ended jid) # B)) q m (Ended jid)"
    using assms(3,4) by (auto simp: status_in_def)
  then show ?thesis by (rule choreo_same [OF inv assms(2) _ _ driven_stays [OF h(5)]]) simp_all
qed

lemma step_stitching:
  assumes inv: "choreo st w (A @ (q, m, SWork jid) # B) G D" and "D \<subseteq> D'" and S': "S' = SWork jid \<or> S' = SAdv jid"
  shows "choreo st (w\<lparr>w_db := fst (advance_status (w_db w) jid STITCHING)\<rparr>) (A @ (q, m, S') # B) G D'"
proof -
  note h = choreo_held_D [OF inv]
  let ?d = "fst (advance_status (w_db w) jid STITCHING)"
  have q: "q = Q_STITCH" "has q m (NStitch jid)" using h(4) by auto
  have fin: "S' \<noteq> Fin" using S' by auto
  have "settled (w_db w) jid" using stitch_job [OF inv q] by metis
  moreover have "NStitch jid \<in> carried (w_broker w) (A @ (q, m, S') # B)" using q(2) fin by (simp add: carried_split)
  ultimately have e: "db_ok st (w\<lparr>w_db := ?d\<rparr>) \<and> driven ?d (carried (w_broker w) (A @ (q, m, S') # B)) \<and> keeps (w_db w) ?d"
    by (intro advance_effect [OF h(1) driven_stays [OF h(5) fin]]) simp_all
  obtain j where j: "get_job (w_db w) jid = Some j" "j_status j \<in> {GENERATING, STITCHING, COMPLETED, FAILED}"
    using stitch_job [OF inv q] by metis
  then have "status_in ?d jid {STITCHING, COMPLETED, FAILED}"
    by (auto simp: status_in_def advance_job can_transition_iff)
  then have "stage_ok st (w\<lparr>w_db := ?d\<rparr>) (carried (w_broker w) (A @ (q, m, S') # B)) q m S'"
    using S' q by auto
  with e show ?thesis by (intro choreo_db [OF inv assms(2)]) (use fin in blast)+
qed

lemma step_final:
  assumes inv: "choreo st w (A @ (q, m, SAdv jid) # B) G D" and "D \<subseteq> D'" and S': "S' = SAdv jid \<or> S' = Ended jid"
  shows "choreo st (w\<lparr>w_db := fst (finalize_job (w_db w) jid key)\<rparr>) (A @ (q, m, S') # B) G D'"
proof -
  note h = choreo_held_D [OF inv]
  let ?d = "fst (finalize_job (w_db w) jid key)"
  have q: "q = Q_STITCH" "has q m (NStitch jid)" "status_in (w_db w) jid {STITCHING, COMPLETED, FAILED}" using h(4) by auto
  have fin: "S' \<noteq> Fin" using S' by auto
  have e: "db_ok st (w\<lparr>w_db := ?d\<rparr>) \<and> driven ?d (carried (w_broker w) (A @ (q, m, S') # B)) \<and> keeps (w_db w) ?d"
    by (rule finalize_effect [OF h(1) driven_stays [OF h(5) fin]])
  obtain j' where u: "\<And>n. has q m n \<Longrightarrow> n = NStitch jid" using stitch_job [OF inv q(1,2)] by metis
  from q(3) obtain j where "get_job (w_db w) jid = Some j" "j_status j \<in> {STITCHING, COMPLETED, FAILED}"
    by (auto simp: status_in_def)
  then have s: "status_in ?d jid {COMPLETED, FAILED}"
    by (cases "j_status j") (simp_all add: status_in_def finalize_job_row)
  moreover from s have "status_in ?d jid {STITCHING, COMPLETED, FAILED}" by (auto simp: status_in_def)
  moreover have "\<forall>n. has q m n \<longrightarrow> n \<in> {NCreated jid, NStitch jid}" using u by blast
  ultimately have "stage_ok st (w\<lparr>w_db := ?d\<rparr>) (carried (w_broker w) (A @ (q, m, S') # B)) q m S'"
    using S' q(1,2) by (elim disjE) simp_all
  with e show ?thesis by (intro choreo_db [OF inv assms(2)]) (use fin in blast)+
qed

lemma step_resolve:
  assumes inv: "choreo st w (A @ (q, m, DWork jid) # B) G D" and "D \<subseteq> D'" and S': "S' = Ended jid \<or> S' = Esc"
  shows "choreo st (w\<lparr>w_db := fst (advance_status (w_db w) jid FAILED)\<rparr>) (A @ (q, m, S') # B) G D'"
proof -
  note h = choreo_held_D [OF inv]
  let ?d = "fst (advance_status (w_db w) jid FAILED)"
  have q: "q = Q_DLQ" "\<And>n. has q m n \<Longrightarrow> n \<in> {NCreated jid, NStitch jid}" using h(4) by auto
  have fin: "S' \<noteq> Fin" using S' by auto
  have e: "db_ok st (w\<lparr>w_db := ?d\<rparr>) \<and> driven ?d (carried (w_broker w) (A @ (q, m, S') # B)) \<and> keeps (w_db w) ?d"
    by (rule advance_effect [OF h(1) driven_stays [OF h(5) fin]]) simp_all
  from h(3) q(1) obtain ev where ev: "m_body m = model_dump_json ev" "get_job (w_db w) (job_id ev) \<noteq> None"
    by (auto simp: msg_ok_def)
  then have "has q m (duty_of ev)" using q(1) by (auto simp: has_def)
  then have "job_id ev = jid" using q(2) [of "duty_of ev"] by (cases ev) auto
  with ev(2) obtain j where j: "get_job (w_db w) jid = Some j" by auto
  then have "status_in ?d jid {COMPLETED, FAILED}"
    by (cases "j_status j") (simp_all add: status_in_def advance_job can_transition_iff)
  then have "stage_ok st (w\<lparr>w_db := ?d\<rparr>) (carried (w_broker w) (A @ (q, m, S') # B)) q m S'"
    using S' q(2) by auto
  with e show ?thesis by (intro choreo_db [OF inv assms(2)]) (use fin in blast)+
qed

text \<open>Every step of a handler keeps the invariant.\<close>

lemma choreo_ptrans:
  assumes "ptrans st q m S w w' S'" and "choreo st w (A @ (q, m, S) # B) G D" and "D \<subseteq> D'"
  shows "choreo st w' (A @ (q, m, S') # B) G D'"
  using assms
proof (cases rule: ptrans.cases)
  case stay
  then show ?thesis using choreo_quiet choreo_drawn assms(2,3) by blast
next
  case (reroute c target)
  then show ?thesis using step_reroute [OF assms(2,3)] by blast
next
  case lost
  then show ?thesis using step_lost [OF assms(2,3)] by simp
next
  case (claim jid tid key d r)
  then show ?thesis using step_claim [OF _ assms(3)] assms(2) by blast
next
  case (check jid tid)
  then show ?thesis using step_check [OF _ assms(3)] assms(2) by blast
next
  case (emit jid tid u)
  then show ?thesis using step_emit [OF _ assms(3)] assms(2) by blast
next
  case (key jid j)
  then show ?thesis using step_key [OF _ assms(3)] assms(2) by blast
next
  case (read key ms jid)
  then show ?thesis using step_read [OF _ assms(3)] assms(2) by blast
next
  case (tx bl ms jid d r)
  then show ?thesis using step_tx [OF _ assms(3)] assms(2) by blast
next
  case (adv jid bl)
  then show ?thesis using step_adv [OF _ assms(3)] assms(2) by blast
next
  case (pub k bl jid u)
  then show ?thesis using step_pub [OF _ assms(3)] assms(2) by blast
next
  case (pub_none jid k u)
  then show ?thesis using step_pub_none [OF _ assms(3)] assms(2) by blast
next
  case (completed jid j)
  then show ?thesis using step_completed [OF _ assms(3)] assms(2) by blast
next
  case (stitching jid)
  then show ?thesis using step_stitching [OF _ assms(3)] assms(2) by blast
next
  case (final jid key)
  then show ?thesis using step_final [OF _ assms(3)] assms(2) by blast
next
  case (resolve jid)
  then show ?thesis using step_resolve [OF _ assms(3)] assms(2) by blast
qed

end
