(* ===== verification/Liveness.thy ===== *)
theory Liveness
  imports Choreography
begin

text \<open>
  The system keeps the choreography: the steps of requests and loops, of the broker (taking, giving
  back and expiring a message), crashes, and with them every step of the system (\<open>sys_ok_step\<close>). So, as
  long as no block has to be given up, no active job is ever without a message of it, and a completed
  job is complete. A scripted run of the system is the witness.
\<close>

section \<open>The steps of the other programs\<close>

lemma choreo_gs: "choreo st w H G D \<Longrightarrow> gs_ok w G' D' \<Longrightarrow> choreo st w H G' D'"
  by (simp add: choreo_def)

lemma db_ok_beside:
  assumes "db_ok st w" and "beside st J w w'"
  shows "db_ok st w'" "evolves w w'" "\<And>jid. get_job (w_db w') jid = get_job (w_db w) jid"
proof -
  note ok = db_ok_D [OF assms(1)]
  have b: "jobs (w_db w') = jobs (w_db w)" "tasks (w_db w') = tasks (w_db w)" "wf_db (w_db w')" "texts_kept w w'"
    using assms(2) ok(1) by (auto simp: beside_def)
  show job: "get_job (w_db w') jid = get_job (w_db w) jid" for jid by (simp add: b)
  show ev: "evolves w w'" using b(4)
    by (auto simp: evolves_def kept_def statuses_step_def status_step_def row_at_def is_done_def texts_kept_def settled_def status_in_def all_done_def b)
  have bl: "blks st w' jid = blks st w jid" if "get_job (w_db w) jid \<noteq> None" for jid
    by (rule blks_evolves [OF ev assms(1) that])
  have "get_job (w_db w) (t_job t) \<noteq> None" if "t \<in> set (tasks (w_db w))" for t
    using ok(1) that by (auto simp: wf_db_def row_get_None_iff)
  with ok(4,5) bl have t: "t_status t \<noteq> T_FAILED \<and> block_index t < length (blks st w' (t_job t))" if "t \<in> set (tasks (w_db w'))" for t
    using that b(2) by metis
  have "manuscript_key j = manuscript_key_of i \<and> (\<exists>ms. get_text (w_minio w') (manuscript_key_of i) = Inr ms)
      \<and> (j_status j \<notin> {PENDING, FAILED} \<longrightarrow> (\<forall>k < length (blks st w' i). row_at (w_db w') i k))
      \<and> (j_status j = PARSING \<longrightarrow> (\<forall>t \<in> set (tasks (w_db w')). t_job t = i \<longrightarrow> t_status t = T_PENDING))
      \<and> (j_status j \<in> {STITCHING, COMPLETED} \<longrightarrow> all_done (w_db w') i)"
    if j: "get_job (w_db w') i = Some j" for i j
  proof -
    have j: "get_job (w_db w) i = Some j" using that job by simp
    have "\<exists>ms. get_text (w_minio w') (manuscript_key_of i) = Inr ms"
      using ok(7) [OF j] b(4) unfolding texts_kept_def by blast
    with ok(6) [OF j] ok(8,9,10) [OF j] bl [of i] j show ?thesis by (auto simp: row_at_def all_done_def b)
  qed
  moreover have "task_ids_ok (w_db w')" "fan_in_ok (w_db w')"
    using ok(2,3) by (simp_all add: task_ids_ok_def fan_in_ok_def pending_tasks_def b)
  ultimately show "db_ok st w'" using t b(3) by (simp add: db_ok_def Let_def)
qed

definition delays_ok :: "Settings \<Rightarrow> bool" where
  "delays_ok st \<longleftrightarrow> (\<exists>ds. retry_delays st = Inr ds \<and> ds \<noteq> [] \<and> (\<forall>d \<in> set ds. 0 \<le> d))"

lemma harmless_effect:
  assumes "harmless st J b b'" and "topo_ok st b" and "delays_ok st"
  shows "topo_ok st b'" "in_queues b \<subseteq> in_queues b'"
    "m \<in> set (msgs_in b' q) \<Longrightarrow> m \<in> set (msgs_in b q) \<or> (\<exists>u. \<exists>jid \<in> J. q = Q_PARSE \<and> m = event_msg (JobCreated u jid))"
proof -
  consider (same) "b' = b" | (pub) u jid where "jid \<in> J" "b' = exchange_publish b (event_msg (JobCreated u jid)) Q_PARSE"
    | (decl) ds where "declare_full ds b = Inr b'" "\<forall>d \<in> set ds. 0 \<le> d"
  proof -
    have "\<forall>d \<in> set DEFAULT_RETRY_DELAYS. 0 \<le> d" by (simp add: DEFAULT_RETRY_DELAYS_def)
    then show ?thesis using that assms(1,3) unfolding harmless_def publish_eq delays_ok_def by (metis sum.inject(2))
  qed
  note cs = this
  have declares: "topo_ok st b' \<and> (\<forall>q. msgs_in b' q = msgs_in b q)" if "declare_full ds b = Inr b'" "\<forall>d \<in> set ds. 0 \<le> d" for ds
  proof -
    have "wf_broker b" using assms(2) by (simp add: topo_ok_def)
    from declare_full_ok [OF this that(2)] that(1) have "wf_broker b'" "\<And>k. bound b k \<Longrightarrow> bound b' k" "\<And>q. msgs_in b' q = msgs_in b q"
      by auto
    then show ?thesis using assms(2) by (auto simp: topo_ok_def)
  qed
  have bp: "bound b Q_PARSE" using topo_ok_live [OF assms(2)] by simp
  show "topo_ok st b'" using cs declares assms(2) topo_ok_put by cases auto
  show "in_queues b \<subseteq> in_queues b'"
    using cs
  proof cases
    case pub
    then show ?thesis using in_queues_put [OF assms(2) bp] by simp
  next
    case (decl ds)
    with declares have "\<forall>q. msgs_in b' q = msgs_in b q" by blast
    then show ?thesis by (simp add: in_queues_def)
  qed simp
  show "m \<in> set (msgs_in b q) \<or> (\<exists>u. \<exists>jid \<in> J. q = Q_PARSE \<and> m = event_msg (JobCreated u jid))"
    if m: "m \<in> set (msgs_in b' q)"
    using cs
  proof cases
    case pub
    then show ?thesis using m msgs_put [OF assms(2) bp] by (auto split: if_splits)
  next
    case (decl ds)
    with declares have "\<forall>q. msgs_in b' q = msgs_in b q" by blast
    then show ?thesis using m by simp
  qed (use m in simp)
qed

lemma gs_ok_D:
  assumes "gs_ok w G D"
  shows "distinct (concat (map opens G))" "\<And>S jid. S \<in> set G \<Longrightarrow> jid \<in> set (opens S) \<Longrightarrow> jid \<in> D \<and> get_job (w_db w) jid = None"
    "\<And>S jid. S \<in> set G \<Longrightarrow> jid \<in> known S \<Longrightarrow> get_job (w_db w) jid \<noteq> None"
    "\<And>jid. GIns jid \<in> set G \<Longrightarrow> \<exists>ms. get_text (w_minio w) (manuscript_key_of jid) = Inr ms"
    "\<And>jid. get_job (w_db w) jid \<noteq> None \<Longrightarrow> jid \<in> D"
  using assms by (auto simp: gs_ok_def)

lemma gs_okI:
  assumes "distinct (concat (map opens G))"
    and "\<And>S jid. S \<in> set G \<Longrightarrow> jid \<in> set (opens S) \<Longrightarrow> jid \<in> D \<and> get_job (w_db w) jid = None"
    and "\<And>S jid. S \<in> set G \<Longrightarrow> jid \<in> known S \<Longrightarrow> get_job (w_db w) jid \<noteq> None"
    and "\<And>jid. GIns jid \<in> set G \<Longrightarrow> \<exists>ms. get_text (w_minio w) (manuscript_key_of jid) = Inr ms"
    and "\<And>jid. get_job (w_db w) jid \<noteq> None \<Longrightarrow> jid \<in> D"
  shows "gs_ok w G D"
  unfolding gs_ok_def
proof (intro conjI ballI allI impI)
  show "\<exists>ms. get_text (w_minio w) (manuscript_key_of jid) = Inr ms" if "S \<in> set G" "S = GIns jid" for S jid
    using that assms(4) by simp
qed (use assms in blast)+

lemma choreo_beside:
  assumes inv: "choreo st w H G D" and "beside st J w w'" and "\<forall>jid \<in> J. get_job (w_db w) jid \<noteq> None" and "D \<subseteq> D'"
    and "delays_ok st"
  shows "choreo st w' H G D'"
proof -
  have ok: "db_ok st w" "topo_ok st (w_broker w)" "gs_ok w G D" "driven (w_db w) (carried (w_broker w) H)"
    using inv by (simp_all add: choreo_def)
  note e = db_ok_beside [OF ok(1) assms(2)]
  have "harmless st J (w_broker w) (w_broker w')" using assms(2) by (simp add: beside_def)
  note b = harmless_effect [OF this ok(2) assms(5)]
  have sub: "carried (w_broker w) H \<subseteq> carried (w_broker w') H" using b(2) by (auto simp: carried_def)
  have ts: "tasks (w_db w') = tasks (w_db w)" "texts_kept w w'" using assms(2) by (simp_all add: beside_def)
  show ?thesis
  proof (rule choreo_change [OF inv e(1) b(1) e(2)])
    fix q m
    assume "m \<in> set (msgs_in (w_broker w') q)"
    from b(3) [OF this] show "m \<in> set (msgs_in (w_broker w) q) \<or> msg_ok (w_db w') q m"
    proof
      assume "\<exists>u. \<exists>jid \<in> J. q = Q_PARSE \<and> m = event_msg (JobCreated u jid)"
      then obtain u jid where x: "jid \<in> J" "q = Q_PARSE" "m = event_msg (JobCreated u jid)" by blast
      have "msg_ok (w_db w') Q_PARSE (event_msg (JobCreated u jid))"
        by (rule msg_ok_event) (use assms(3) e(3) x(1) in \<open>simp_all add: queue_for_def\<close>)
      then show ?thesis using x(2,3) by simp
    qed blast
  next
    show "driven (w_db w') (carried (w_broker w') H)"
      using driven_mono [OF ok(4) sub] unfolding driven_def e(3) ts(1) .
    show "gs_ok w' G D'"
    proof (rule gs_okI)
      show "\<exists>ms. get_text (w_minio w') (manuscript_key_of jid) = Inr ms" if "GIns jid \<in> set G" for jid
        using gs_ok_D(4) [OF ok(3) that] ts(2) unfolding texts_kept_def by blast
    qed (use gs_ok_D [OF ok(3)] assms(4) e(3) in auto)
  qed (use sub in blast)+
qed

lemma manuscript_key_of_inj [simp]: "manuscript_key_of a = manuscript_key_of b \<longleftrightarrow> a = b"
  by (simp add: manuscript_key_of_def)

lemma distinct_opens:
  "distinct (concat (map opens (X @ S # Y))) \<longleftrightarrow>
    distinct (concat (map opens (X @ Y))) \<and> distinct (opens S) \<and> set (opens S) \<inter> (\<Union>S \<in> set (X @ Y). set (opens S)) = {}"
  by auto

lemma gs_ok_less:
  assumes "gs_ok w (X @ S # Y) D" and "set (opens S') = {} \<or> opens S' = opens S" and "D \<subseteq> D'"
    and "\<And>jid. jid \<in> known S' \<Longrightarrow> get_job (w_db w) jid \<noteq> None" and "S' \<noteq> S \<Longrightarrow> \<forall>jid. S' \<noteq> GIns jid"
  shows "gs_ok w (X @ S' # Y) D'"
proof (rule gs_okI)
  note g = gs_ok_D [OF assms(1)]
  show "distinct (concat (map opens (X @ S' # Y)))" using g(1) assms(2) unfolding distinct_opens by auto
  show "jid \<in> D' \<and> get_job (w_db w) jid = None" if "T \<in> set (X @ S' # Y)" "jid \<in> set (opens T)" for T jid
    using that g(2) [of S jid] g(2) [of T jid] assms(2,3) by auto
  show "get_job (w_db w) jid \<noteq> None" if "T \<in> set (X @ S' # Y)" "jid \<in> known T" for T jid
    using that g(3) [of T jid] assms(4) by auto
  show "\<exists>ms. get_text (w_minio w) (manuscript_key_of jid) = Inr ms" if "GIns jid \<in> set (X @ S' # Y)" for jid
    using that g(4) [of jid] assms(5) by (cases "S' = S") auto
  show "jid \<in> D'" if "get_job (w_db w) jid \<noteq> None" for jid using g(5) [OF that] assms(3) by blast
qed

lemma gs_ok_remove:
  assumes "gs_ok w (X @ S # Y) D"
  shows "gs_ok w (X @ Y) D"
proof (rule gs_okI)
  note g = gs_ok_D [OF assms]
  show "distinct (concat (map opens (X @ Y)))" using g(1) unfolding distinct_opens by blast
  show "jid \<in> D \<and> get_job (w_db w) jid = None" if "T \<in> set (X @ Y)" "jid \<in> set (opens T)" for T jid
    using that g(2) [of T jid] by auto
  show "get_job (w_db w) jid \<noteq> None" if "T \<in> set (X @ Y)" "jid \<in> known T" for T jid
    using that g(3) [of T jid] by auto
  show "\<exists>ms. get_text (w_minio w) (manuscript_key_of jid) = Inr ms" if "GIns jid \<in> set (X @ Y)" for jid
    using that g(4) [of jid] by auto
qed (rule gs_ok_D(5) [OF assms])

lemma choreo_draw:
  assumes inv: "choreo st w H (X @ GAsk # Y) D" and "u \<notin> D"
  shows "choreo st w H (X @ GPut u # Y) (insert u D)"
proof (rule choreo_gs [OF inv], rule gs_okI)
  have "gs_ok w (X @ GAsk # Y) D" using inv by (simp add: choreo_def)
  note g = gs_ok_D [OF this]
  have new: "get_job (w_db w) u = None" using g(5) [of u] assms(2) by blast
  have "u \<notin> set (opens S)" if "S \<in> set (X @ Y)" for S using g(2) [of S u] that assms(2) by auto
  then show "distinct (concat (map opens (X @ GPut u # Y)))" using g(1) unfolding distinct_opens by auto
  show "jid \<in> insert u D \<and> get_job (w_db w) jid = None" if "T \<in> set (X @ GPut u # Y)" "jid \<in> set (opens T)" for T jid
    using that g(2) [of T jid] new by auto
  show "get_job (w_db w) jid \<noteq> None" if "T \<in> set (X @ GPut u # Y)" "jid \<in> known T" for T jid
    using that g(3) [of T jid] by auto
  show "\<exists>ms. get_text (w_minio w) (manuscript_key_of jid) = Inr ms" if "GIns jid \<in> set (X @ GPut u # Y)" for jid
    using that g(4) [of jid] by auto
  show "jid \<in> insert u D" if "get_job (w_db w) jid \<noteq> None" for jid using g(5) [OF that] by blast
qed

lemma choreo_put_text:
  assumes inv: "choreo st w H (X @ GPut jid # Y) D" and put: "put_text (w_minio w) (manuscript_key_of jid) ms = Inr s"
    and S': "S' = GIns jid \<or> S' = GFree {}" and "D \<subseteq> D'"
  shows "choreo st (w\<lparr>w_minio := s\<rparr>) H (X @ S' # Y) D'"
proof -
  let ?w = "w\<lparr>w_minio := s\<rparr>"
  have ok: "db_ok st w" "gs_ok w (X @ GPut jid # Y) D" "topo_ok st (w_broker w)" "driven (w_db w) (carried (w_broker w) H)"
    using inv by (simp_all add: choreo_def)
  note g = gs_ok_D [OF ok(2)]
  have new: "get_job (w_db w) jid = None" using g(2) [of "GPut jid" jid] by simp
  have other: "get_text s (manuscript_key_of i) = get_text (w_minio w) (manuscript_key_of i)" if "i \<noteq> jid" for i
    using get_text_put_other [OF put] that by simp
  have ev: "evolves w ?w" using other new by (auto simp: evolves_def) (metis option.distinct(1))
  have job: "i \<noteq> jid" if "get_job (w_db w) i \<noteq> None" for i using that new by auto
  have bl: "blks st ?w i = blks st w i" if "get_job (w_db w) i \<noteq> None" for i
    using other [OF job [OF that]] by (simp add: blks_def)
  have tj: "get_job (w_db w) (t_job t) \<noteq> None" if "t \<in> set (tasks (w_db w))" for t
    using db_ok_D(1) [OF ok(1)] that by (auto simp: wf_db_def row_get_None_iff)
  have "db_ok st ?w"
  proof -
    have "t_status t \<noteq> T_FAILED \<and> block_index t < length (blks st ?w (t_job t))" if "t \<in> set (tasks (w_db w))" for t
      using db_ok_D(4,5) [OF ok(1) that] bl [OF tj [OF that]] by simp
    moreover have "manuscript_key j = manuscript_key_of i \<and> (\<exists>ms. get_text s (manuscript_key_of i) = Inr ms)
        \<and> (j_status j \<notin> {PENDING, FAILED} \<longrightarrow> (\<forall>k < length (blks st ?w i). row_at (w_db w) i k))
        \<and> (j_status j = PARSING \<longrightarrow> (\<forall>t \<in> set (tasks (w_db w)). t_job t = i \<longrightarrow> t_status t = T_PENDING))
        \<and> (j_status j \<in> {STITCHING, COMPLETED} \<longrightarrow> all_done (w_db w) i)"
      if j: "get_job (w_db w) i = Some j" for i j
      using db_ok_D(6,7) [OF ok(1) j] db_ok_D(8,9,10) [OF ok(1) j] bl [of i] other [OF job] j by auto
    ultimately show ?thesis using db_ok_D(1,2,3) [OF ok(1)] by (simp add: db_ok_def Let_def)
  qed
  moreover have "gs_ok ?w (X @ S' # Y) D'"
  proof (rule gs_okI)
    show "distinct (concat (map opens (X @ S' # Y)))" using g(1) S' unfolding distinct_opens by auto
    show "i \<in> D' \<and> get_job (w_db ?w) i = None" if "T \<in> set (X @ S' # Y)" "i \<in> set (opens T)" for T i
      using that g(2) [of T i] g(2) [of "GPut jid" i] assms(4) S' by auto
    show "get_job (w_db ?w) i \<noteq> None" if "T \<in> set (X @ S' # Y)" "i \<in> known T" for T i
      using that g(3) [of T i] S' by auto
    show "\<exists>ms. get_text (w_minio ?w) (manuscript_key_of i) = Inr ms" if "GIns i \<in> set (X @ S' # Y)" for i
    proof (cases "i = jid")
      case True
      then show ?thesis using get_text_put_text [OF put] by simp
    next
      case False
      then show ?thesis using that S' g(4) [of i] other [of i] by auto
    qed
    show "i \<in> D'" if "get_job (w_db ?w) i \<noteq> None" for i using that g(5) [of i] assms(4) by auto
  qed
  ultimately show ?thesis
    by (intro choreo_change [OF inv _ _ ev]) (use ok(3,4) in simp_all)
qed

lemma choreo_insert:
  assumes inv: "choreo st w H (X @ GIns jid # Y) D" and ins: "insert_job (w_db w) jid (manuscript_key_of jid) cb = Inr d"
    and "D \<subseteq> D'"
  shows "choreo st (w\<lparr>w_db := d\<rparr>) H (X @ GFree {jid} # Y) D'"
proof -
  let ?w = "w\<lparr>w_db := d\<rparr>"
  have ok: "db_ok st w" "gs_ok w (X @ GIns jid # Y) D" "topo_ok st (w_broker w)" "driven (w_db w) (carried (w_broker w) H)"
    using inv by (simp_all add: choreo_def)
  note g = gs_ok_D [OF ok(2)]
  obtain ms where ms: "get_text (w_minio w) (manuscript_key_of jid) = Inr ms" using g(4) [of jid] by auto
  note e = insert_effect [OF ok(1,4) ins ms]
  have ev: "evolves w ?w" using e(4) settled_step [OF e(4,3)] by (intro evolves_db) (simp add: kept_def row_at_def is_done_def e(3))
  have fresh: "jid \<notin> set (opens T)" if "T \<in> set (X @ Y)" for T using g(1) that unfolding distinct_opens by auto
  have "gs_ok ?w (X @ GFree {jid} # Y) D'"
  proof (rule gs_okI)
    show "distinct (concat (map opens (X @ GFree {jid} # Y)))" using g(1) unfolding distinct_opens by auto
    show "i \<in> D' \<and> get_job (w_db ?w) i = None" if "T \<in> set (X @ GFree {jid} # Y)" "i \<in> set (opens T)" for T i
    proof -
      have T: "T \<in> set (X @ Y)" using that by (auto split: if_splits)
      then have "i \<noteq> jid" using fresh that(2) by blast
      moreover have "i \<in> D \<and> get_job (w_db w) i = None" using g(2) [of T i] T that(2) by auto
      ultimately show ?thesis using e(5) assms(3) by auto
    qed
    show "get_job (w_db ?w) i \<noteq> None" if "T \<in> set (X @ GFree {jid} # Y)" "i \<in> known T" for T i
      using that g(3) [of T i] e(5) by auto
    show "\<exists>ms. get_text (w_minio ?w) (manuscript_key_of i) = Inr ms" if "GIns i \<in> set (X @ GFree {jid} # Y)" for i
      using that g(4) [of i] by auto
    show "i \<in> D'" if "get_job (w_db ?w) i \<noteq> None" for i
      using that e(5) [of i] g(5) [of i] g(2) [of "GIns jid" jid] assms(3) by auto
  qed
  then show ?thesis
    by (intro choreo_change [OF inv e(1) _ ev]) (use ok(3) e(2) in simp_all)
qed

text \<open>Every step of a request or a loop keeps the invariant.\<close>

lemma choreo_btrans:
  assumes "btrans st i S w w' S'" and inv: "choreo st w H (X @ S # Y) D" and "i_uuid i \<notin> D" and "delays_ok st"
  shows "choreo st w' H (X @ S' # Y) (insert (i_uuid i) D)"
  using assms(1)
proof (cases rule: btrans.cases)
  case free
  have g: "gs_ok w (X @ S # Y) D" using inv by (simp add: choreo_def)
  have "gs_ok w (X @ S' # Y) D"
    by (rule gs_ok_less [OF g]) (use free(2) gs_ok_D(3) [OF g, of S] in auto)
  then have inv': "choreo st w H (X @ S' # Y) D" by (rule choreo_gs [OF inv])
  show ?thesis
    by (rule choreo_beside [OF inv' free(1) _ _ assms(4)]) (use gs_ok_D(3) [OF g, of S] in auto)
next
  case draw
  then show ?thesis using choreo_draw [OF _ assms(3)] inv by simp
next
  case (put jid ms s)
  then show ?thesis using choreo_put_text [OF _ put(3,4) subset_insertI] inv by simp
next
  case (insert_row jid cb d)
  then show ?thesis using choreo_insert [OF _ insert_row(4) subset_insertI] inv by simp
next
  case (look J)
  have g: "gs_ok w (X @ S # Y) D" using inv by (simp add: choreo_def)
  have "gs_ok w (X @ S' # Y) (insert (i_uuid i) D)"
    by (rule gs_ok_less [OF g]) (use look in auto)
  then show ?thesis using choreo_gs [OF inv] look by simp
qed

section \<open>Taking, giving back and expiring messages\<close>

text \<open>A change of the broker that loses no duty.\<close>

lemma choreo_broker:
  assumes inv: "choreo st w H G D" and "topo_ok st b"
    and msgs: "\<And>q m. m \<in> set (msgs_in b q) \<Longrightarrow> m \<in> set (msgs_in (w_broker w) q) \<or> msg_ok (w_db w) q m"
    and held: "\<And>h. h \<in> set H' \<Longrightarrow> h \<in> set H \<or> held_ok st w (carried b H') h"
    and sub: "carried (w_broker w) H \<subseteq> carried b H'"
  shows "choreo st (w\<lparr>w_broker := b\<rparr>) H' G D"
proof -
  let ?w = "w\<lparr>w_broker := b\<rparr>"
  have bl: "blks st ?w = blks st w" by (simp add: blks_def fun_eq_iff)
  have sg: "stage_ok st ?w C q m S = stage_ok st w C q m S" for C q m S by (cases S) (simp_all add: bl)
  have hk: "held_ok st ?w C h = held_ok st w C h" for C h by (simp add: held_ok_def sg)
  have ok: "db_ok st w" "gs_ok w G D" "driven (w_db w) (carried (w_broker w) H)" using inv by (simp_all add: choreo_def)
  show ?thesis
  proof (rule choreo_change [OF inv])
    show "db_ok st ?w" using ok(1) by (simp add: db_ok_def bl)
    show "gs_ok ?w G D" using ok(2) by (simp add: gs_ok_def)
    show "evolves w ?w" by (simp add: evolves_def)
    show "driven (w_db ?w) (carried (w_broker ?w) H')" using driven_mono [OF ok(3) sub] by simp
    show "NTts jid tid \<in> carried (w_broker ?w) H' \<or> is_done (w_db ?w) tid" if "NTts jid tid \<in> carried (w_broker w) H" for jid tid
      using subsetD [OF sub that] by simp
    show "h \<in> set H \<or> held_ok st ?w (carried (w_broker ?w) H') h" if "h \<in> set H'" for h
      using held [OF that] unfolding hk by simp
  qed (use assms(2) msgs in simp_all)
qed

lemma take_msg_D:
  assumes "wf_broker b" and "take_msg q b = Some (m, b')"
  shows "wf_broker b'" "bound b' k = bound b k" "msgs_in b q = m # msgs_in b' q" "k \<noteq> q \<Longrightarrow> msgs_in b' k = msgs_in b k"
proof -
  from assms(2) obtain qu ms where qu: "b_queues b q = Some qu" "q_msgs qu = m # ms"
    "b' = b\<lparr>b_queues := (b_queues b)(q := Some (qu\<lparr>q_msgs := ms\<rparr>))\<rparr>"
    by (auto simp: take_msg_def split: option.splits list.splits)
  have "queue_args_ok q (qu\<lparr>q_msgs := ms\<rparr>)" using assms(1) qu(1) by (auto simp: wf_broker_def queue_args_ok_def)
  then show "wf_broker b'" using assms(1) by (auto simp: wf_broker_def qu(3))
  show "bound b' k = bound b k" "msgs_in b q = m # msgs_in b' q" "k \<noteq> q \<Longrightarrow> msgs_in b' k = msgs_in b k"
    using qu by (simp_all add: bound_def msgs_in_def)
qed

lemma choreo_take:
  assumes inv: "choreo st w H G D" and tk: "take_msg q (w_broker w) = Some (m, b)" and "S \<noteq> Fin"
    and "q \<in> set (Q_DLQ # live_queues)" and "\<And>C. stage_ok st w C q m S"
  shows "choreo st (w\<lparr>w_broker := b\<rparr>) (H @ [(q, m, S)]) G D" "msg_ok (w_db w) q m"
proof -
  have topo: "topo_ok st (w_broker w)" using inv by (simp add: choreo_def)
  then have wf: "wf_broker (w_broker w)" by (simp add: topo_ok_def)
  note b = take_msg_D(1,2) [OF wf tk]
  have ms: "set (msgs_in (w_broker w) k) = set (msgs_in b k) \<union> (if k = q then {m} else {})" for k
    using take_msg_D(3) [OF wf tk] take_msg_D(4) [OF wf tk, of k] by auto
  show mok: "msg_ok (w_db w) q m" using inv ms [of q] by (auto simp: choreo_def)
  have "in_queues (w_broker w) \<subseteq> in_queues b \<union> {n. has q m n}"
  proof
    fix n
    assume "n \<in> in_queues (w_broker w)"
    then obtain k x where x: "x \<in> set (msgs_in (w_broker w) k)" "has k x n" by (auto simp: in_queues_def)
    show "n \<in> in_queues b \<union> {n. has q m n}"
    proof (cases "x \<in> set (msgs_in b k)")
      case True
      then show ?thesis using x(2) by (auto simp: in_queues_def)
    next
      case False
      then have "k = q \<and> x = m" using x(1) ms [of k] by (auto split: if_splits)
      then show ?thesis using x(2) by simp
    qed
  qed
  then have sub: "carried (w_broker w) H \<subseteq> carried b (H @ [(q, m, S)])"
    using assms(3) unfolding carried_split [of b H _ "[]"] by (auto simp: carried_def)
  show "choreo st (w\<lparr>w_broker := b\<rparr>) (H @ [(q, m, S)]) G D"
  proof (rule choreo_broker [OF inv _ _ _ sub])
    show "topo_ok st b" using topo b(1,2) by (simp add: topo_ok_def)
    show "x \<in> set (msgs_in (w_broker w) k) \<or> msg_ok (w_db w) k x" if "x \<in> set (msgs_in b k)" for x k
      using that ms [of k] by simp
    show "h \<in> set H \<or> held_ok st w (carried b (H @ [(q, m, S)])) h" if "h \<in> set (H @ [(q, m, S)])" for h
      using that assms(4,5) mok by (auto simp: held_ok_def)
  qed
qed

lemma choreo_requeue:
  assumes inv: "choreo st w (A @ (q, m, S) # B) G D"
  shows "choreo st (w\<lparr>w_broker := requeue m q (w_broker w)\<rparr>) (A @ B) G D"
proof -
  let ?b = "requeue m q (w_broker w)"
  have topo: "topo_ok st (w_broker w)" using inv by (simp add: choreo_def)
  then have wf: "wf_broker (w_broker w)" by (simp add: topo_ok_def)
  have "held_ok st w (carried (w_broker w) (A @ (q, m, S) # B)) (q, m, S)" using inv by (simp add: choreo_def)
  then have q: "q \<in> set (Q_DLQ # live_queues)" "msg_ok (w_db w) q m" by (simp_all add: held_ok_def)
  then have "bound (w_broker w) q" using topo by (auto simp: topo_ok_def)
  then obtain qu where qu: "b_queues (w_broker w) q = Some qu" using bound_queue [OF wf] by blast
  then have b: "?b = (w_broker w)\<lparr>b_queues := (b_queues (w_broker w))(q := Some (qu\<lparr>q_msgs := m # q_msgs qu\<rparr>))\<rparr>"
    by (simp add: requeue_def)
  have args: "queue_args_ok q (qu\<lparr>q_msgs := m # q_msgs qu\<rparr>)" using wf qu by (auto simp: wf_broker_def queue_args_ok_def)
  have ms: "set (msgs_in ?b k) = set (msgs_in (w_broker w) k) \<union> (if k = q then {m} else {})" for k
    using qu by (auto simp: b msgs_in_def)
  have iq: "in_queues ?b = in_queues (w_broker w) \<union> {n. has q m n}"
    unfolding in_queues_def by (auto simp: ms split: if_splits)
  show ?thesis
  proof (rule choreo_broker [OF inv])
    show "topo_ok st ?b" using topo args by (auto simp: topo_ok_def b wf_broker_def bound_def)
    show "x \<in> set (msgs_in (w_broker w) k) \<or> msg_ok (w_db w) k x" if "x \<in> set (msgs_in ?b k)" for x k
      using that q(2) by (auto simp: ms split: if_splits)
    show "carried (w_broker w) (A @ (q, m, S) # B) \<subseteq> carried ?b (A @ B)"
      unfolding carried_split iq by (auto simp: carried_def iq split: if_splits)
  qed auto
qed

lemma choreo_acked:
  assumes inv: "choreo st w (A @ (q, m, S) # B) G D" and "S = Fin \<or> (\<exists>jid. S = Ended jid)"
  shows "choreo st w (A @ B) G D"
proof -
  note h = choreo_held_D [OF inv]
  let ?C = "carried (w_broker w) (A @ (q, m, S) # B)" and ?C' = "carried (w_broker w) (A @ B)"
  have C: "?C = ?C' \<union> in_hand (q, m, S)" by (auto simp: carried_def)
  have "driven (w_db w) ?C' \<and> (\<forall>jid tid. NTts jid tid \<in> ?C \<longrightarrow> NTts jid tid \<in> ?C')"
    using assms(2)
  proof
    assume "S = Fin"
    then show ?thesis using h(5) C by simp
  next
    assume "\<exists>jid. S = Ended jid"
    then obtain jid where S: "S = Ended jid" by blast
    then have e: "\<And>n. has q m n \<Longrightarrow> n \<in> {NCreated jid, NStitch jid}" "status_in (w_db w) jid {COMPLETED, FAILED}"
      using h(4) by auto
    have "driven (w_db w) ?C'"
    proof (rule driven_ended [OF h(5) e(2)])
      show "n \<in> ?C' \<or> duty_job n = jid" if "n \<in> ?C" for n using that C S e(1) [of n] by auto
    qed
    moreover have "NTts i x \<in> ?C'" if "NTts i x \<in> ?C" for i x
      using that C S e(1) [of "NTts i x"] by auto
    ultimately show ?thesis by blast
  qed
  then show ?thesis
    by (intro choreo_change [OF inv h(1,2)]) (use inv in \<open>auto simp: choreo_def evolves_def\<close>)
qed

text \<open>The head of a delay queue, when its time has passed, moves to the live queue of its ladder.\<close>

lemma expire_head_put:
  assumes "wf_broker b" and "expire_head b q = Some b'"
  obtains m l d b1 where "take_msg q b = Some (m, b1)" "b' = exchange_publish b1 m l" "l \<in> set live_queues" "q = retry_q_name l d"
proof -
  from assms(2) obtain qu m ms x l where qu: "b_queues b q = Some qu" "q_msgs qu = m # ms" "q_dlx qu = Some (x, l)"
    "b' = exchange_publish (b\<lparr>b_queues := (b_queues b)(q := Some (qu\<lparr>q_msgs := ms\<rparr>))\<rparr>) m l"
    by (auto simp: expire_head_def split: option.splits list.splits)
  have "queue_args_ok q qu" using assms(1) qu(1) by (simp add: wf_broker_def)
  with qu(3) obtain d where "l \<in> set live_queues" "q = retry_q_name l d" by (auto simp: queue_args_ok_def)
  moreover have "take_msg q b = Some (m, b\<lparr>b_queues := (b_queues b)(q := Some (qu\<lparr>q_msgs := ms\<rparr>))\<rparr>)"
    using qu by (simp add: take_msg_def)
  ultimately show ?thesis using that qu(4) by blast
qed

lemma queue_for_expired:
  assumes "l \<in> set live_queues" and "queue_for (retry_q_name l d) ev"
  shows "queue_for l ev"
proof -
  have "retry_q_name l d \<noteq> route_of ev" using live_not_retry(1) [OF route_of_live] by simp
  then obtain d' where "retry_q_name l d = retry_q_name (route_of ev) d'" using assms(2) unfolding queue_for_def by blast
  then show ?thesis using retry_q_name_inj [OF assms(1) route_of_live] by (simp add: queue_for_def)
qed

lemma retry_not_dlq: "retry_q_name l d \<noteq> Q_DLQ"
  by (auto simp: live_queues_def)

lemma has_expired: "l \<in> set live_queues \<Longrightarrow> has (retry_q_name l d) m n \<Longrightarrow> has l m n"
  using queue_for_expired retry_not_dlq unfolding has_def by blast

lemma choreo_expire:
  assumes inv: "choreo st w H G D" and ex: "expire_head (w_broker w) q = Some b"
  shows "choreo st (w\<lparr>w_broker := b\<rparr>) H G D"
proof -
  have topo: "topo_ok st (w_broker w)" using inv by (simp add: choreo_def)
  then have wf: "wf_broker (w_broker w)" by (simp add: topo_ok_def)
  from expire_head_put [OF wf ex] obtain m l d b1 where tk: "take_msg q (w_broker w) = Some (m, b1)"
    and b: "b = exchange_publish b1 m l" and l: "l \<in> set live_queues" "q = retry_q_name l d" .
  have mi: "set (msgs_in (w_broker w) k) = set (msgs_in b1 k) \<union> (if k = q then {m} else {})" for k
    using take_msg_D(3) [OF wf tk] take_msg_D(4) [OF wf tk, of k] by auto
  have topo': "topo_ok st b1" using topo take_msg_D(1,2) [OF wf tk] by (simp add: topo_ok_def)
  have bl: "bound b1 l" using topo' l(1) by (simp add: topo_ok_def)
  have "msg_ok (w_db w) q m" using inv mi [of q] by (auto simp: choreo_def)
  then have mok: "msg_ok (w_db w) l m" using queue_for_expired [OF l(1)] retry_not_dlq unfolding msg_ok_def l(2) by blast
  have iq: "in_queues (w_broker w) \<subseteq> in_queues b"
  proof
    fix n
    assume "n \<in> in_queues (w_broker w)"
    then obtain k y where y: "y \<in> set (msgs_in (w_broker w) k)" "has k y n" by (auto simp: in_queues_def)
    then have "n \<in> in_queues b1 \<or> k = q \<and> y = m" using mi [of k] by (auto simp: in_queues_def split: if_splits)
    then show "n \<in> in_queues b"
      using has_expired [OF l(1), of d m n] y(2) l(2) unfolding b in_queues_put [OF topo' bl] by blast
  qed
  show ?thesis
  proof (rule choreo_broker [OF inv])
    show "topo_ok st b" unfolding b by (rule topo_ok_put [OF topo'])
    show "y \<in> set (msgs_in (w_broker w) k) \<or> msg_ok (w_db w) k y" if "y \<in> set (msgs_in b k)" for y k
      using that mi [of k] mok unfolding b msgs_put [OF topo' bl] by (auto split: if_splits)
    show "carried (w_broker w) H \<subseteq> carried b H" using iq by (auto simp: carried_def)
  qed simp
qed

section \<open>The system\<close>

definition plays :: "Settings \<Rightarrow> (exn \<Rightarrow> bool) \<Rightarrow> delivery \<Rightarrow> held \<Rightarrow> bool" where
  "plays st esc p h \<longleftrightarrow> (\<exists>S. h = (p_queue p, p_msg p, S) \<and> follows st (p_queue p) (p_msg p) (handler_end esc) (p_prog p) S)"

abbreviation runs_beside :: "Settings \<Rightarrow> unit action \<Rightarrow> tstage \<Rightarrow> bool" where
  "runs_beside st \<equiv> sim (btrans st) any_end"

definition sys_ok :: "Settings \<Rightarrow> (exn \<Rightarrow> bool) \<Rightarrow> sys \<Rightarrow> bool" where
  "sys_ok st esc s \<longleftrightarrow> (\<exists>H G. list_all2 (plays st esc) (s_procs s) H \<and> list_all2 (runs_beside st) (s_tasks s) G
    \<and> choreo st (s_world s) H G (s_drawn s))"

text \<open>No \<open>TtsRequested\<close> is in the hands of the dead-letter resolver.\<close>

definition no_block_given_up :: "sys \<Rightarrow> bool" where
  "no_block_given_up s \<longleftrightarrow> (\<forall>p \<in> set (s_procs s). p_queue p = Q_DLQ \<longrightarrow>
    (\<forall>e jid tid. m_body (p_msg p) \<noteq> model_dump_json (TtsRequested e jid tid)))"

lemma list_all2_pick:
  assumes "list_all2 R xs ys" and "k < length xs"
  obtains A y B where "ys = A @ y # B" "R (xs ! k) y" "list_all2 R (take k xs) A" "list_all2 R (drop (Suc k) xs) B"
proof -
  have len: "k < length ys" using assms by (simp add: list_all2_lengthD)
  show ?thesis
  proof (rule that)
    show "ys = take k ys @ ys ! k # drop (Suc k) ys" using len by (rule id_take_nth_drop)
    show "R (xs ! k) (ys ! k)" using assms by (rule list_all2_nthD)
    show "list_all2 R (take k xs) (take k ys)" "list_all2 R (drop (Suc k) xs) (drop (Suc k) ys)"
      using assms(1) by (rule list_all2_takeI list_all2_dropI)+
  qed
qed

lemma start_stage_ok:
  assumes "msg_ok d q m" and "q \<in> set (Q_DLQ # live_queues)"
    and "q = Q_DLQ \<Longrightarrow> \<forall>e jid tid. m_body m \<noteq> model_dump_json (TtsRequested e jid tid)"
  obtains ev c where "m_body m = model_dump_json ev" "get_retry_count m = Inr c" "0 \<le> c"
    "q = route_of ev \<or> q = Q_DLQ \<and> route_of ev \<noteq> Q_TTS" "start_stage q ev \<noteq> Fin" "\<And>C. stage_ok st w C q m (start_stage q ev)"
proof -
  from assms(1) obtain ev c where ev: "m_body m = model_dump_json ev" "get_retry_count m = Inr c" "0 \<le> c"
    "q = Q_DLQ \<or> queue_for q ev" by (auto simp: msg_ok_def)
  have route: "q = route_of ev \<or> q = Q_DLQ \<and> route_of ev \<noteq> Q_TTS"
  proof (cases "q = Q_DLQ")
    case True
    then show ?thesis using assms(3) ev(1) by (cases ev) auto
  next
    case False
    then have "queue_for q ev" "q \<in> set live_queues" using ev(4) assms(2) by auto
    then show ?thesis using live_not_retry(2) by (auto simp: queue_for_def)
  qed
  have own: "has q m (duty_of ev)" if "q = route_of ev" using that ev(1) by (auto simp: has_def queue_for_def)
  have dlq: "n \<in> {NCreated jid, NStitch jid}" if "has q m n" "ev = JobCreated e jid \<or> ev = StitchReady e jid" for n e jid
  proof -
    from that(1) obtain ev' where "model_dump_json ev = model_dump_json ev'" "duty_of ev' = n" using ev(1) by (auto simp: has_def)
    then show ?thesis using that(2) by (cases ev') (auto simp: model_dump_json_def)
  qed
  have "start_stage q ev \<noteq> Fin" by (cases ev) simp_all
  moreover have "stage_ok st w C q m (start_stage q ev)" for C
    using route
  proof
    assume "q = route_of ev"
    with own show ?thesis by (cases ev) simp_all
  next
    assume r: "q = Q_DLQ \<and> route_of ev \<noteq> Q_TTS"
    then show ?thesis using dlq by (cases ev) auto
  qed
  ultimately show ?thesis using that [OF ev(1,2,3) route] by blast
qed

lemma ok_deliver:
  assumes inv: "choreo st w H G D" and tk: "take_msg q (w_broker w) = Some (m, b)"
    and h: "map_of (all_handlers (context_of st wid)) q = Some h"
    and dl: "q = Q_DLQ \<Longrightarrow> \<forall>e jid tid. m_body m \<noteq> model_dump_json (TtsRequested e jid tid)"
    and "delays_ok st" and "esc InfraError"
  shows "\<exists>S. follows st q m (handler_end esc) (h m) S \<and> choreo st (w\<lparr>w_broker := b\<rparr>) (H @ [(q, m, S)]) G D"
proof -
  have q: "q \<in> set (Q_DLQ # live_queues)"
    using h by (auto simp: all_handlers_def build_handlers_def live_queues_def split: if_splits)
  have "wf_broker (w_broker w)" using inv by (simp add: choreo_def topo_ok_def)
  then have "msgs_in (w_broker w) q = m # msgs_in b q" using take_msg_D(3) [OF _ tk] by blast
  then have "msg_ok (w_db w) q m" using inv by (auto simp: choreo_def)
  from start_stage_ok [OF this q dl, where st = st and w = w] obtain ev c where
    ev: "m_body m = model_dump_json ev" "get_retry_count m = Inr c" "0 \<le> c"
    "q = route_of ev \<or> q = Q_DLQ \<and> route_of ev \<noteq> Q_TTS" "start_stage q ev \<noteq> Fin" "\<And>C. stage_ok st w C q m (start_stage q ev)"
    by blast
  from assms(5) obtain ds where ds: "retry_delays st = Inr ds" "ds \<noteq> []" by (auto simp: delays_ok_def)
  have "settings (context_of st wid) = st" by (simp add: context_of_def)
  from follows_handler [where esc = esc, OF h ev(1,4) this ds ev(2,3) assms(6)] choreo_take(1) [OF inv tk ev(5) q ev(6)]
  show ?thesis by blast
qed

lemma ok_settle:
  assumes inv: "choreo st w (A @ (q, m, S) # B) G D" and "handler_end esc S (Inr r)"
  shows "choreo st (if requeued r then w\<lparr>w_broker := requeue m q (w_broker w)\<rparr> else w) (A @ B) G D"
proof (cases "requeued r")
  case True
  then show ?thesis using choreo_requeue [OF inv] by simp
next
  case False
  have "S = Fin \<or> (\<exists>jid. S = Ended jid)"
    using assms(2) False by (cases r) (auto simp: handler_end_def requeued_def)
  then show ?thesis using choreo_acked [OF inv] False by simp
qed

lemma ok_crash:
  assumes "list_all2 (plays st esc) ps H" and "choreo st w (K @ H) G D"
  shows "\<exists>H'. list_all2 (plays st esc) (filter (\<lambda>p. p_worker p \<noteq> wid) ps) H'
    \<and> choreo st (fold (give_back True) (filter (\<lambda>p. p_worker p = wid) ps) w) (K @ H') G D"
  using assms
proof (induction ps arbitrary: H K w)
  case Nil
  then show ?case by simp
next
  case (Cons p ps)
  then obtain h H0 where H: "H = h # H0" "plays st esc p h" "list_all2 (plays st esc) ps H0"
    by (auto simp: list_all2_Cons1)
  then obtain S where h: "h = (p_queue p, p_msg p, S)" by (auto simp: plays_def)
  show ?case
  proof (cases "p_worker p = wid")
    case True
    have "choreo st (give_back True p w) (K @ H0) G D"
      using choreo_requeue [of st w K "p_queue p" "p_msg p" S H0] Cons.prems(2) by (simp add: H(1) h give_back_def)
    from Cons.IH [OF H(3) this] True show ?thesis by simp
  next
    case False
    have "choreo st w ((K @ [h]) @ H0) G D" using Cons.prems(2) by (simp add: H(1))
    from Cons.IH [OF H(3) this] obtain H' where
      "list_all2 (plays st esc) (filter (\<lambda>p. p_worker p \<noteq> wid) ps) H'"
      "choreo st (fold (give_back True) (filter (\<lambda>p. p_worker p = wid) ps) w) (K @ h # H') G D" by auto
    with False H(2) show ?thesis by (intro exI [of _ "h # H'"]) simp
  qed
qed

text \<open>The delivery or the task whose turn it is, in the ghost state.\<close>

lemma proc_pick:
  assumes "list_all2 (plays st esc) ps H" and "k < length ps"
  obtains A S B where "H = A @ (p_queue (ps ! k), p_msg (ps ! k), S) # B"
    "follows st (p_queue (ps ! k)) (p_msg (ps ! k)) (handler_end esc) (p_prog (ps ! k)) S"
    "\<And>p' S'. follows st (p_queue (ps ! k)) (p_msg (ps ! k)) (handler_end esc) p' S' \<Longrightarrow>
      list_all2 (plays st esc) (ps[k := (ps ! k)\<lparr>p_prog := p'\<rparr>]) (A @ (p_queue (ps ! k), p_msg (ps ! k), S') # B)"
    "list_all2 (plays st esc) (remove_nth k ps) (A @ B)"
proof -
  from list_all2_pick [OF assms] obtain A h B where
    l: "H = A @ h # B" "plays st esc (ps ! k) h" "list_all2 (plays st esc) (take k ps) A"
    "list_all2 (plays st esc) (drop (Suc k) ps) B" by metis
  from l(2) obtain S where S: "h = (p_queue (ps ! k), p_msg (ps ! k), S)"
    "follows st (p_queue (ps ! k)) (p_msg (ps ! k)) (handler_end esc) (p_prog (ps ! k)) S" by (auto simp: plays_def)
  show ?thesis
  proof (rule that [of A S B])
    show "H = A @ (p_queue (ps ! k), p_msg (ps ! k), S) # B" using l(1) S(1) by simp
    show "follows st (p_queue (ps ! k)) (p_msg (ps ! k)) (handler_end esc) (p_prog (ps ! k)) S" by (rule S(2))
    show "list_all2 (plays st esc) (remove_nth k ps) (A @ B)" using l(3,4) by (simp add: remove_nth_def list_all2_appendI)
  qed (use l(3,4) assms(2) in \<open>simp add: upd_conv_take_nth_drop plays_def list_all2_appendI\<close>)
qed

lemma task_pick:
  assumes "list_all2 (runs_beside st) ts G" and "k < length ts"
  obtains A S B where "G = A @ S # B" "runs_beside st (ts ! k) S"
    "\<And>t' S'. runs_beside st t' S' \<Longrightarrow> list_all2 (runs_beside st) (ts[k := t']) (A @ S' # B)"
    "list_all2 (runs_beside st) (remove_nth k ts) (A @ B)"
proof -
  from list_all2_pick [OF assms] obtain A S B where
    l: "G = A @ S # B" "runs_beside st (ts ! k) S" "list_all2 (runs_beside st) (take k ts) A"
    "list_all2 (runs_beside st) (drop (Suc k) ts) B" by metis
  show ?thesis
  proof (rule that [OF l(1,2)])
    show "list_all2 (runs_beside st) (remove_nth k ts) (A @ B)" using l(3,4) by (simp add: remove_nth_def list_all2_appendI)
  qed (use l(3,4) assms(2) in \<open>simp add: upd_conv_take_nth_drop list_all2_appendI\<close>)
qed

lemma sys_okI:
  "list_all2 (plays st esc) (s_procs s) H \<Longrightarrow> list_all2 (runs_beside st) (s_tasks s) G \<Longrightarrow>
    choreo st (s_world s) H G (s_drawn s) \<Longrightarrow> sys_ok st esc s"
  by (auto simp: sys_ok_def)

lemma ok_handler:
  assumes "list_all2 (plays st esc) (s_procs s) H" and "list_all2 (runs_beside st) (s_tasks s) G"
    and "choreo st (s_world s) H G (s_drawn s)" and k: "k < length (s_procs s)" "p_prog (s_procs s ! k) = Step f"
    and f: "f i (s_world s) = Some (w', p')"
  shows "sys_ok st esc (s\<lparr>s_world := w', s_procs := (s_procs s)[k := (s_procs s ! k)\<lparr>p_prog := p'\<rparr>],
    s_drawn := insert (i_uuid i) (s_drawn s)\<rparr>)"
proof (rule proc_pick [OF assms(1) k(1)])
  fix A S B
  let ?p = "s_procs s ! k"
  assume H: "H = A @ (p_queue ?p, p_msg ?p, S) # B" and S: "follows st (p_queue ?p) (p_msg ?p) (handler_end esc) (p_prog ?p) S"
    and upd: "\<And>p' S'. follows st (p_queue ?p) (p_msg ?p) (handler_end esc) p' S' \<Longrightarrow>
      list_all2 (plays st esc) ((s_procs s)[k := ?p\<lparr>p_prog := p'\<rparr>]) (A @ (p_queue ?p, p_msg ?p, S') # B)"
  from S f obtain S' where S': "ptrans st (p_queue ?p) (p_msg ?p) S (s_world s) w' S'"
    "follows st (p_queue ?p) (p_msg ?p) (handler_end esc) p' S'" unfolding k(2) sim_Step by blast
  have "choreo st w' (A @ (p_queue ?p, p_msg ?p, S') # B) G (insert (i_uuid i) (s_drawn s))"
    by (rule choreo_ptrans [OF S'(1)]) (use assms(3) H in auto)
  then show ?thesis using upd [OF S'(2)] assms(2) by (intro sys_okI) simp_all
qed

lemma ok_end:
  assumes "list_all2 (plays st esc) (s_procs s) H" and "list_all2 (runs_beside st) (s_tasks s) G"
    and "choreo st (s_world s) H G (s_drawn s)" and k: "k < length (s_procs s)"
    and "p_prog (s_procs s ! k) = Ret r \<and> again = requeued r \<or> p_prog (s_procs s ! k) = Raise e \<and> again = esc e"
  shows "sys_ok st esc (s\<lparr>s_world := give_back again (s_procs s ! k) (s_world s), s_procs := remove_nth k (s_procs s)\<rparr>)"
proof (rule proc_pick [OF assms(1) k])
  fix A S B
  let ?p = "s_procs s ! k"
  assume H: "H = A @ (p_queue ?p, p_msg ?p, S) # B" and S: "follows st (p_queue ?p) (p_msg ?p) (handler_end esc) (p_prog ?p) S"
    and rem: "list_all2 (plays st esc) (remove_nth k (s_procs s)) (A @ B)"
  have inv: "choreo st (s_world s) (A @ (p_queue ?p, p_msg ?p, S) # B) G (s_drawn s)" using assms(3) H by simp
  from assms(5) have "choreo st (give_back again ?p (s_world s)) (A @ B) G (s_drawn s)"
  proof
    assume r: "p_prog ?p = Ret r \<and> again = requeued r"
    then show ?thesis using ok_settle [OF inv] S by (simp add: give_back_def)
  next
    assume r: "p_prog ?p = Raise e \<and> again = esc e"
    then have "again" using S by (simp add: handler_end_def)
    then show ?thesis using choreo_requeue [OF inv] by (simp add: give_back_def)
  qed
  then show ?thesis using rem assms(2) by (intro sys_okI) simp_all
qed

lemma ok_start:
  assumes "list_all2 (plays st esc) (s_procs s) H" and "list_all2 (runs_beside st) (s_tasks s) G"
    and "choreo st (s_world s) H G (s_drawn s)" and "background st t"
  shows "sys_ok st esc (s\<lparr>s_tasks := s_tasks s @ [t]\<rparr>)"
proof -
  from sim_background [OF assms(4)] obtain S where S: "S = GFree {} \<or> S = GAsk" "runs_beside st t S" by blast
  have g: "gs_ok (s_world s) G (s_drawn s)" using assms(3) by (simp add: choreo_def)
  have "gs_ok (s_world s) (G @ [S]) (s_drawn s)" by (rule gs_okI) (use gs_ok_D [OF g] S(1) in auto)
  from choreo_gs [OF assms(3) this] show ?thesis
    using assms(1,2) S(2) by (intro sys_okI [of st esc _ H "G @ [S]"]) (simp_all add: list_all2_appendI)
qed

lemma ok_task:
  assumes "list_all2 (plays st esc) (s_procs s) H" and "list_all2 (runs_beside st) (s_tasks s) G"
    and "choreo st (s_world s) H G (s_drawn s)" and k: "k < length (s_tasks s)" "s_tasks s ! k = Step f"
    and f: "i_uuid i \<notin> s_drawn s" "f i (s_world s) = Some (w', t')" and "delays_ok st"
  shows "sys_ok st esc (s\<lparr>s_world := w', s_tasks := (s_tasks s)[k := t'], s_drawn := insert (i_uuid i) (s_drawn s)\<rparr>)"
proof (rule task_pick [OF assms(2) k(1)])
  fix A S B
  assume G: "G = A @ S # B" and S: "runs_beside st (s_tasks s ! k) S"
    and upd: "\<And>t' S'. runs_beside st t' S' \<Longrightarrow> list_all2 (runs_beside st) ((s_tasks s)[k := t']) (A @ S' # B)"
  from S f(2) obtain S' where S': "btrans st i S (s_world s) w' S'" "runs_beside st t' S'" unfolding k(2) sim_Step by blast
  have "choreo st w' H (A @ S' # B) (insert (i_uuid i) (s_drawn s))"
    by (rule choreo_btrans [OF S'(1) _ f(1) assms(8)]) (use assms(3) G in simp)
  then show ?thesis using upd [OF S'(2)] assms(1) by (intro sys_okI) simp_all
qed

lemma ok_stop:
  assumes "list_all2 (plays st esc) (s_procs s) H" and "list_all2 (runs_beside st) (s_tasks s) G"
    and "choreo st (s_world s) H G (s_drawn s)" and "k < length (s_tasks s)"
  shows "sys_ok st esc (s\<lparr>s_tasks := remove_nth k (s_tasks s)\<rparr>)"
proof (rule task_pick [OF assms(2,4)])
  fix A S B
  assume G: "G = A @ S # B" and rem: "list_all2 (runs_beside st) (remove_nth k (s_tasks s)) (A @ B)"
  have "gs_ok (s_world s) (A @ S # B) (s_drawn s)" using assms(3) G by (simp add: choreo_def)
  from choreo_gs [OF assms(3) gs_ok_remove [OF this]] show ?thesis using rem assms(1) by (intro sys_okI) simp_all
qed

text \<open>Every step of the system keeps the invariant.\<close>

lemma sys_ok_step:
  assumes step: "sys_step st esc s s'" and ok: "sys_ok st esc s" and P: "no_block_given_up s'"
    and "delays_ok st" and "esc InfraError"
  shows "sys_ok st esc s'"
proof -
  from ok obtain H G where H: "list_all2 (plays st esc) (s_procs s) H" and G: "list_all2 (runs_beside st) (s_tasks s) G"
    and inv: "choreo st (s_world s) H G (s_drawn s)" by (auto simp: sys_ok_def)
  from step show ?thesis
  proof (cases rule: sys_step.cases)
    case (deliver q m b wid h)
    have dl: "\<forall>e jid tid. m_body m \<noteq> model_dump_json (TtsRequested e jid tid)" if "q = Q_DLQ"
      using P that by (simp add: deliver(1) no_block_given_up_def)
    from ok_deliver [where esc = esc, OF inv deliver(2,3) dl assms(4,5)] obtain S where
      "follows st q m (handler_end esc) (h m) S" "choreo st ((s_world s)\<lparr>w_broker := b\<rparr>) (H @ [(q, m, S)]) G (s_drawn s)"
      by blast
    then show ?thesis
      using H G by (intro sys_okI [of st esc _ "H @ [(q, m, S)]" G]) (simp_all add: deliver(1) plays_def list_all2_appendI)
  next
    case (crash wid)
    from ok_crash [OF H, of "s_world s" "[]" G "s_drawn s" wid] inv obtain H' where
      H': "list_all2 (plays st esc) (filter (\<lambda>p. p_worker p \<noteq> wid) (s_procs s)) H'"
      "choreo st (fold (give_back True) (filter (\<lambda>p. p_worker p = wid) (s_procs s)) (s_world s)) H' G (s_drawn s)" by auto
    then show ?thesis
      using G choreo_quiet [OF H'(2) quiet_updates(2)] by (intro sys_okI [of st esc _ H' G]) (simp_all add: crash crash_worker_def)
  next
    case (renew wid k f)
    have "quiet (s_world s) (beat (context_of st wid) k f (s_world s))"
      by (simp add: beat_def Let_def quiet_def split: fault.split)
    then show ?thesis using H G choreo_quiet [OF inv] by (intro sys_okI [of st esc _ H G]) (simp_all add: renew)
  next
    case (tick dt)
    have "beside st {} (s_world s) (s_world s')" by (simp add: tick beside_def harmless_def texts_kept_def wf_db_def)
    from choreo_beside [OF inv this _ _ assms(4)] show ?thesis using H G by (intro sys_okI [of st esc _ H G]) (simp_all add: tick)
  next
    case (expire q b)
    then show ?thesis using H G choreo_expire [OF inv expire(2)] by (intro sys_okI [of st esc _ H G]) simp_all
  next
    case wipe
    then show ?thesis using H G choreo_quiet [OF inv quiet_updates(1)] by (intro sys_okI [of st esc _ H G]) simp_all
  next
    case (settle k r)
    then show ?thesis using ok_end [OF H G inv] by blast
  next
    case (escape k e)
    then show ?thesis using ok_end [OF H G inv] by blast
  qed (use ok_handler [OF H G inv] ok_start [OF H G inv] ok_task [OF H G inv] ok_stop [OF H G inv] assms(4) in blast)+
qed

lemma sys_ok_reach:
  assumes "sys_reach st esc no_block_given_up s0 s" and "sys_ok st esc s0" and "delays_ok st" and "esc InfraError"
  shows "sys_ok st esc s"
  using assms(1)
proof induction
  case init
  show ?case by (rule assms(2))
next
  case (step s s')
  then show ?case using sys_ok_step assms(3,4) by blast
qed

section \<open>No job is stranded\<close>

text \<open>The world after a gateway and a worker have booted on empty services.\<close>

definition booted :: "Settings \<Rightarrow> world \<Rightarrow> bool" where
  "booted st w \<longleftrightarrow> (\<exists>i wid w' ctx. i_fault i = NoFault \<and> run i gateway_startup empty_world = (w', Done ())
    \<and> run i (build_context st wid) w' = (w, Done ctx))"

text \<open>A message of the job is in a queue or in the hands of a consumer.\<close>

definition attended :: "sys \<Rightarrow> string \<Rightarrow> bool" where
  "attended s jid \<longleftrightarrow> (\<exists>m ev. (m \<in> p_msg ` set (s_procs s) \<or> (\<exists>q. m \<in> set (msgs_in (w_broker (s_world s)) q)))
    \<and> m_body m = model_dump_json ev \<and> job_id ev = jid)"

lemma booted_facts:
  assumes "booted st w" and "delays_ok st"
  shows "topo_ok st (w_broker w)" "msgs_in (w_broker w) q = []" "w_db w = empty_db" "BUCKET \<in> set (buckets (w_minio w))"
proof -
  from assms(1) obtain i wid w' ctx where r: "i_fault i = NoFault" "run i gateway_startup empty_world = (w', Done ())"
    "run i (build_context st wid) w' = (w, Done ctx)" by (auto simp: booted_def)
  from assms(2) obtain ds where ds: "retry_delays st = Inr ds" "\<forall>d \<in> set ds. 0 \<le> d" by (auto simp: delays_ok_def)
  have wf: "wf_broker (w_broker empty_world)" using wf_empty_broker by (simp add: empty_world_def)
  from run_gateway_startup [OF r(1) wf] r(2) have w': "wf_broker (w_broker w')" "w_db w' = empty_db"
    "\<And>q. msgs_in (w_broker w') q = []"
    by (auto simp: empty_world_def msgs_in_def empty_broker_def)
  from run_build_context [OF r(1) w'(1) ds, of wid] r(3) w' have w: "wf_broker (w_broker w)" "bound (w_broker w) Q_DLQ"
    "\<forall>l \<in> set live_queues. bound (w_broker w) l \<and> (\<forall>d \<in> set ds. bound (w_broker w) (retry_q_name l d))"
    "\<And>q. msgs_in (w_broker w) q = []" "w_db w = empty_db" "w_minio w = ensure_bucket (w_minio w')"
    by auto
  show "topo_ok st (w_broker w)" using w(1-3) ds(1) by (auto simp: topo_ok_def)
  show "msgs_in (w_broker w) q = []" "w_db w = empty_db" "BUCKET \<in> set (buckets (w_minio w))"
    using w(4-6) by (simp_all add: ensure_bucket_def)
qed

lemma booted_exists:
  assumes "delays_ok st"
  shows "\<exists>w. booted st w"
proof -
  from assms obtain ds where ds: "retry_delays st = Inr ds" "\<forall>d \<in> set ds. 0 \<le> d" by (auto simp: delays_ok_def)
  have calm: "i_fault calm = NoFault" by (simp add: calm_def)
  have "wf_broker (w_broker empty_world)" using wf_empty_broker by (simp add: empty_world_def)
  from run_gateway_startup [OF calm this] obtain w' where "run calm gateway_startup empty_world = (w', Done ())"
    "wf_broker (w_broker w')" by auto
  with run_build_context [OF calm _ ds, of w' "''w''"] calm show ?thesis unfolding booted_def by blast
qed

lemma booted_ok:
  assumes "booted st w" and "delays_ok st"
  shows "sys_ok st esc (sys_of w)"
proof -
  note b = booted_facts [OF assms]
  have e: "jobs (w_db w) = []" "tasks (w_db w) = []" "wf_db (w_db w)" by (simp_all add: b(3) empty_db_def wf_db_def)
  have "db_ok st w" using e by (simp add: db_ok_def Let_def task_ids_ok_def fan_in_ok_def)
  moreover have "gs_ok w [] {}" by (simp add: gs_ok_def e)
  ultimately have "choreo st w [] [] {}" using b(1,2) by (simp add: choreo_def driven_def e)
  then show ?thesis by (auto simp: sys_ok_def sys_of_def)
qed

lemma attended_carried:
  assumes "list_all2 (plays st esc) (s_procs s) H" and "n \<in> carried (w_broker (s_world s)) H"
  shows "attended s (duty_job n)"
proof -
  have body: "\<exists>ev. m_body m = model_dump_json ev \<and> job_id ev = duty_job n" if "has q m n" for q m
    using that duty_job_of by (auto simp: has_def)
  from assms(2) consider (queue) q m where "m \<in> set (msgs_in (w_broker (s_world s)) q)" "has q m n"
    | (hand) q m S where "(q, m, S) \<in> set H" "has q m n"
    by (auto simp: carried_def in_queues_def split: if_splits)
  then show ?thesis
  proof cases
    case queue
    then show ?thesis using body by (auto simp: attended_def)
  next
    case hand
    then obtain p where "p \<in> set (s_procs s)" "p_msg p = m"
      using assms(1) by (auto simp: list_all2_conv_all_nth in_set_conv_nth plays_def) (metis Pair_inject nth_mem)
    then show ?thesis using body [OF hand(2)] by (auto simp: attended_def)
  qed
qed

lemma sys_ok_attended:
  assumes "sys_ok st esc s" and "get_job (w_db (s_world s)) jid = Some j"
  shows "j_status j \<in> {PENDING, COMPLETED, FAILED} \<or> attended s jid"
proof (rule disjCI)
  assume none: "\<not> attended s jid"
  from assms(1) obtain H G where H: "list_all2 (plays st esc) (s_procs s) H"
    and inv: "choreo st (s_world s) H G (s_drawn s)" by (auto simp: sys_ok_def)
  let ?d = "w_db (s_world s)"
  have "n \<notin> carried (w_broker (s_world s)) H" if "duty_job n = jid" for n
    using attended_carried [OF H, of n] none that by blast
  then have no: "NCreated jid \<notin> carried (w_broker (s_world s)) H" "NStitch jid \<notin> carried (w_broker (s_world s)) H"
    "\<And>x. NTts jid x \<notin> carried (w_broker (s_world s)) H" by simp_all
  have "driven_job (tasks ?d) (carried (w_broker (s_world s)) H) jid j" using inv assms(2) by (simp add: choreo_def driven_def)
  then have "driven_job (tasks ?d) {} jid j" by (rule driven_job_mono) (use no in simp_all)
  moreover have "fan_in_ok ?d" using inv db_ok_D(3) by (auto simp: choreo_def)
  ultimately show "j_status j \<in> {PENDING, COMPLETED, FAILED}" using driven_job_none assms(2) by blast
qed



section \<open>A run\<close>

text \<open>The steps of a program under a list of inputs, with no other step in between.\<close>

inductive does :: "inp list \<Rightarrow> 'a action \<Rightarrow> world \<Rightarrow> 'a action \<Rightarrow> world \<Rightarrow> bool" where
  stop: "does [] p w p w"
| more: "f i w = Some (w1, p1) \<Longrightarrow> does ins p1 w1 p' w' \<Longrightarrow> does (i # ins) (Step f) w p' w'"

lemma does_pbind: "does ins p w p' w' \<Longrightarrow> does ins (pbind p k) w (pbind p' k) w'"
  by (induction rule: does.induct) (auto intro: does.intros)

lemma does_ptry: "does ins p w p' w' \<Longrightarrow> does ins (ptry p) w (ptry p') w'"
  by (induction rule: does.induct) (auto intro: does.intros)

lemma does_trans: "does ins p w p1 w1 \<Longrightarrow> does js p1 w1 p' w' \<Longrightarrow> does (ins @ js) p w p' w'"
  by (induction rule: does.induct) (auto intro: does.intros)

lemma does_bind: "does ins p w (Ret a) w1 \<Longrightarrow> does js (k a) w1 p' w' \<Longrightarrow> does (ins @ js) (pbind p k) w p' w'"
  using does_trans [OF does_pbind] by fastforce

lemma does_next: "does [i] p w (Ret a) w1 \<Longrightarrow> does ins (k a) w1 p' w' \<Longrightarrow> does (i # ins) (pbind p k) w p' w'"
  using does_bind [of "[i]"] by fastforce

lemma does_pure: "does [i] (ask g) w (Ret (g i)) w" "does [i] pskip w (Ret ()) w"
  by (auto simp: ask_def pskip_def intro: does.intros)

lemma does_atomic:
  assumes "i_fault i = NoFault" and "f i w = (w', Inr a)"
  shows "does [i] (atomic f) w (Ret a) w'"
  unfolding atomic_def by (rule does.more [OF _ does.stop]) (simp add: assms plift_def)

lemma does_effects:
  assumes "i_fault i = NoFault"
  shows "t (w_db w) = (d, Inr a) \<Longrightarrow> does [i] (transaction t) w (Ret a) (w\<lparr>w_db := d\<rparr>)"
    and "rd (w_db w) = Inr a \<Longrightarrow> does [i] (read_db rd) w (Ret a) w"
    and "c (w_minio w) = Inr s \<Longrightarrow> does [i] (minio_put c) w (Ret ()) (w\<lparr>w_minio := s\<rparr>)"
    and "g (w_minio w) = Inr x \<Longrightarrow> does [i] (minio_get g) w (Ret x) w"
    and "does [i] (publish_event e q) w (Ret ()) (w\<lparr>w_broker := publish (w_broker w) (e (i_uuid i)) q\<rparr>)"
  unfolding transaction_def read_db_def minio_put_def minio_get_def publish_event_def broker_put_def
  by (rule does_atomic [OF assms], simp)+

text \<open>Such steps in a system in which nothing else runs.\<close>

lemma reach_task:
  assumes "does ins p w p' w'" and "sys_reach st esc P s0 \<lparr>s_world = w, s_procs = [], s_tasks = [p], s_drawn = D\<rparr>"
    and "distinct (map i_uuid ins)" and "set (map i_uuid ins) \<inter> D = {}" and "\<And>s. s_procs s = [] \<Longrightarrow> P s"
  shows "sys_reach st esc P s0 \<lparr>s_world = w', s_procs = [], s_tasks = [p'], s_drawn = set (map i_uuid ins) \<union> D\<rparr>"
  using assms(1-4)
proof (induction arbitrary: D rule: does.induct)
  case (more f i w w1 p1 ins p' w')
  let ?s = "\<lparr>s_world = w, s_procs = [], s_tasks = [Step f], s_drawn = D\<rparr>"
  have "sys_step st esc ?s (?s\<lparr>s_world := w1, s_tasks := (s_tasks ?s)[0 := p1], s_drawn := insert (i_uuid i) (s_drawn ?s)\<rparr>)"
    using more.hyps(1) more.prems(3) by (intro sys_step.task [where f = f]) auto
  then have "sys_reach st esc P s0 \<lparr>s_world = w1, s_procs = [], s_tasks = [p1], s_drawn = insert (i_uuid i) D\<rparr>"
    using sys_reach.step [OF more.prems(1)] assms(5) by simp
  from more.IH [OF this] more.prems(2,3) show ?case by (simp add: Un_insert_right)
qed simp

lemma reach_handler:
  assumes "does ins p w p' w'"
    and "sys_reach st esc P s0 \<lparr>s_world = w, s_procs = [\<lparr>p_worker = wid, p_queue = q, p_msg = m, p_prog = p\<rparr>], s_tasks = [], s_drawn = D\<rparr>"
    and "distinct (map i_uuid ins)" and "set (map i_uuid ins) \<inter> D = {}"
    and "\<And>s x. s_procs s = [\<lparr>p_worker = wid, p_queue = q, p_msg = m, p_prog = x\<rparr>] \<Longrightarrow> P s"
  shows "sys_reach st esc P s0 \<lparr>s_world = w', s_procs = [\<lparr>p_worker = wid, p_queue = q, p_msg = m, p_prog = p'\<rparr>], s_tasks = [],
    s_drawn = set (map i_uuid ins) \<union> D\<rparr>"
  using assms(1-4)
proof (induction arbitrary: D rule: does.induct)
  case (more f i w w1 p1 ins p' w')
  let ?s = "\<lparr>s_world = w, s_procs = [\<lparr>p_worker = wid, p_queue = q, p_msg = m, p_prog = Step f\<rparr>], s_tasks = [], s_drawn = D\<rparr>"
  have "sys_step st esc ?s (?s\<lparr>s_world := w1, s_procs := (s_procs ?s)[0 := (s_procs ?s ! 0)\<lparr>p_prog := p1\<rparr>],
      s_drawn := insert (i_uuid i) (s_drawn ?s)\<rparr>)"
    using more.hyps(1) more.prems(3) by (intro sys_step.handler [where f = f]) auto
  then have "sys_reach st esc P s0 \<lparr>s_world = w1, s_procs = [\<lparr>p_worker = wid, p_queue = q, p_msg = m, p_prog = p1\<rparr>], s_tasks = [],
      s_drawn = insert (i_uuid i) D\<rparr>"
    using sys_reach.step [OF more.prems(1)] assms(5) by simp
  from more.IH [OF this] more.prems(2,3) show ?case by (simp add: Un_insert_right)
qed simp

definition nth_inp :: "nat \<Rightarrow> inp" where
  "nth_inp n = calm\<lparr>i_uuid := replicate n CHR ''u''\<rparr>"

lemma nth_inp_simps [simp]: "i_fault (nth_inp n) = NoFault" "i_draw (nth_inp n) = 1" "i_uuid (nth_inp n) = replicate n CHR ''u''"
  by (simp_all add: nth_inp_def calm_def)

definition one_line :: request where
  "one_line = \<lparr>rq_route = PostJobs \<lparr>manuscript = [97], req_callback_url = None\<rparr>, content_length = None\<rparr>"

lemma does_parse:
  assumes "\<forall>i \<in> {a, b, c, e, f}. i_fault i = NoFault" and "get_job (w_db w) (job_id ev) = Some j"
    and "get_text (w_minio w) (manuscript_key j) = Inr ms"
    and "simulate_parse ms (PARSE_FAILURE_RATE (settings ctx)) (i_draw e) = Inr bs"
    and "parse_transaction (job_id ev) (capped (MAX_BLOCKS (settings ctx)) bs) (w_db w) = (d, Inr won)"
  shows "\<exists>p. does [a, b, c, e, f] (handle_parse ctx ev) w p (w\<lparr>w_db := d\<rparr>)"
proof -
  let ?k = "\<lambda>_. pbind (transaction (\<lambda>d. case advance_status d (job_id ev) GENERATING of (d', won) \<Rightarrow> (d', Inr won)))
      (\<lambda>_. fan_out (job_id ev) (length (capped (MAX_BLOCKS (settings ctx)) bs)))"
  have nf: "i_fault a = NoFault" "i_fault b = NoFault" "i_fault f = NoFault" using assms(1) by simp_all
  have key: "load_manuscript_key (job_id ev) (w_db w) = Inr (manuscript_key j)" using assms(2) by (simp add: load_manuscript_key_def)
  have "does [a, b, c, e, f] (handle_parse ctx ev) w (?k ()) (w\<lparr>w_db := d\<rparr>)"
    unfolding handle_parse_def Let_def
    by (rule does_next [OF does_effects(2) [OF nf(1)]], rule key,
        rule does_next [OF does_effects(4) [OF nf(2)]], rule assms(3),
        rule does_next [OF does_pure(2)], rule does_next [OF does_pure(1)],
        simp only: assms(4) plift_def sum.case pbind.simps,
        rule does_next [OF does_effects(1) [OF nf(3)]], rule assms(5), rule does.stop)
  then show ?thesis by blast
qed

text \<open>A request is accepted.\<close>

lemma accept_run:
  assumes "booted default_settings w"
  obtains s d where "put_text (w_minio w) (manuscript_key_of ''u'') [97] = Inr s"
    "insert_job empty_db ''u'' (manuscript_key_of ''u'') None = Inr d"
    "sys_reach default_settings esc no_block_given_up (sys_of w)
      \<lparr>s_world = w\<lparr>w_minio := s, w_db := d, w_broker := publish (w_broker w) (JobCreated (replicate 4 CHR ''u'') ''u'') Q_PARSE\<rparr>,
       s_procs = [], s_tasks = [], s_drawn = (\<lambda>n. replicate n CHR ''u'') ` {1, 2, 3, 4}\<rparr>"
proof -
  let ?st = default_settings and ?m = "manuscript_key_of ''u''"
  have ds: "delays_ok ?st" by (simp add: delays_ok_def default_retry_delays)
  note b = booted_facts [OF assms ds]
  obtain s where s: "put_text (w_minio w) ?m [97] = Inr s"
    using b(4) by (simp add: put_text_def put_bytes_def utf8_encode_def scalar_def)
  obtain d where d: "insert_job empty_db ''u'' ?m None = Inr d" by (simp add: insert_job_def empty_db_def)
  let ?w1 = "w\<lparr>w_minio := s, w_db := d, w_broker := publish (w_broker w) (JobCreated (replicate 4 CHR ''u'') ''u'') Q_PARSE\<rparr>"
  have body: "does [nth_inp 1, nth_inp 2, nth_inp 3, nth_inp 4] (create_job \<lparr>manuscript = [97], req_callback_url = None\<rparr>) w
      (Ret (JobAccepted ''u'')) ?w1"
    unfolding create_job_def
    by (rule does_next [OF does_pure(1)], rule does_next [OF does_effects(3)], simp, simp add: s,
        rule does_next [OF does_effects(1)], simp, simp add: b(3) d,
        rule does_next [OF does_effects(5)], simp, simp add: does.stop)
  have "does [nth_inp 1, nth_inp 2, nth_inp 3, nth_inp 4]
      (pbind (pbind (ptry (create_job \<lparr>manuscript = [97], req_callback_url = None\<rparr>)) k) h) w
      (pbind (pbind (ptry (Ret (JobAccepted ''u''))) k) h) ?w1"
    for k :: "response res \<Rightarrow> response action" and h :: "response \<Rightarrow> unit action"
    by (intro does_pbind does_ptry) (rule body)
  from this [of "case_sum (\<lambda>_. Ret (unhandled one_line)) Ret" "\<lambda>_. Ret ()"]
  have create: "does [nth_inp 1, nth_inp 2, nth_inp 3, nth_inp 4] (pbind (serve ?st one_line) (\<lambda>_. Ret ())) w (Ret ()) ?w1"
    by (simp add: serve_def pcatch_def one_line_def guard_manuscript_size_def)
  let ?reach = "sys_reach ?st esc no_block_given_up (sys_of w)"
  have idle: "no_block_given_up s" if "s_procs s = []" for s using that by (simp add: no_block_given_up_def)
  have "?reach (sys_of w)" by (rule sys_reach.init) (simp add: idle sys_of_def)
  then have "?reach ((sys_of w)\<lparr>s_tasks := s_tasks (sys_of w) @ [pbind (serve ?st one_line) (\<lambda>_. Ret ())]\<rparr>)"
    by (rule sys_reach.step [OF _ sys_step.start]) (simp_all add: background.request idle sys_of_def)
  then have s0: "?reach \<lparr>s_world = w, s_procs = [], s_tasks = [pbind (serve ?st one_line) (\<lambda>_. Ret ())], s_drawn = {}\<rparr>"
    by (simp add: sys_of_def)
  let ?s1 = "\<lparr>s_world = ?w1, s_procs = [], s_tasks = [Ret ()], s_drawn = (\<lambda>n. replicate n CHR ''u'') ` {1, 2, 3, 4}\<rparr>"
  from reach_task [OF create s0 _ _ idle] have "?reach ?s1" by (simp add: numeral_eq_Suc)
  from sys_reach.step [OF this sys_step.stop [where k = 0]]
  have "?reach (?s1\<lparr>s_tasks := []\<rparr>)" by (simp add: remove_nth_def idle)
  with that [OF s d] show ?thesis by simp
qed

text \<open>The parse handler works until its rows are committed.\<close>

lemma parse_prefix:
  assumes "get_job (w_db w) ''u'' = Some j" and "j_status j = PENDING" and "manuscript_key j = manuscript_key_of ''u''"
    and "tasks (w_db w) = []" and "get_text (w_minio w) (manuscript_key_of ''u'') = Inr [97]"
    and "m_body m = model_dump_json (JobCreated e ''u'')"
  shows "\<exists>p d j'. does [nth_inp 5, nth_inp 6, nth_inp 7, nth_inp 8, nth_inp 9, nth_inp 10]
      (make_parse_handler (context_of default_settings ''w'') m) w p (w\<lparr>w_db := d\<rparr>)
    \<and> get_job d ''u'' = Some j' \<and> j_status j' = PARSING"
proof -
  let ?st = default_settings and ?ctx = "context_of default_settings ''w''" and ?d = "w_db w"
  let ?bl = "capped (MAX_BLOCKS ?st) (split_blocks [97])"
  have "\<not> contains POISON_MARKER [97]" by code_simp
  then have sim: "simulate_parse [97] (PARSE_FAILURE_RATE ?st) 1 = Inr (split_blocks [97])"
    by (simp add: simulate_parse_def default_settings_def)
  have tx: "parse_transaction ''u'' ?bl ?d = (fst (begin_parse (?d\<lparr>tasks := missing_rows ?d (rows_of (db_now ?d) ''u'' ?bl)\<rparr>) ''u'' (int (length ?bl))),
      Inr (snd (begin_parse (?d\<lparr>tasks := missing_rows ?d (rows_of (db_now ?d) ''u'' ?bl)\<rparr>) ''u'' (int (length ?bl)))))"
    (is "_ = (fst ?bp, _)")
  proof -
    have "list_all scalar x" if "x \<in> set ?bl" for x
      using that capped_prefix(3) [where xs = "split_blocks [97]"] split_blocks_scalar [of "[97]" x] by (auto simp: scalar_def)
    moreover have "task_ids_ok ?d" using assms(4) by (simp add: task_ids_ok_def)
    ultimately show ?thesis using parse_transaction_eq [OF _ assms(1)] assms(4) by (simp add: Let_def)
  qed
  have "\<exists>p. does [nth_inp 6, nth_inp 7, nth_inp 8, nth_inp 9, nth_inp 10] (handle_parse ?ctx (JobCreated e ''u''))
      w p (w\<lparr>w_db := fst ?bp\<rparr>)"
    by (rule does_parse [where j = j and ms = "[97]" and bs = "split_blocks [97]"])
       (use assms sim tx in \<open>simp_all add: context_of_def\<close>)
  then obtain p where "does [nth_inp 6, nth_inp 7, nth_inp 8, nth_inp 9, nth_inp 10] (handle_parse ?ctx (JobCreated e ''u''))
      w p (w\<lparr>w_db := fst ?bp\<rparr>)" by blast
  then have "does [nth_inp 5, nth_inp 6, nth_inp 7, nth_inp 8, nth_inp 9, nth_inp 10]
      (pbind (ask i_uuid) (\<lambda>u. pbind (plift (validate_JobCreated u (m_body m))) (handle_parse ?ctx))) w p (w\<lparr>w_db := fst ?bp\<rparr>)"
    using assms(6) by (intro does_next [OF does_pure(1)]) (simp add: plift_def)
  from does_pbind [OF does_ptry [OF this]]
  have "\<exists>p. does [nth_inp 5, nth_inp 6, nth_inp 7, nth_inp 8, nth_inp 9, nth_inp 10] (make_parse_handler ?ctx m) w p (w\<lparr>w_db := fst ?bp\<rparr>)"
    unfolding make_parse_handler_def ack_last_def by blast
  moreover have "get_job (fst ?bp) ''u'' = Some (j\<lparr>j_status := PARSING, pending_count := int (length ?bl), j_updated_at := db_now ?d\<rparr>)"
    using begin_parse_job [where jid = "''u''" and i = "''u''"] assms(1,2) by simp
  ultimately show ?thesis by fastforce
qed

lemma parse_run:
  assumes "booted default_settings w"
  shows "\<exists>s j. sys_reach default_settings esc no_block_given_up (sys_of w) s
    \<and> get_job (w_db (s_world s)) ''u'' = Some j \<and> j_status j = PARSING
    \<and> get_text (w_minio (s_world s)) (manuscript_key_of ''u'') = Inr [97]
    \<and> msgs_in (w_broker (s_world s)) Q_DLQ = [] \<and> (\<forall>p \<in> set (s_procs s). p_queue p = Q_PARSE)"
proof -
  let ?st = default_settings and ?ctx = "context_of default_settings ''w''"
  let ?reach = "sys_reach ?st esc no_block_given_up (sys_of w)" and ?msg = "event_msg (JobCreated (replicate 4 CHR ''u'') ''u'')"
  have ds: "delays_ok ?st" by (simp add: delays_ok_def default_retry_delays)
  note b = booted_facts [OF assms ds]
  from accept_run [OF assms, of esc] obtain s d where s: "put_text (w_minio w) (manuscript_key_of ''u'') [97] = Inr s"
    and d: "insert_job empty_db ''u'' (manuscript_key_of ''u'') None = Inr d"
    and s2: "?reach \<lparr>s_world = w\<lparr>w_minio := s, w_db := d, w_broker := publish (w_broker w) (JobCreated (replicate 4 CHR ''u'') ''u'') Q_PARSE\<rparr>,
       s_procs = [], s_tasks = [], s_drawn = (\<lambda>n. replicate n CHR ''u'') ` {1, 2, 3, 4}\<rparr>" (is "?reach \<lparr>s_world = ?w1, s_procs = _, s_tasks = _, s_drawn = ?D\<rparr>") .
  obtain j where j: "get_job d ''u'' = Some j" "j_status j = PENDING" "manuscript_key j = manuscript_key_of ''u''" "tasks d = []"
    using d by (auto simp: insert_job_def empty_db_def row_get_def)
  have bp: "wf_broker (w_broker w)" "bound (w_broker w) Q_PARSE" using topo_ok_live [OF b(1)] by simp_all
  have "msgs_in (w_broker ?w1) Q_PARSE = ?msg # []" "wf_broker (w_broker ?w1)"
    using bp b(2) by (simp_all add: publish_eq amqp.contents_put amqp.wf_put)
  then obtain b' where b': "take_msg Q_PARSE (w_broker ?w1) = Some (?msg, b')"
    and others: "msgs_in b' k = (if k = Q_PARSE then [] else msgs_in (w_broker ?w1) k)" for k using take_msg_ok by metis
  have none: "msgs_in b' Q_DLQ = []"
    using others [of Q_DLQ] bp b(2) by (simp add: publish_eq amqp.contents_put)
  let ?w2 = "?w1\<lparr>w_broker := b'\<rparr>" and ?p = "\<lambda>p. \<lparr>p_worker = ''w'', p_queue = Q_PARSE, p_msg = ?msg, p_prog = p\<rparr>"
  have parse: "no_block_given_up s" if "s_procs s = [?p x]" for s x using that by (simp add: no_block_given_up_def)
  have "map_of (all_handlers ?ctx) Q_PARSE = Some (make_parse_handler ?ctx)" by simp
  from sys_reach.step [OF s2 sys_step.deliver [OF _ this, where m = ?msg and b = b']] b'
  have s3: "?reach \<lparr>s_world = ?w2, s_procs = [?p (make_parse_handler ?ctx ?msg)], s_tasks = [], s_drawn = ?D\<rparr>" by (simp add: parse)
  from parse_prefix [of ?w2 j ?msg "replicate 4 CHR ''u''"] j get_text_put_text [OF s] obtain p d' j' where
    p: "does [nth_inp 5, nth_inp 6, nth_inp 7, nth_inp 8, nth_inp 9, nth_inp 10] (make_parse_handler ?ctx ?msg) ?w2 p (?w2\<lparr>w_db := d'\<rparr>)"
    "get_job d' ''u'' = Some j'" "j_status j' = PARSING" by (auto simp: event_msg_def)
  from reach_handler [OF p(1) s3 _ _ parse] obtain s' where s': "?reach s'" "s_world s' = ?w2\<lparr>w_db := d'\<rparr>"
    "\<forall>p \<in> set (s_procs s'). p_queue p = Q_PARSE"
    by (fastforce simp: numeral_eq_Suc)
  then show ?thesis using p(2,3) none get_text_put_text [OF s] by (intro exI [of _ s'] exI [of _ j']) simp
qed



end
