(* ===== verification/Bounds.thy ===== *)
theory Bounds
  imports Liveness
begin

text \<open>
  How long a delivery can take. \<open>ends_in Q A p n\<close> says that \<open>p\<close> takes at most \<open>n\<close> steps, whatever the
  others do in between (as long as the world satisfies \<open>Q\<close> when \<open>p\<close> takes a step) and whatever fails,
  and that its value satisfies \<open>A\<close>; the rules follow the combinators of \<open>Prog\<close>. The bound of a handler
  is a bound on every partial execution of it (\<open>taken\<close>).
\<close>

section \<open>Bounded programs\<close>

primrec ends_in :: "('w \<Rightarrow> bool) \<Rightarrow> ('a \<Rightarrow> bool) \<Rightarrow> ('i, 'w, 'a) prog \<Rightarrow> nat \<Rightarrow> bool" where
  "ends_in Q A (Ret a) = (\<lambda>n. A a)"
| "ends_in Q A (Raise e) = (\<lambda>n. True)"
| "ends_in Q A (Step f) = (\<lambda>n. 0 < n \<and>
    (\<forall>i w. Q w \<longrightarrow> pred_option (\<lambda>(w', ok). ok (n - 1)) (map_option (map_prod id (ends_in Q A)) (f i w))))"

lemma ends_in_Step:
  "ends_in Q A (Step f) n \<longleftrightarrow>
    0 < n \<and> (\<forall>i w w' p. Q w \<longrightarrow> f i w = Some (w', p) \<longrightarrow> ends_in Q A p (n - 1))"
  by (fastforce simp: option.pred_map pred_option_def)

declare ends_in.simps(3) [simp del]

lemma ends_in_weaken:
  assumes "ends_in Q A p m" and "m \<le> n" and "\<And>a. A a \<Longrightarrow> B a"
  shows "ends_in Q B p n"
  using assms(1,2)
proof (induction p arbitrary: m n)
  case (Step f)
  show ?case
    unfolding ends_in_Step
  proof (intro conjI allI impI)
    show "0 < n" using Step.prems by (auto simp: ends_in_Step)
    fix i w w' p
    assume "Q w" "f i w = Some (w', p)"
    then show "ends_in Q B p (n - 1)"
      using Step.prems Step.IH [of "f i" "f i w" "(w', p)" p "m - 1" "n - 1"] rangeI [of "f i" w]
      by (simp add: ends_in_Step)
  qed
qed (use assms(3) in auto)

lemma ends_in_pbind:
  assumes "ends_in Q A p m" and "\<And>a. A a \<Longrightarrow> ends_in Q B (k a) n"
  shows "ends_in Q B (pbind p k) (m + n)"
  using assms(1)
proof (induction p arbitrary: m)
  case (Ret a)
  then show ?case using assms(2) ends_in_weaken [of Q B "k a" n "m + n" B] by simp
next
  case (Step f)
  show ?case
    unfolding pbind.simps ends_in_Step
  proof (intro conjI allI impI)
    show "0 < m + n" using Step.prems by (simp add: ends_in_Step)
    fix i w w' p
    assume Q: "Q w" and "map_option (map_prod id (\<lambda>p. pbind p k)) (f i w) = Some (w', p)"
    then obtain q where q: "f i w = Some (w', q)" "p = pbind q k" by auto
    have "0 < m" "ends_in Q A q (m - 1)" using Step.prems Q q(1) by (auto simp: ends_in_Step)
    then show "ends_in Q B p (m + n - 1)"
      using q Step.IH [of "f i" "f i w" "(w', q)" q "m - 1"] rangeI [of "f i" w] by simp
  qed
qed simp

lemma ends_in_ptry:
  assumes "ends_in Q A p n"
  shows "ends_in Q (\<lambda>r. case r of Inl e \<Rightarrow> True | Inr a \<Rightarrow> A a) (ptry p) n"
  using assms
proof (induction p arbitrary: n)
  case (Step f)
  show ?case
    unfolding ptry.simps ends_in_Step
  proof (intro conjI allI impI)
    show "0 < n" using Step.prems by (simp add: ends_in_Step)
    fix i w w' p
    assume Q: "Q w" and "map_option (map_prod id ptry) (f i w) = Some (w', p)"
    then obtain q where q: "f i w = Some (w', q)" "p = ptry q" by auto
    have "ends_in Q A q (n - 1)" using Step.prems Q q(1) by (auto simp: ends_in_Step)
    then show "ends_in Q (\<lambda>r. case r of Inl e \<Rightarrow> True | Inr a \<Rightarrow> A a) p (n - 1)"
      using q Step.IH [of "f i" "f i w" "(w', q)" q "n - 1"] rangeI [of "f i" w] by simp
  qed
qed simp_all

lemma ends_in_plift: "(\<And>a. r = Inr a \<Longrightarrow> A a) \<Longrightarrow> ends_in Q A (plift r) n"
  by (cases r) (simp_all add: plift_def)

lemma ends_in_pfinally:
  assumes "ends_in Q A p m" and "ends_in Q (\<lambda>_. True) q n"
  shows "ends_in Q A (pfinally p q) (m + n)"
proof -
  have "ends_in Q A (pbind q (\<lambda>_. plift r)) (n + 0)" if "case r of Inl e \<Rightarrow> True | Inr a \<Rightarrow> A a" for r
    using that by (intro ends_in_pbind [OF assms(2)] ends_in_plift) simp
  then show ?thesis unfolding pfinally_def by (intro ends_in_pbind [OF ends_in_ptry [OF assms(1)]]) simp
qed

lemma ends_in_pfor:
  assumes "\<And>x. x \<in> set xs \<Longrightarrow> ends_in Q (\<lambda>_. True) (body x) 1"
  shows "ends_in Q (\<lambda>_. True) (pfor xs body) (length xs)"
  using assms
proof (induction xs)
  case (Cons x xs)
  then have "ends_in Q (\<lambda>_. True) (pfor (x # xs) body) (1 + length xs)"
    unfolding pfor.simps by (intro ends_in_pbind [where A = "\<lambda>_. True"]) simp_all
  then show ?case by simp
qed simp

lemma ends_in_pmap:
  assumes "\<And>x. x \<in> set xs \<Longrightarrow> ends_in Q (\<lambda>_. True) (body x) 1"
  shows "ends_in Q (\<lambda>_. True) (pmap xs body) (length xs)"
  using assms
proof (induction xs)
  case (Cons x xs)
  have "ends_in Q (\<lambda>_. True) (pbind (pmap xs body) (\<lambda>ys. Ret (y # ys))) (length xs + 0)" for y
    by (rule ends_in_pbind [where A = "\<lambda>_. True"]) (use Cons in simp_all)
  then have "ends_in Q (\<lambda>_. True) (pmap (x # xs) body) (1 + length xs)"
    using Cons.prems unfolding pmap.simps by (intro ends_in_pbind [where A = "\<lambda>_. True"]) simp_all
  then show ?case by simp
qed simp

lemma ends_in_if: "(b \<Longrightarrow> ends_in Q A p n) \<Longrightarrow> (\<not> b \<Longrightarrow> ends_in Q A q n) \<Longrightarrow> ends_in Q A (if b then p else q) n"
  by simp

text \<open>Every adapter call is one step.\<close>

lemma ends_in_atomic:
  assumes "\<And>i w a. Q w \<Longrightarrow> snd (f i w) = Inr a \<Longrightarrow> A a"
  shows "ends_in Q A (atomic f) 1"
  unfolding atomic_def ends_in_Step
proof (intro conjI allI impI)
  fix i w w' and p :: "'a action"
  assume "Q w" "Some (case i_fault i of
        NoFault \<Rightarrow> (fst (f i w), plift (snd (f i w)))
      | FaultBefore \<Rightarrow> (w, Raise InfraError)
      | FaultAfter \<Rightarrow> (fst (f i w), Raise InfraError)) = Some (w', p)"
  then show "ends_in Q A p (1 - 1)" using assms by (cases "i_fault i") (auto intro: ends_in_plift)
qed simp

lemma ends_in_adapters:
  "ends_in Q (\<lambda>_. True) (transaction t) 1" "ends_in Q (\<lambda>_. True) (read_db q) 1"
  "ends_in Q (\<lambda>_. True) (redis_cmd c) 1" "ends_in Q (\<lambda>_. True) (minio_get g) 1"
  "ends_in Q (\<lambda>_. True) (minio_put p) 1" "ends_in Q (\<lambda>_. True) (broker_put b) 1"
  "ends_in Q (\<lambda>_. True) (publish_event e key) 1" "ends_in Q (\<lambda>_. True) (ask x) 1"
  "ends_in Q (\<lambda>_. True) pskip 1" "ends_in Q (\<lambda>_. True) (local_step l) 1"
  "ends_in Q (\<lambda>_. True) (stop_heartbeat ctx token) 1" "ends_in Q (\<lambda>_. True) (post_webhook url jid fk) 1"
  unfolding transaction_def read_db_def redis_cmd_def minio_get_def minio_put_def broker_put_def publish_event_def
  by (rule ends_in_atomic, simp)+ (simp_all add: ends_in_Step ask_def pskip_def local_step_def stop_heartbeat_def post_webhook_def)

lemma ends_in_blocking: "ends_in Q (\<lambda>_. True) (blocking f) 1"
  by (auto simp: ends_in_Step blocking_def split: fault.splits)

lemmas ends_in_bind = ends_in_pbind [where A = "\<lambda>_. True"]

section \<open>The handlers\<close>

lemma ends_in_emit: "ends_in Q (\<lambda>_. True) (emit_stitch jid) 1"
  unfolding emit_stitch_def by (rule ends_in_adapters)

lemma ends_in_wait: "ends_in Q (\<lambda>_. True) (wait_for_cache ctx h n) (2 * n)"
proof (induction n)
  case (Suc n)
  have "ends_in Q (\<lambda>_. True) (wait_for_cache ctx h (Suc n)) (1 + (1 + 2 * n))"
    unfolding wait_for_cache.simps do_cache_get_def
    by (rule ends_in_bind [OF ends_in_adapters(3)])
       (auto intro!: ends_in_bind [OF ends_in_adapters(9), of _ _ _ "2 * n", simplified] Suc.IH split: option.split)
  then show ?case by simp
qed simp

lemma ends_in_acquire: "ends_in Q (\<lambda>_. True) (sem_acquire ctx owner) 3"
proof -
  have "ends_in Q (\<lambda>_. True) (sem_acquire ctx owner) (1 + (1 + (1 + 0)))"
    unfolding sem_acquire_def by (intro ends_in_bind ends_in_blocking ends_in_adapters) simp
  then show ?thesis by (simp add: numeral_3_eq_3)
qed

lemma ends_in_release: "ends_in Q (\<lambda>_. True) (sem_release ctx token) 3"
proof -
  have "ends_in Q (\<lambda>_. True) (sem_release ctx token) (1 + (1 + 1))"
    unfolding sem_release_def by (intro ends_in_bind ends_in_adapters)
  then show ?thesis by (simp add: numeral_3_eq_3)
qed

lemma ends_in_slot:
  assumes "ends_in Q (\<lambda>_. True) p n"
  shows "ends_in Q (\<lambda>_. True) (slot ctx owner p) (3 + (n + 3))"
  unfolding slot_def by (intro ends_in_bind ends_in_acquire ends_in_pfinally ends_in_release assms)

lemma ends_in_generate: "ends_in Q (\<lambda>_. True) (generate key block) (1 + (0 + 1))"
  unfolding generate_def by (intro ends_in_bind ends_in_adapters ends_in_plift) simp

lemma ends_in_synthesize: "ends_in Q (\<lambda>_. True) (synthesize ctx h key block owner) 201"
proof -
  have "ends_in Q (\<lambda>_. True)
     (pbind (pfinally
            (pbind (slot ctx owner (generate key block)) (\<lambda>_.
              redis_cmd (\<lambda>r. (cache_set (cache ctx) h key r, ()))))
            (redis_cmd (\<lambda>r. (release_inflight (cache ctx) h r, ()))))
          (\<lambda>_. Ret key)) (((3 + ((1 + (0 + 1)) + 3)) + 1) + 1 + 0)"
    by (intro ends_in_bind ends_in_pfinally ends_in_slot ends_in_generate ends_in_adapters) simp
  then have won: "ends_in Q (\<lambda>_. True)
     (pbind (pfinally
            (pbind (slot ctx owner (generate key block)) (\<lambda>_.
              redis_cmd (\<lambda>r. (cache_set (cache ctx) h key r, ()))))
            (redis_cmd (\<lambda>r. (release_inflight (cache ctx) h r, ()))))
          (\<lambda>_. Ret key)) 200"
    by (rule ends_in_weaken) simp_all
  have "ends_in Q (\<lambda>_. True) (pbind (wait_for_cache ctx h WAIT_ATTEMPTS) (\<lambda>waited.
          case waited of None \<Rightarrow> Raise TransientError | Some k \<Rightarrow> Ret k)) (2 * WAIT_ATTEMPTS + 0)"
    by (rule ends_in_bind [OF ends_in_wait]) (simp split: option.split)
  then have lost: "ends_in Q (\<lambda>_. True) (pbind (wait_for_cache ctx h WAIT_ATTEMPTS) (\<lambda>waited.
          case waited of None \<Rightarrow> Raise TransientError | Some k \<Rightarrow> Ret k)) 200"
    by (simp add: WAIT_ATTEMPTS_def)
  have "ends_in Q (\<lambda>_. True) (synthesize ctx h key block owner) (1 + 200)"
    unfolding synthesize_def by (rule ends_in_bind [OF ends_in_adapters(3)]) (simp add: won lost)
  then show ?thesis by simp
qed

lemma ends_in_ack_last:
  assumes "ends_in Q (\<lambda>_. True) (do_work m) n"
  shows "ends_in Q (\<lambda>_. True) (ack_last ctx q do_work m) (n + 1)"
  unfolding ack_last_def
proof (rule ends_in_bind)
  show "ends_in Q (\<lambda>_. True) (ptry (do_work m)) n"
    by (rule ends_in_weaken [OF ends_in_ptry [OF assms]]) simp_all
  have "ends_in Q (\<lambda>_. True) (pbind (route_failed ctx q m e) (\<lambda>_. Ret Acked)) ((0 + 1) + 0)" for e
    unfolding route_failed_def by (intro ends_in_bind ends_in_adapters ends_in_plift) simp_all
  then show "ends_in Q (\<lambda>_. True)
      (case r of Inl exc \<Rightarrow> pbind (route_failed ctx q m exc) (\<lambda>_. Ret Acked) | Inr _ \<Rightarrow> Ret Acked) 1" for r
    by (simp split: sum.split)
qed

lemma ends_in_tts: "ends_in Q (\<lambda>_. True) (make_tts_handler ctx m) 209"
proof -
  have load: "ends_in Q (\<lambda>_. True) (load_block_text ctx jid tid) (1 + (1 + 0))" for jid tid
    unfolding load_block_text_def
    by (rule ends_in_bind [OF ends_in_adapters(2)])
       (auto intro!: ends_in_bind [OF ends_in_adapters(4), of _ _ _ 0, simplified] simp: Let_def split: prod.split)
  have after: "ends_in Q (\<lambda>_. True) (after_decrement jid r) 2" for jid r
  proof -
    have "ends_in Q (\<lambda>_. True) (pbind (read_db (\<lambda>d. Inr (get_job d jid))) (\<lambda>job.
         case job of
           Some j \<Rightarrow> if pending_count j = 0 then emit_stitch jid else Ret ()
         | None \<Rightarrow> Ret ())) (1 + 1)"
      by (rule ends_in_bind [OF ends_in_adapters(2)]) (simp add: ends_in_emit del: One_nat_def split: option.split)
    moreover have "ends_in Q (\<lambda>_. True) (emit_stitch jid) 2"
      by (rule ends_in_weaken [OF ends_in_emit]) simp_all
    ultimately show ?thesis by (simp add: after_decrement_def numeral_2_eq_2)
  qed
  have key: "ends_in Q (\<lambda>_. True) (case cached of Some k \<Rightarrow> Ret k | None \<Rightarrow> synthesize ctx h (audio_key_of h) block tid) 201"
    for cached h block tid
    by (simp add: ends_in_synthesize split: option.split)
  have "ends_in Q (\<lambda>_. True) (handle_tts ctx ev) ((1 + (1 + 0)) + (0 + (1 + (201 + (1 + 2)))))" for ev
    unfolding handle_tts_def Let_def do_cache_get_def
    by (intro ends_in_bind load key after ends_in_plift ends_in_adapters) simp
  then have "ends_in Q (\<lambda>_. True) (make_tts_handler ctx m) ((1 + (0 + ((1 + (1 + 0)) + (0 + (1 + (201 + (1 + 2))))))) + 1)"
    unfolding make_tts_handler_def by (intro ends_in_ack_last ends_in_bind ends_in_plift ends_in_adapters) simp_all
  then show ?thesis by (simp add: numeral_eq_Suc)
qed

lemma length_filter_mono: "(\<And>x. P x \<Longrightarrow> R x) \<Longrightarrow> length (filter P xs) \<le> length (filter R xs)"
  by (induction xs) (auto intro: le_SucI)

lemma length_capped: "0 \<le> k \<Longrightarrow> length (capped k xs) \<le> nat k"
  by (auto simp: capped_def py_take_def)

lemma ends_in_fan_out:
  assumes "n \<le> N"
  shows "ends_in Q (\<lambda>_. True) (fan_out jid n) (max 1 N)"
proof -
  have "ends_in Q (\<lambda>_. True) (pfor [0..<n] (\<lambda>i. publish_event (\<lambda>u. TtsRequested u jid (task_id_of jid i)) Q_TTS)) (length [0..<n])"
    by (intro ends_in_pfor ends_in_adapters)
  then have "ends_in Q (\<lambda>_. True) (pfor [0..<n] (\<lambda>i. publish_event (\<lambda>u. TtsRequested u jid (task_id_of jid i)) Q_TTS)) (max 1 N)"
    by (rule ends_in_weaken) (use assms in simp_all)
  moreover have "ends_in Q (\<lambda>_. True) (publish_event (\<lambda>u. StitchReady u jid) Q_STITCH) (max 1 N)"
    by (rule ends_in_weaken [OF ends_in_adapters(7)]) simp_all
  ultimately show ?thesis by (simp add: fan_out_def)
qed

lemma ends_in_parse:
  assumes "0 \<le> MAX_BLOCKS (settings ctx)"
  shows "ends_in Q (\<lambda>_. True) (make_parse_handler ctx m) (8 + max 1 (nat (MAX_BLOCKS (settings ctx))))"
proof -
  let ?N = "max 1 (nat (MAX_BLOCKS (settings ctx)))"
  have "ends_in Q (\<lambda>_. True) (handle_parse ctx ev) (1 + (1 + (1 + (1 + (0 + (1 + (1 + ?N)))))))" for ev
    unfolding handle_parse_def Let_def
    by (intro ends_in_bind ends_in_plift ends_in_adapters ends_in_fan_out length_capped assms) simp
  then have "ends_in Q (\<lambda>_. True) (make_parse_handler ctx m) ((1 + (0 + (1 + (1 + (1 + (1 + (0 + (1 + (1 + ?N))))))))) + 1)"
    unfolding make_parse_handler_def by (intro ends_in_ack_last ends_in_bind ends_in_plift ends_in_adapters) simp_all
  then show ?thesis by (rule ends_in_weaken) simp_all
qed

lemma ends_in_notify: "ends_in Q (\<lambda>_. True) (notify ctx jid) 3"
proof -
  have "ends_in Q (\<lambda>_. True)
      (pbind (ask (\<lambda>i. is_allowed (i_unidata i) (i_resolve i) cb al)) (\<lambda>answer.
                 pbind (plift answer) (\<lambda>allowed.
                 if allowed then post_webhook cb jid fk else Ret ()))) (1 + (0 + 1))" for cb al fk
    by (intro ends_in_bind ends_in_adapters ends_in_plift)
       (simp_all add: ends_in_adapters(12) del: One_nat_def)
  then have "ends_in Q (\<lambda>_. True) (notify ctx jid) (1 + (1 + (0 + 1)))"
    unfolding notify_def Let_def
    by (intro ends_in_bind [OF ends_in_adapters(2)]) (simp del: One_nat_def split: option.split)
  then show ?thesis by (rule ends_in_weaken) simp_all
qed

text \<open>Stitching reads one chunk for each row that is done: the bound needs one on their number.\<close>

definition few_chunks :: "nat \<Rightarrow> world \<Rightarrow> bool" where
  "few_chunks N w \<longleftrightarrow> (\<forall>jid. length (chunk_keys (w_db w) jid) \<le> N)"

lemma ends_in_chunks:
  "ends_in (few_chunks N) (\<lambda>keys. length keys \<le> N) (read_db (\<lambda>d. Inr (chunk_keys d jid))) 1"
  unfolding read_db_def transaction_def by (rule ends_in_atomic) (auto simp: few_chunks_def)

lemma ends_in_stitch: "ends_in (few_chunks N) (\<lambda>_. True) (make_stitch_handler ctx m) (10 + N)"
proof -
  have get: "ends_in (few_chunks N) (\<lambda>_. True) (pmap keys (\<lambda>key. minio_get (\<lambda>s. get_bytes s key))) N"
    if "length keys \<le> N" for keys
    by (rule ends_in_weaken [OF ends_in_pmap]) (use that ends_in_adapters in simp_all)
  have fin: "ends_in (few_chunks N) (\<lambda>_. True) (if won then notify ctx jid else Ret ()) 3" for won jid
    by (simp add: ends_in_notify)
  have rest: "ends_in (few_chunks N) (\<lambda>_. True)
      (pbind (read_db (\<lambda>d. Inr (chunk_keys d jid))) (\<lambda>keys.
       pbind (transaction (\<lambda>d. case advance_status d jid STITCHING of (d', won) \<Rightarrow> (d', Inr won))) (\<lambda>_.
       pbind (pmap keys (\<lambda>key. minio_get (\<lambda>s. get_bytes s key))) (\<lambda>parts.
       pbind (minio_put (\<lambda>s. put_bytes s (final_key_of jid) (concat parts) ''audio/mpeg'')) (\<lambda>_.
       pbind (transaction (\<lambda>d. case finalize_job d jid (final_key_of jid) of (d', won) \<Rightarrow> (d', Inr won))) (\<lambda>finalized.
       if finalized then notify ctx jid else Ret ())))))) (1 + (1 + (N + (1 + (1 + 3)))))" for jid
    by (rule ends_in_pbind [OF ends_in_chunks]) (intro ends_in_bind get fin ends_in_adapters)
  have "ends_in (few_chunks N) (\<lambda>_. True) (handle_stitch ctx ev) (1 + (1 + (1 + (N + (1 + (1 + 3))))))" for ev
    unfolding handle_stitch_def Let_def
    by (rule ends_in_bind [OF ends_in_adapters(2)]) (intro ends_in_if rest, simp)
  then have "ends_in (few_chunks N) (\<lambda>_. True) (make_stitch_handler ctx m) ((1 + (0 + (1 + (1 + (1 + (N + (1 + (1 + 3)))))))) + 1)"
    unfolding make_stitch_handler_def by (intro ends_in_ack_last ends_in_bind ends_in_plift ends_in_adapters) simp_all
  then show ?thesis by (rule ends_in_weaken) simp_all
qed

lemma ends_in_dlq: "ends_in Q (\<lambda>_. True) (make_dlq_handler ctx m) 2"
proof -
  have emit: "ends_in Q (\<lambda>_. True) (emit_stitch_for v) 1" for v
    by (cases v) (simp_all add: emit_stitch_for_def ends_in_emit del: One_nat_def)
  have "ends_in Q (\<lambda>_. True) (pbind (transaction (dlq_fail_task jobv taskv)) (\<lambda>remaining.
               if remaining = Some 0 then emit_stitch_for jobv else Ret ())) (1 + 1)" for jobv taskv
    by (rule ends_in_bind [OF ends_in_adapters(1)]) (simp add: emit del: One_nat_def)
  moreover have "ends_in Q (\<lambda>_. True) (pbind (transaction (dlq_fail_job jobv)) (\<lambda>_. Ret ())) (1 + 1)" for jobv
    by (rule ends_in_bind [OF ends_in_adapters(1)]) simp
  ultimately have "ends_in Q (\<lambda>_. True) (handle_dlq ctx m) (0 + (1 + 1))"
    unfolding handle_dlq_def
    by (intro ends_in_bind [OF ends_in_plift]) (simp_all del: One_nat_def split: option.split json.split)
  then have "ends_in Q (\<lambda>_. True) (make_dlq_handler ctx m) ((0 + (1 + 1)) + 0)"
    unfolding make_dlq_handler_def
    by (intro ends_in_pbind [OF ends_in_ptry]) (simp_all split: sum.split)
  then show ?thesis by (rule ends_in_weaken) simp_all
qed

section \<open>Executions of a delivery\<close>

text \<open>
  \<open>taken Q p n q\<close>: \<open>p\<close> has taken \<open>n\<close> steps and \<open>q\<close> is left, each step in a world that the others may have
  changed and that satisfies \<open>Q\<close>.
\<close>

inductive taken :: "('w \<Rightarrow> bool) \<Rightarrow> ('i, 'w, 'a) prog \<Rightarrow> nat \<Rightarrow> ('i, 'w, 'a) prog \<Rightarrow> bool" for Q where
  none: "taken Q p 0 p"
| more: "Q w \<Longrightarrow> f i w = Some (w', p) \<Longrightarrow> taken Q p n q \<Longrightarrow> taken Q (Step f) (Suc n) q"

lemma taken_ends_in:
  assumes "taken Q p n q" and "ends_in Q A p N"
  shows "n \<le> N"
  using assms
proof (induction arbitrary: N)
  case (more w f i w' p n q)
  then have "0 < N" "n \<le> N - 1" by (auto simp: ends_in_Step)
  then show ?case by simp
qed simp

definition step_limit :: "WorkerContext \<Rightarrow> nat \<Rightarrow> string \<Rightarrow> nat" where
  "step_limit ctx N q =
    (if q = Q_PARSE then 8 + max 1 (nat (MAX_BLOCKS (settings ctx)))
     else if q = Q_TTS then 9 + 2 * WAIT_ATTEMPTS
     else if q = Q_STITCH then 10 + N
     else 2)"

lemma ends_in_handler:
  assumes "map_of (all_handlers ctx) q = Some h" and "0 \<le> MAX_BLOCKS (settings ctx)"
  shows "ends_in (few_chunks N) (\<lambda>_. True) (h m) (step_limit ctx N q)"
  using assms(1) ends_in_parse [OF assms(2), of "few_chunks N" m] ends_in_tts [of "few_chunks N" ctx m]
    ends_in_stitch [of N ctx m] ends_in_dlq [of "few_chunks N" ctx m]
  by (auto simp: all_handlers_def build_handlers_def step_limit_def WAIT_ATTEMPTS_def split: if_splits)

text \<open>
  C10. No delivery runs away: whatever the other processes do between its steps and whatever fails,
  a delivery of q.parse takes at most \<open>8 + max(1, MAX_BLOCKS)\<close> steps (one publish per block), one of
  q.tts at most 209 (the 100 polls of \<open>wait_for_cache\<close> and their sleeps dominate), one of q.dlq at most
  2, and one of q.stitch at most \<open>10 + N\<close> while no job has more than \<open>N\<close> finished chunks. After that many
  steps the handler has returned or raised; before, it can only be held up by an empty slot pool.
\<close>

theorem delivery_bounded:
  assumes "map_of (all_handlers ctx) q = Some h" and "0 \<le> MAX_BLOCKS (settings ctx)"
    and "taken (few_chunks N) (h m) n p"
  shows "n \<le> step_limit ctx N q"
  using taken_ends_in [OF assms(3) ends_in_handler [OF assms(1,2)]] .


section \<open>Examples\<close>

theorem delivery_bounded_witness:
  "\<exists>p. taken (few_chunks 0) (make_dlq_handler example_context (event_msg (JobCreated ''e'' ''j''))) 1 p
    \<and> (1::nat) \<le> step_limit example_context 0 Q_DLQ"
proof -
  let ?h = "make_dlq_handler example_context"
  let ?w = "example_world\<lparr>w_db := empty_db\<rparr>"
  obtain f where f: "?h (event_msg (JobCreated ''e'' ''j'')) = Step f" "f calm ?w \<noteq> None"
    by (simp add: make_dlq_handler_def handle_dlq_def json_fields_def model_dump_json_def event_msg_def plift_def
        transaction_def atomic_def)
  then obtain w' p where p: "f calm ?w = Some (w', p)" by auto
  have "few_chunks 0 ?w"
    by (simp add: few_chunks_def chunk_keys_def done_tasks_def empty_db_def List.map_filter_def)
  then have "taken (few_chunks 0) (?h (event_msg (JobCreated ''e'' ''j''))) (Suc 0) p"
    unfolding f(1) by (rule taken.more [where f = f and i = calm, OF _ p taken.none])
  moreover have "map_of (all_handlers example_context) Q_DLQ = Some ?h"
    by (simp add: all_handlers_def build_handlers_def)
  moreover have "0 \<le> MAX_BLOCKS (settings example_context)" by (simp add: example_context_def default_settings_def)
  ultimately show ?thesis using delivery_bounded [of example_context Q_DLQ ?h 0] by auto
qed


end
