(* ===== verification/Logging.thy ===== *)
theory Logging
  imports Events
begin

text \<open>
  \<open>core/infra/logging.py\<close> on a model of the parts of \<open>logging\<close>, \<open>contextvars\<close> and \<open>asyncio\<close> that it
  uses: each asyncio task has its own context with the values of the two variables, a new task starts
  with a copy of its creator's context, and a record that a task logs goes through the filters and
  handlers of the root logger. The processes configure logging once at their start, the handlers of
  the worker and the routes of the gateway bind the identifiers of their delivery or request.
\<close>

section \<open>Context variables\<close>

text \<open>The values of \<open>_job_id_var\<close> and \<open>_task_id_var\<close> in one context, with their defaults.\<close>

record log_context =
  job_id_var :: string
  task_id_var :: string

definition default_context :: log_context where
  "default_context = \<lparr>job_id_var = '''', task_id_var = ''''\<rparr>"

definition bind_job_id :: "string \<Rightarrow> log_context \<Rightarrow> log_context" where
  "bind_job_id jid c = c\<lparr>job_id_var := jid\<rparr>"

definition bind_task_id :: "string \<Rightarrow> log_context \<Rightarrow> log_context" where
  "bind_task_id tid c = c\<lparr>task_id_var := tid\<rparr>"

definition current_job_id :: "log_context \<Rightarrow> string" where
  "current_job_id c = job_id_var c"

definition current_task_id :: "log_context \<Rightarrow> string" where
  "current_task_id c = task_id_var c"

section \<open>Records, filters and handlers\<close>

datatype level = DEBUG | INFO | WARNING | ERROR

fun level_no :: "level \<Rightarrow> nat" where
  "level_no DEBUG = 10"
| "level_no INFO = 20"
| "level_no WARNING = 30"
| "level_no ERROR = 40"

fun level_name :: "level \<Rightarrow> string" where
  "level_name DEBUG = ''DEBUG''"
| "level_name INFO = ''INFO''"
| "level_name WARNING = ''WARNING''"
| "level_name ERROR = ''ERROR''"

text \<open>
  A record with its merged message. The two attributes exist once a filter has set them, or when the
  caller passes them as \<open>extra\<close>; \<open>exc_text\<close> is the rendered traceback of \<open>log.exception\<close>.
\<close>

record log_record =
  r_level :: level
  r_name :: string
  r_message :: string
  r_job :: "string option"
  r_task :: "string option"
  r_exc :: "string option"

text \<open>\<open>_ContextFilter.filter\<close>: it runs in the context of the task that logs, and lets every record pass.\<close>

definition context_filter :: "log_context \<Rightarrow> log_record \<Rightarrow> log_record \<times> bool" where
  "context_filter c r = (r\<lparr>r_job := Some (job_id_var c), r_task := Some (task_id_var c)\<rparr>, True)"

datatype log_filter = CONTEXT_FILTER

fun apply_filter :: "log_filter \<Rightarrow> log_context \<Rightarrow> log_record \<Rightarrow> log_record \<times> bool" where
  "apply_filter CONTEXT_FILTER = context_filter"

text \<open>The filters of a logger or handler, one after the other while they accept.\<close>

fun apply_filters :: "log_filter list \<Rightarrow> log_context \<Rightarrow> log_record \<Rightarrow> log_record \<times> bool" where
  "apply_filters [] c r = (r, True)"
| "apply_filters (f # fs) c r =
    (case apply_filter f c r of (r', ok) \<Rightarrow> if ok then apply_filters fs c r' else (r', False))"

text \<open>\<open>addFilter\<close> adds a filter that is not there yet.\<close>

definition add_filter :: "log_filter \<Rightarrow> log_filter list \<Rightarrow> log_filter list" where
  "add_filter f fs = (if f \<in> set fs then fs else fs @ [f])"

text \<open>
  \<open>_FMT\<close>, and what \<open>Formatter.format\<close> appends for an exception. A record without the two attributes
  cannot be rendered.
\<close>

definition FMT :: "log_record \<Rightarrow> string option" where
  "FMT r =
    (case (r_job r, r_task r) of
       (Some j, Some t) \<Rightarrow>
         Some (level_name (r_level r) @ '' '' @ r_name r @ '' job='' @ j @ '' task='' @ t @ '' '' @ r_message r)
     | _ \<Rightarrow> None)"

definition newline :: string where
  "newline = [CHR 0x0A]"

definition format_record :: "log_record \<Rightarrow> string option" where
  "format_record r =
    map_option (\<lambda>s.
      case r_exc r of
        None \<Rightarrow> s
      | Some x \<Rightarrow> (if s \<noteq> [] \<and> last s = CHR 0x0A then s else s @ newline) @ x) (FMT r)"

text \<open>A stream handler with its formatter and its filters; the library's default format is the message.\<close>

datatype formatter = Default_format | Structured_format

fun render :: "formatter \<Rightarrow> log_record \<Rightarrow> string option" where
  "render Default_format r = Some (r_message r)"
| "render Structured_format r = format_record r"

record log_handler =
  h_format :: formatter
  h_filters :: "log_filter list"

text \<open>The root logger and what was written to the stream; \<open>l_errors\<close> counts records that did not render.\<close>

record log_state =
  l_level :: nat
  l_handlers :: "log_handler list"
  l_filters :: "log_filter list"
  l_stream :: "string list"
  l_errors :: nat

definition configure_logging :: "nat \<Rightarrow> log_state \<Rightarrow> log_state" where
  "configure_logging lev s =
    (let h = \<lparr>h_format = Structured_format, h_filters = add_filter CONTEXT_FILTER []\<rparr>
     in s\<lparr>l_handlers := [h], l_filters := add_filter CONTEXT_FILTER (l_filters s), l_level := lev\<rparr>)"

definition emit_to :: "log_context \<Rightarrow> log_handler \<Rightarrow> log_record \<times> log_state \<Rightarrow> log_record \<times> log_state" where
  "emit_to c h = (\<lambda>(r, s).
    case apply_filters (h_filters h) c r of
      (r', False) \<Rightarrow> (r', s)
    | (r', True) \<Rightarrow>
        (case render (h_format h) r' of
           Some line \<Rightarrow> (r', s\<lparr>l_stream := l_stream s @ [line]\<rparr>)
         | None \<Rightarrow> (r', s\<lparr>l_errors := Suc (l_errors s)\<rparr>)))"

text \<open>
  \<open>get_logger(name)\<close> is the root logger for the empty name and for \<open>root\<close>, otherwise a child without
  level, handlers and filters of its own: only the root logger itself runs the filters of the root,
  the handlers of the root run for both.
\<close>

definition get_logger_is_root :: "string \<Rightarrow> bool" where
  "get_logger_is_root name \<longleftrightarrow> name = '''' \<or> name = ''root''"

definition log_call :: "log_context \<Rightarrow> log_record \<Rightarrow> log_state \<Rightarrow> log_state" where
  "log_call c r s =
    (if level_no (r_level r) < l_level s then s
     else
       (case (if get_logger_is_root (r_name r) then apply_filters (l_filters s) c r else (r, True)) of
          (_, False) \<Rightarrow> s
        | (r', True) \<Rightarrow> snd (fold (emit_to c) (l_handlers s) (r', s))))"

section \<open>Tasks of one process\<close>

text \<open>
  What the tasks of a process do that concerns logging, in the order in which the event loop runs it.
  Task identities are numbers; task 0 is the main one.
\<close>

datatype log_op =
    Create_task nat nat
  | Bind_job nat string
  | Bind_task nat string
  | Log nat log_record

fun actor :: "log_op \<Rightarrow> nat" where
  "actor (Create_task p t) = p"
| "actor (Bind_job t x) = t"
| "actor (Bind_task t x) = t"
| "actor (Log t r) = t"

record proc_state =
  contexts :: "nat \<Rightarrow> log_context"
  logging :: log_state

fun log_step :: "log_op \<Rightarrow> proc_state \<Rightarrow> proc_state" where
  "log_step (Create_task p t) s = s\<lparr>contexts := (contexts s)(t := contexts s p)\<rparr>"
| "log_step (Bind_job t x) s = s\<lparr>contexts := (contexts s)(t := bind_job_id x (contexts s t))\<rparr>"
| "log_step (Bind_task t x) s = s\<lparr>contexts := (contexts s)(t := bind_task_id x (contexts s t))\<rparr>"
| "log_step (Log t r) s = s\<lparr>logging := log_call (contexts s t) r (logging s)\<rparr>"

definition start_process :: "log_state \<Rightarrow> proc_state" where
  "start_process l = \<lparr>contexts = (\<lambda>_. default_context), logging = l\<rparr>"

section \<open>The identifiers a task should log\<close>

text \<open>
  The reference: looking back from the end of the run, the identifier that the task bound last, or
  the one that its creator had when it created the task. The run is given latest step first.
\<close>

fun job_of :: "log_op list \<Rightarrow> nat \<Rightarrow> string" where
  "job_of [] t = ''''"
| "job_of (Bind_job u x # past) t = (if u = t then x else job_of past t)"
| "job_of (Create_task p u # past) t = (if u = t then job_of past p else job_of past t)"
| "job_of (_ # past) t = job_of past t"

fun task_of :: "log_op list \<Rightarrow> nat \<Rightarrow> string" where
  "task_of [] t = ''''"
| "task_of (Bind_task u x # past) t = (if u = t then x else task_of past t)"
| "task_of (Create_task p u # past) t = (if u = t then task_of past p else task_of past t)"
| "task_of (_ # past) t = task_of past t"

text \<open>The line of a record with given identifiers.\<close>

definition line_of :: "string \<Rightarrow> string \<Rightarrow> log_record \<Rightarrow> string" where
  "line_of j t r =
    (let s = level_name (r_level r) @ '' '' @ r_name r @ '' job='' @ j @ '' task='' @ t @ '' '' @ r_message r
     in case r_exc r of None \<Rightarrow> s | Some x \<Rightarrow> (if last s = CHR 0x0A then s else s @ newline) @ x)"

text \<open>The lines of a run: one for each record of at least the level, in order.\<close>

fun lines_of :: "nat \<Rightarrow> log_op list \<Rightarrow> log_op list \<Rightarrow> string list" where
  "lines_of lev past [] = []"
| "lines_of lev past (Log t r # ops) =
    (if lev \<le> level_no (r_level r) then [line_of (job_of past t) (task_of past t) r] else [])
    @ lines_of lev (Log t r # past) ops"
| "lines_of lev past (x # ops) = lines_of lev (x # past) ops"

text \<open>A logger that is configured for the structured format, once.\<close>

definition structured :: "nat \<Rightarrow> log_state \<Rightarrow> bool" where
  "structured lev s \<longleftrightarrow> l_level s = lev \<and> set (l_filters s) = {CONTEXT_FILTER}
    \<and> l_handlers s = [\<lparr>h_format = Structured_format, h_filters = [CONTEXT_FILTER]\<rparr>]"

lemma structured_configure: "structured lev (configure_logging lev s)"
proof -
  have "f = CONTEXT_FILTER" for f by (cases f)
  then show ?thesis by (auto simp: structured_def configure_logging_def add_filter_def)
qed

lemma all_filters_context: "apply_filters fs c r = (if fs = [] then r else fst (context_filter c r), True)"
proof (induction fs arbitrary: r)
  case (Cons f fs)
  then show ?case by (cases f) (simp add: context_filter_def)
qed simp

lemma format_structured:
  "format_record (fst (context_filter c r)) = Some (line_of (job_id_var c) (task_id_var c) r)"
  by (simp add: format_record_def FMT_def context_filter_def line_of_def Let_def split: option.split)

lemma log_call_structured:
  assumes "structured lev s"
  shows "log_call c r s =
    (if lev \<le> level_no (r_level r)
     then s\<lparr>l_stream := l_stream s @ [line_of (job_id_var c) (task_id_var c) r]\<rparr> else s)"
proof -
  have twice: "context_filter c (fst (context_filter c r)) = context_filter c r"
    by (simp add: context_filter_def)
  show ?thesis
    using assms format_structured [of c r]
    by (simp add: structured_def log_call_def emit_to_def all_filters_context twice)
qed

lemma structured_stream [simp]: "structured lev (s\<lparr>l_stream := x\<rparr>) = structured lev s"
  by (simp add: structured_def)

definition tracks :: "log_op list \<Rightarrow> proc_state \<Rightarrow> bool" where
  "tracks past s \<longleftrightarrow> (\<forall>t. job_id_var (contexts s t) = job_of past t \<and> task_id_var (contexts s t) = task_of past t)"

lemma tracks_step: "tracks past s \<Longrightarrow> tracks (x # past) (log_step x s)"
  by (cases x) (simp_all add: tracks_def bind_job_id_def bind_task_id_def)

lemma run_lines:
  assumes "tracks past s" and "structured lev (logging s)"
  shows "logging (fold log_step ops s) = (logging s)\<lparr>l_stream := l_stream (logging s) @ lines_of lev past ops\<rparr>
    \<and> tracks (rev ops @ past) (fold log_step ops s)"
  using assms
proof (induction ops arbitrary: s past)
  case (Cons x ops)
  have ok: "structured lev (logging (log_step x s))"
    using Cons.prems by (cases x) (simp_all add: log_call_structured)
  note IH = Cons.IH [OF tracks_step [OF Cons.prems(1)] ok]
  show ?case
  proof (cases x)
    case (Log t r)
    then show ?thesis
      using IH Cons.prems by (simp add: log_call_structured tracks_def)
  qed (use IH in simp_all)
qed simp

text \<open>
  C38. Log lines carry the right identifiers: after \<open>configure_logging\<close>, however often it was called
  and whatever was configured before, a run of any interleaving of tasks writes exactly one line for
  each record of at least the level, in order, and each line has the job and the task that its own
  task bound last, or that its creator had bound when it created the task: tasks never see what
  another one binds. The readers \<open>current_job_id\<close> and \<open>current_task_id\<close> agree.
\<close>

theorem log_lines_own_ids:
  "let s = fold log_step ops (start_process ((configure_logging lev ^^ Suc n) l)) in
    l_stream (logging s) = l_stream l @ lines_of lev [] ops
    \<and> l_errors (logging s) = l_errors l
    \<and> (\<forall>t. current_job_id (contexts s t) = job_of (rev ops) t \<and> current_task_id (contexts s t) = task_of (rev ops) t)"
proof -
  let ?l = "(configure_logging lev ^^ Suc n) l" and ?s = "fold log_step ops (start_process ((configure_logging lev ^^ Suc n) l))"
  have keep: "l_stream ((configure_logging lev ^^ k) l) = l_stream l" "l_errors ((configure_logging lev ^^ k) l) = l_errors l" for k
    by (induction k) (simp_all add: configure_logging_def Let_def)
  have "structured lev ?l" using structured_configure [of lev "(configure_logging lev ^^ n) l"] by simp
  moreover have "tracks [] (start_process ?l)" by (simp add: tracks_def start_process_def default_context_def)
  moreover have "logging (start_process ?l) = ?l" by (simp add: start_process_def)
  ultimately have r: "logging ?s = ?l\<lparr>l_stream := l_stream ?l @ lines_of lev [] ops\<rparr> \<and> tracks (rev ops) ?s"
    using run_lines [of "[]" "start_process ?l" lev ops] by (metis append_Nil2)
  then show ?thesis
    using keep [of "Suc n"] unfolding Let_def tracks_def current_job_id_def current_task_id_def by simp
qed

section \<open>The identifiers of a delivery\<close>

text \<open>What the handlers bind when they have validated their event.\<close>

fun bind_event :: "nat \<Rightarrow> event \<Rightarrow> log_op list" where
  "bind_event t (JobCreated e jid) = [Bind_job t jid]"
| "bind_event t (TtsRequested e jid tid) = [Bind_job t jid, Bind_task t tid]"
| "bind_event t (StitchReady e jid) = [Bind_job t jid]"

definition rebinds :: "nat \<Rightarrow> log_op \<Rightarrow> bool" where
  "rebinds t x \<longleftrightarrow> (\<exists>y. x = Bind_job t y \<or> x = Bind_task t y) \<or> (\<exists>p. x = Create_task p t)"

lemma ids_unchanged:
  "\<forall>x \<in> set ops. \<not> rebinds t x \<Longrightarrow> job_of (rev ops @ past) t = job_of past t \<and> task_of (rev ops @ past) t = task_of past t"
proof (induction ops arbitrary: past)
  case (Cons x ops)
  then show ?case by (cases x) (auto simp: rebinds_def)
qed simp

text \<open>
  A delivery that the consumer (task 0, which binds nothing) runs in a task of its own: whatever else
  the process does, its records carry the identifiers of its own event, and the task only for a block.
\<close>

lemma delivery_ids:
  assumes "\<forall>x \<in> set before. \<not> rebinds 0 x" and "\<forall>x \<in> set mid. \<not> rebinds t x" and "\<forall>x \<in> set after. \<not> rebinds t x"
  shows "let past = rev (before @ [Create_task 0 t] @ mid @ bind_event t ev @ after) in
    job_of past t = job_id ev \<and> task_of past t = (case ev of TtsRequested e jid tid \<Rightarrow> tid | _ \<Rightarrow> [])"
proof -
  have zero: "job_of (rev before) 0 = [] \<and> task_of (rev before) 0 = []"
    using ids_unchanged [OF assms(1), of "[]"] by simp
  then have "job_of (rev mid @ Create_task 0 t # rev before) t = [] \<and> task_of (rev mid @ Create_task 0 t # rev before) t = []"
    using ids_unchanged [OF assms(2), of "Create_task 0 t # rev before"] by simp
  then show ?thesis
    using ids_unchanged [OF assms(3), of "rev (bind_event t ev) @ rev mid @ Create_task 0 t # rev before"]
    by (cases ev) (simp_all add: Let_def)
qed

end
