(* ===== verification/Lifecycle.thy ===== *)
theory Lifecycle
  imports System
begin

text \<open>
  The life of the two processes: \<open>run\<close> of \<open>worker/main.py\<close> with \<open>build_context\<close> and \<open>close_context\<close> of
  \<open>worker/bootstrap.py\<close>, the signal handlers, and the \<open>lifespan\<close> of \<open>gateway/main.py\<close>. To the shared
  world comes the state of the process itself: which clients are open, which signals are handled,
  its background tasks, the shutdown event, and the deliveries that it holds without an
  acknowledgement. The wiring of \<open>Worker_Main\<close> and \<open>Gateway\<close> is used as it is, lifted to both parts.
\<close>

section \<open>Processes\<close>

datatype sig = SIGTERM | SIGINT

text \<open>An asyncio task: it runs, it is told to stop at its next await, or it has ended.\<close>

datatype task_state = Running | Cancelling | Stopped

record process =
  pr_connection :: bool
  pr_engine :: bool
  pr_redis :: bool
  pr_signals :: "sig list"
  pr_shutdown :: bool
  pr_tasks :: "task_state list"
  pr_unacked :: "(string \<times> msg) list"

definition new_process :: process where
  "new_process = \<lparr>pr_connection = False, pr_engine = False, pr_redis = False, pr_signals = [],
     pr_shutdown = False, pr_tasks = [], pr_unacked = []\<rparr>"

type_synonym 'a life = "(inp, world \<times> process, 'a) prog"

text \<open>A program on the shared world, run by the process.\<close>

primrec on_world :: "'a action \<Rightarrow> 'a life" where
  "on_world (Ret a) = Ret a"
| "on_world (Raise e) = Raise e"
| "on_world (Step f) =
    Step (\<lambda>i s. map_option (map_prod (\<lambda>w. (w, snd s)) on_world) (f i (fst s)))"

text \<open>A step of the process itself, and a call of a client that may fail before or after its effect.\<close>

definition on_process :: "(process \<Rightarrow> process) \<Rightarrow> unit life" where
  "on_process f = Step (\<lambda>i s. Some ((fst s, f (snd s)), Ret ()))"

definition client_call :: "(world \<times> process \<Rightarrow> world \<times> process) \<Rightarrow> unit life" where
  "client_call f = Step (\<lambda>i s.
    Some (case i_fault i of
        NoFault \<Rightarrow> (f s, Ret ())
      | FaultBefore \<Rightarrow> (s, Raise InfraError)
      | FaultAfter \<Rightarrow> (f s, Raise InfraError)))"

section \<open>Clients\<close>

definition connect :: "unit life" where
  "connect = client_call (\<lambda>(w, p). (w, p\<lparr>pr_connection := True\<rparr>))"

definition open_channel :: "unit life" where
  "open_channel = client_call id"

text \<open>Closing the connection: the broker takes back every delivery without an acknowledgement.\<close>

definition release_unacked :: "(string \<times> msg) list \<Rightarrow> broker \<Rightarrow> broker" where
  "release_unacked ds b = fold (\<lambda>(q, m). requeue m q) ds b"

definition close_connection :: "unit life" where
  "close_connection = client_call (\<lambda>(w, p).
    (w\<lparr>w_broker := release_unacked (pr_unacked p) (w_broker w)\<rparr>, p\<lparr>pr_connection := False, pr_unacked := []\<rparr>))"

text \<open>\<open>get_engine\<close> and \<open>get_redis\<close> open nothing by themselves: they build a pool.\<close>

definition get_engine :: "unit life" where
  "get_engine = on_process (\<lambda>p. p\<lparr>pr_engine := True\<rparr>)"

definition get_redis :: "unit life" where
  "get_redis = on_process (\<lambda>p. p\<lparr>pr_redis := True\<rparr>)"

definition dispose_engine :: "unit life" where
  "dispose_engine = client_call (\<lambda>(w, p). (w, p\<lparr>pr_engine := False\<rparr>))"

definition close_redis :: "unit life" where
  "close_redis = client_call (\<lambda>(w, p). (w, p\<lparr>pr_redis := False\<rparr>))"

section \<open>The worker\<close>

definition open_context :: "Settings \<Rightarrow> string \<Rightarrow> WorkerContext life" where
  "open_context s wid =
    (let ctx = context_of s wid in
     pbind connect (\<lambda>_.
     pbind open_channel (\<lambda>_.
     pbind (plift (retry_delays s)) (\<lambda>delays.
     pbind (on_world (broker_put (\<lambda>i b. declare_full delays b))) (\<lambda>_.
     pbind get_engine (\<lambda>_.
     pbind get_redis (\<lambda>_.
     pbind (on_world (redis_cmd (\<lambda>r. (ensure_slots (semaphore ctx) r, ())))) (\<lambda>_.
     pbind (on_world (minio_put (\<lambda>m. Inr (ensure_bucket m)))) (\<lambda>_.
     Ret ctx)))))))))"

definition close_context :: "unit life" where
  "close_context =
    pbind close_connection (\<lambda>_.
    pbind dispose_engine (\<lambda>_.
    close_redis))"

definition request_shutdown :: "process \<Rightarrow> process" where
  "request_shutdown p = p\<lparr>pr_shutdown := True\<rparr>"

text \<open>
  Wiring the two signals: through the event loop where the platform has it, otherwise by
  \<open>signal.signal\<close>, which refuses to work outside the main thread.
\<close>

definition install_signal_handlers :: "bool \<Rightarrow> bool \<Rightarrow> unit life" where
  "install_signal_handlers loop_ok main_thread =
    pfor [SIGTERM, SIGINT] (\<lambda>s.
      if loop_ok \<or> main_thread then on_process (\<lambda>p. p\<lparr>pr_signals := pr_signals p @ [s]\<rparr>)
      else Raise ValueError)"

text \<open>A signal: the handler that was installed runs, without one the process dies.\<close>

definition deliver_signal :: "sig \<Rightarrow> process \<Rightarrow> process option" where
  "deliver_signal s p = (if s \<in> set (pr_signals p) then Some (request_shutdown p) else None)"

definition create_tasks :: "nat \<Rightarrow> unit life" where
  "create_tasks n = on_process (\<lambda>p. p\<lparr>pr_tasks := pr_tasks p @ replicate n Running\<rparr>)"

definition wait_shutdown :: "unit life" where
  "wait_shutdown = Step (\<lambda>i s. if pr_shutdown (snd s) then Some (s, Ret ()) else None)"

fun cancelled :: "task_state \<Rightarrow> task_state" where
  "cancelled Stopped = Stopped"
| "cancelled _ = Cancelling"

definition cancel_task :: "nat \<Rightarrow> unit life" where
  "cancel_task k = on_process (\<lambda>p. p\<lparr>pr_tasks := (pr_tasks p)[k := cancelled (pr_tasks p ! k)]\<rparr>)"

text \<open>Awaiting a task: possible once it ends, which a cancelled loop does at its next await.\<close>

definition await_task :: "nat \<Rightarrow> unit life" where
  "await_task k = Step (\<lambda>i s.
    if pr_tasks (snd s) ! k = Running then None
    else Some ((fst s, (snd s)\<lparr>pr_tasks := (pr_tasks (snd s))[k := Stopped]\<rparr>), Ret ()))"

definition stop_tasks :: "nat \<Rightarrow> unit life" where
  "stop_tasks n = pbind (pfor [0..<n] cancel_task) (\<lambda>_. pfor [0..<n] await_task)"

definition worker_run :: "Settings \<Rightarrow> string \<Rightarrow> bool \<Rightarrow> bool \<Rightarrow> unit life" where
  "worker_run s wid loop_ok main_thread =
    pbind (open_context s wid) (\<lambda>ctx.
    pbind (install_signal_handlers loop_ok main_thread) (\<lambda>_.
    pbind (on_world (register_consumers ctx (all_handlers ctx))) (\<lambda>_.
    pbind (create_tasks 2) (\<lambda>_.
    pfinally wait_shutdown (pbind (stop_tasks 2) (\<lambda>_. close_context))))))"

section \<open>The gateway\<close>

text \<open>\<open>create_tables\<close> on the one schema of the model changes nothing; it may fail.\<close>

definition create_tables :: "unit life" where
  "create_tables = client_call id"

definition lifespan :: "unit life" where
  "lifespan =
    pbind connect (\<lambda>_.
    pbind open_channel (\<lambda>_.
    pbind (on_world (broker_put (\<lambda>i b. declare_full DEFAULT_RETRY_DELAYS b))) (\<lambda>_.
    pbind get_engine (\<lambda>_.
    pbind create_tables (\<lambda>_.
    pbind (on_world (minio_put (\<lambda>m. Inr (ensure_bucket m)))) (\<lambda>_.
    pbind (create_tasks 1) (\<lambda>_.
    pbind wait_shutdown (\<lambda>_.
    pbind (stop_tasks 1) (\<lambda>_.
    pbind close_connection (\<lambda>_.
    dispose_engine))))))))))"

section \<open>Running the lifted programs\<close>

lemma run_on_world: "run i (on_world p) (w, pr) = (case run i p w of (w', r) \<Rightarrow> ((w', pr), r))"
proof (induction p arbitrary: w)
  case (Step f)
  show ?case
  proof (cases "f i w")
    case (Some q)
    moreover obtain w' p where "q = (w', p)" by (cases q)
    ultimately show ?thesis
      using Step.IH [of "f i" "f i w" "(w', p)" p w'] rangeI [of "f i" w] by simp
  qed simp
qed simp_all

lemma run_process_steps [simp]:
  "run i (on_process f) s = ((fst s, f (snd s)), Done ())"
  "i_fault i = NoFault \<Longrightarrow> run i (client_call g) s = (g s, Done ())"
  by (simp_all add: on_process_def client_call_def)

text \<open>The wiring of a worker does to the shared world what \<open>build_context\<close> does, and opens its clients.\<close>

lemma run_open_context:
  assumes "i_fault i = NoFault"
  shows "run i (open_context s wid) (w, pr) =
    (case run i (build_context s wid) w of
       (w', Done ctx) \<Rightarrow> ((w', pr\<lparr>pr_connection := True, pr_engine := True, pr_redis := True\<rparr>), Done ctx)
     | (w', r) \<Rightarrow> ((w', pr\<lparr>pr_connection := True\<rparr>), r))"
  using assms
  by (simp add: open_context_def build_context_def Let_def run_pbind run_on_world connect_def open_channel_def
      get_engine_def get_redis_def split: sum.split)

section \<open>What the rest of the process may do\<close>

text \<open>
  Between two steps of \<open>run\<close> the world may change, signals and deliveries come and go; the clients, the
  signal table and the maintenance loops belong to \<open>run\<close>, and without a connection no delivery comes.
\<close>

definition meanwhile :: "process \<Rightarrow> process \<Rightarrow> bool" where
  "meanwhile p p' \<longleftrightarrow> pr_connection p' = pr_connection p \<and> pr_engine p' = pr_engine p \<and> pr_redis p' = pr_redis p
    \<and> pr_signals p' = pr_signals p \<and> pr_tasks p' = pr_tasks p \<and> (pr_shutdown p \<longrightarrow> pr_shutdown p')
    \<and> (\<not> pr_connection p \<longrightarrow> pr_unacked p' = pr_unacked p)"

definition others :: "world \<times> process \<Rightarrow> world \<times> process \<Rightarrow> bool" where
  "others s s' \<longleftrightarrow> meanwhile (snd s) (snd s')"

text \<open>No step loses a delivery that is not acknowledged: it is still held, or back in its queue.\<close>

definition nothing_lost :: "world \<times> process \<Rightarrow> world \<times> process \<Rightarrow> bool" where
  "nothing_lost s s' \<longleftrightarrow> (\<forall>(q, m) \<in> set (pr_unacked (snd s)).
    (q, m) \<in> set (pr_unacked (snd s')) \<or> b_queues (w_broker (fst s)) q = None \<or> m \<in> set (msgs_in (w_broker (fst s')) q))"

lemma meanwhile_refl [simp]: "meanwhile p p"
  by (simp add: meanwhile_def)

lemma others_refl [simp]: "others s s"
  by (simp add: others_def)

lemma nothing_lost_keep: "pr_unacked (snd s') = pr_unacked (snd s) \<Longrightarrow> nothing_lost s s'"
  by (auto simp: nothing_lost_def)

lemma nothing_lost_refl [simp]: "nothing_lost s s"
  by (simp add: nothing_lost_keep)

definition steady :: "(process \<Rightarrow> bool) \<Rightarrow> bool" where
  "steady P \<longleftrightarrow> (\<forall>p p'. P p \<longrightarrow> meanwhile p p' \<longrightarrow> P p')"

text \<open>
  \<open>hoare P c Q E\<close>: in a process that satisfies \<open>P\<close>, \<open>c\<close> loses no delivery and ends in \<open>Q\<close>, or in \<open>E\<close> with
  an exception, whatever happens meanwhile.
\<close>

definition hoare :: "(process \<Rightarrow> bool) \<Rightarrow> 'a life \<Rightarrow> (process \<Rightarrow> bool) \<Rightarrow> (process \<Rightarrow> bool) \<Rightarrow> bool" where
  "hoare P c Q E \<longleftrightarrow> (\<forall>s. P (snd s) \<longrightarrow> safe others nothing_lost (\<lambda>_ s. Q (snd s)) (\<lambda>_ s. E (snd s)) c s)"

lemma hoare_bind: "hoare P c Q E \<Longrightarrow> (\<And>a. hoare Q (k a) R E) \<Longrightarrow> hoare P (pbind c k) R E"
  unfolding hoare_def by (blast intro: safe_pbind others_refl)

lemma hoare_weaken: "hoare P c Q E \<Longrightarrow> (\<And>p. P' p \<Longrightarrow> P p) \<Longrightarrow> (\<And>p. Q p \<Longrightarrow> Q' p) \<Longrightarrow> (\<And>p. E p \<Longrightarrow> E' p) \<Longrightarrow> hoare P' c Q' E'"
  unfolding hoare_def by (blast intro: safe_weaken)

lemma hoare_Raise: "(\<And>p. P p \<Longrightarrow> E p) \<Longrightarrow> steady P \<Longrightarrow> hoare P (Raise e) Q E"
  by (auto simp: hoare_def steady_def others_def)

lemma hoare_Ret: "(\<And>p. P p \<Longrightarrow> Q p) \<Longrightarrow> steady P \<Longrightarrow> hoare P (Ret a) Q E"
  by (auto simp: hoare_def steady_def others_def)

lemma hoare_plift: "(\<And>p. P p \<Longrightarrow> E p) \<Longrightarrow> steady P \<Longrightarrow> hoare P (plift r) P E"
  by (cases r) (simp_all add: plift_def hoare_Raise hoare_Ret)

lemma hoare_on_world:
  assumes "steady P" and "\<And>p. P p \<Longrightarrow> E p"
  shows "hoare P (on_world c) P E"
proof -
  have "safe others nothing_lost (\<lambda>_ s. P (snd s)) (\<lambda>_ s. E (snd s)) (on_world c) (w, p)" if "P p" for w p
    using that
  proof (induction c arbitrary: w p)
    case (Step f)
    show ?case
      unfolding on_world.simps safe_Step
    proof (intro allI impI)
      fix s' i s'' k
      assume o: "others (w, p) s'" and "map_option (map_prod (\<lambda>w. (w, snd s')) on_world) (f i (fst s')) = Some (s'', k)"
      then obtain w' c' where c': "f i (fst s') = Some (w', c')" "s'' = (w', snd s')" "k = on_world c'" by auto
      have "P (snd s')" using o Step.prems assms(1) by (auto simp: others_def steady_def)
      then show "nothing_lost s' s'' \<and> safe others nothing_lost (\<lambda>_ s. P (snd s)) (\<lambda>_ s. E (snd s)) k s''"
        using c' Step.IH [of "f i" "f i (fst s')" "(w', c')" c' "snd s'" w'] rangeI [of "f i" "fst s'"]
        by (simp add: nothing_lost_keep)
    qed
  qed (use assms in \<open>auto simp: others_def steady_def\<close>)
  then show ?thesis by (simp add: hoare_def)
qed

lemma hoare_on_process:
  assumes "steady P" and "steady Q" and "\<And>p. P p \<Longrightarrow> Q (f p) \<and> pr_unacked (f p) = pr_unacked p"
  shows "hoare P (on_process f) Q E"
  unfolding hoare_def on_process_def safe_Step
proof (intro allI impI)
  fix s s' i s'' and k :: "unit life"
  assume P: "P (snd s)" and o: "others s s'" and k: "Some ((fst s', f (snd s')), Ret ()) = Some (s'', k)"
  then have "P (snd s')" using assms(1) by (auto simp: others_def steady_def)
  then show "nothing_lost s' s'' \<and> safe others nothing_lost (\<lambda>_ s. Q (snd s)) (\<lambda>_ s. E (snd s)) k s''"
    using k assms(2) assms(3) [of "snd s'"] by (auto simp: others_def steady_def nothing_lost_keep)
qed

lemma hoare_client_call:
  assumes "steady P" and "steady Q" and "steady E" and "\<And>s. P (snd s) \<Longrightarrow> Q (snd (f s)) \<and> nothing_lost s (f s)"
    and "\<And>p. P p \<or> Q p \<Longrightarrow> E p"
  shows "hoare P (client_call f) Q E"
  unfolding hoare_def client_call_def safe_Step
proof (intro allI impI)
  fix s s' i s'' and k :: "unit life"
  assume P: "P (snd s)" and o: "others s s'" and k: "Some (case i_fault i of
        NoFault \<Rightarrow> (f s', Ret ())
      | FaultBefore \<Rightarrow> (s', Raise InfraError)
      | FaultAfter \<Rightarrow> (f s', Raise InfraError)) = Some (s'', k)"
  then have P': "P (snd s')" using assms(1) by (auto simp: others_def steady_def)
  have st: "Q p' \<and> E p'" if "Q p" "meanwhile p p'" for p p' using that assms(2,5) by (auto simp: steady_def)
  have sp: "E p'" if "P p" "meanwhile p p'" for p p' using that assms(1,5) by (auto simp: steady_def)
  show "nothing_lost s' s'' \<and> safe others nothing_lost (\<lambda>_ s. Q (snd s)) (\<lambda>_ s. E (snd s)) k s''"
    using k assms(4) [OF P'] st sp P' by (cases "i_fault i") (auto simp: others_def)
qed

lemma hoare_pfinally:
  assumes "hoare P c Q (\<lambda>_. False)" and "hoare Q d R E" and "steady R"
  shows "hoare P (pfinally c d) R E"
proof -
  let ?Q = "\<lambda>r s. Q (snd s) \<and> (\<exists>a. r = Inr a)"
  have "safe others nothing_lost ?Q (\<lambda>_ s. E (snd s)) (ptry c) s" if "P (snd s)" for s
  proof (rule safe_ptry)
    have "safe others nothing_lost (\<lambda>_ s. Q (snd s)) (\<lambda>_ _. False) c s" using assms(1) that unfolding hoare_def by blast
    then show "safe others nothing_lost (\<lambda>a. ?Q (Inr a)) (\<lambda>e. ?Q (Inl e)) c s" by (rule safe_weaken) auto
  qed
  moreover have "safe others nothing_lost (\<lambda>_ s. R (snd s)) (\<lambda>_ s. E (snd s)) (pbind d (\<lambda>_. plift r)) s" if r: "?Q r s" for r s
  proof -
    have d: "safe others nothing_lost (\<lambda>_ s. R (snd s)) (\<lambda>_ s. E (snd s)) d s" using assms(2) r unfolding hoare_def by blast
    obtain a where "r = Inr a" using r by blast
    then show ?thesis
      using safe_pbind [OF d, of "\<lambda>_ s. R (snd s)" "\<lambda>_. plift r"] assms(3)
      by (auto simp: others_def steady_def plift_def)
  qed
  ultimately have "safe others nothing_lost (\<lambda>_ s. R (snd s)) (\<lambda>_ s. E (snd s)) (pfinally c d) s" if "P (snd s)" for s
    unfolding pfinally_def by (rule safe_pbind [where Q' = ?Q]) (use that in simp_all)
  then show ?thesis unfolding hoare_def by blast
qed

section \<open>The life of a worker\<close>

text \<open>The points of a process: nothing to stop yet; its loops at some stage; everything stopped.\<close>

definition at_start :: "process \<Rightarrow> bool" where
  "at_start p \<longleftrightarrow> pr_tasks p = []"

definition with_tasks :: "task_state list \<Rightarrow> process \<Rightarrow> bool" where
  "with_tasks ts p \<longleftrightarrow> pr_tasks p = ts"

definition stopping :: "task_state list \<Rightarrow> process \<Rightarrow> bool" where
  "stopping ts p \<longleftrightarrow> pr_tasks p = ts \<and> pr_shutdown p"

definition shut_down :: "task_state list \<Rightarrow> bool \<Rightarrow> bool \<Rightarrow> process \<Rightarrow> bool" where
  "shut_down ts engine redis p \<longleftrightarrow> pr_shutdown p \<and> pr_tasks p = ts \<and> \<not> pr_connection p \<and> pr_unacked p = []
    \<and> (engine \<longrightarrow> \<not> pr_engine p) \<and> (redis \<longrightarrow> \<not> pr_redis p)"

definition no_loop_left :: "process \<Rightarrow> bool" where
  "no_loop_left p \<longleftrightarrow> set (pr_tasks p) \<subseteq> {Stopped} \<and> (pr_tasks p = [] \<or> pr_shutdown p)"

lemma steady_points [simp]:
  "steady at_start" "steady (with_tasks ts)" "steady (stopping ts)" "steady (shut_down ts e r)" "steady no_loop_left"
  by (auto simp: steady_def meanwhile_def at_start_def with_tasks_def stopping_def shut_down_def no_loop_left_def)

lemma hoare_clients:
  "hoare at_start connect at_start no_loop_left" "hoare at_start open_channel at_start no_loop_left"
  "hoare at_start create_tables at_start no_loop_left"
  "hoare at_start get_engine at_start no_loop_left" "hoare at_start get_redis at_start no_loop_left"
  unfolding connect_def open_channel_def create_tables_def get_engine_def get_redis_def
  by (rule hoare_client_call hoare_on_process;
      auto simp: at_start_def no_loop_left_def nothing_lost_keep)+

lemma hoare_at_start:
  "hoare at_start (on_world c) at_start no_loop_left" "hoare at_start (plift r) at_start no_loop_left"
  "hoare at_start (Ret a) at_start no_loop_left"
  by (rule hoare_on_world hoare_plift hoare_Ret; simp add: at_start_def no_loop_left_def)+

lemma hoare_create_tasks: "hoare at_start (create_tasks n) (with_tasks (replicate n Running)) no_loop_left"
  unfolding create_tasks_def by (rule hoare_on_process) (auto simp: at_start_def with_tasks_def)

lemma hoare_wait: "hoare (with_tasks ts) wait_shutdown (stopping ts) E"
  by (auto simp: hoare_def wait_shutdown_def safe_Step others_def meanwhile_def with_tasks_def stopping_def split: if_splits)

lemma hoare_cancel:
  "hoare (stopping ts) (cancel_task k) (stopping (ts[k := cancelled (ts ! k)])) E"
  unfolding cancel_task_def by (rule hoare_on_process) (auto simp: stopping_def)

lemma hoare_await: "hoare (stopping ts) (await_task k) (stopping (ts[k := Stopped])) E"
  by (auto simp: hoare_def await_task_def safe_Step others_def meanwhile_def stopping_def nothing_lost_keep split: if_splits)

lemma hoare_cancels:
  "hoare (stopping ts) (pfor ks cancel_task) (stopping (fold (\<lambda>k ts. ts[k := cancelled (ts ! k)]) ks ts)) E"
  by (induction ks arbitrary: ts) (auto intro: hoare_Ret hoare_bind [OF hoare_cancel])

lemma hoare_awaits: "hoare (stopping ts) (pfor ks await_task) (stopping (fold (\<lambda>k ts. ts[k := Stopped]) ks ts)) E"
  by (induction ks arbitrary: ts) (auto intro: hoare_Ret hoare_bind [OF hoare_await])

lemma hoare_stop_tasks:
  "hoare (stopping ts) (stop_tasks n)
    (stopping (fold (\<lambda>k ts. ts[k := Stopped]) [0..<n] (fold (\<lambda>k ts. ts[k := cancelled (ts ! k)]) [0..<n] ts))) E"
  unfolding stop_tasks_def by (rule hoare_bind [OF hoare_cancels hoare_awaits])

lemma hoare_stop:
  "hoare (stopping [Running, Running]) (stop_tasks 2) (stopping [Stopped, Stopped]) E"
  "hoare (stopping [Running]) (stop_tasks 1) (stopping [Stopped]) E"
  using hoare_stop_tasks [of "[Running, Running]" 2 E] hoare_stop_tasks [of "[Running]" 1 E] by (simp_all add: upt_rec)

text \<open>Closing the connection gives back what was not acknowledged.\<close>

lemma requeue_keeps: "m \<in> set (msgs_in b q) \<Longrightarrow> m \<in> set (msgs_in (requeue m' q' b) q)"
  by (auto simp: requeue_def msgs_in_def split: option.split)

lemma requeue_queue: "b_queues (requeue m q b) k = None \<longleftrightarrow> b_queues b k = None"
  by (auto simp: requeue_def split: option.split)

lemma requeue_there: "b_queues b q \<noteq> None \<Longrightarrow> m \<in> set (msgs_in (requeue m q b) q)"
  by (auto simp: requeue_def msgs_in_def)

lemma release_unacked_keeps: "m \<in> set (msgs_in b q) \<Longrightarrow> m \<in> set (msgs_in (release_unacked ds b) q)"
  unfolding release_unacked_def by (induction ds arbitrary: b) (auto intro: requeue_keeps)

lemma release_unacked_back:
  "(q, m) \<in> set ds \<Longrightarrow> b_queues b q \<noteq> None \<Longrightarrow> m \<in> set (msgs_in (release_unacked ds b) q)"
proof (induction ds arbitrary: b)
  case (Cons d ds)
  obtain q' m' where d: "d = (q', m')" by (cases d)
  show ?case
  proof (cases "d = (q, m)")
    case True
    then show ?thesis
      using release_unacked_keeps [OF requeue_there [OF Cons.prems(2)], where ds = ds] by (simp add: release_unacked_def)
  next
    case False
    then have "m \<in> set (msgs_in (release_unacked ds (requeue m' q' b)) q)"
      using Cons.prems by (intro Cons.IH) (auto simp: requeue_queue)
    then show ?thesis by (simp add: release_unacked_def d)
  qed
qed simp

lemma close_loses_nothing:
  "nothing_lost (w, p) (w\<lparr>w_broker := release_unacked (pr_unacked p) (w_broker w)\<rparr>, p\<lparr>pr_connection := False, pr_unacked := []\<rparr>)"
  using release_unacked_back [where b = "w_broker w" and ds = "pr_unacked p"] by (fastforce simp: nothing_lost_def)

lemma hoare_close:
  assumes "\<forall>t \<in> set ts. t = Stopped"
  shows "hoare (stopping ts) close_connection (shut_down ts False False) no_loop_left"
    and "hoare (shut_down ts False False) dispose_engine (shut_down ts True False) no_loop_left"
    and "hoare (shut_down ts True False) close_redis (shut_down ts True True) no_loop_left"
  unfolding close_connection_def dispose_engine_def close_redis_def
  by (rule hoare_client_call; use assms in \<open>auto simp: stopping_def shut_down_def no_loop_left_def nothing_lost_keep close_loses_nothing\<close>)+

lemma hoare_install: "hoare at_start (install_signal_handlers loop_ok main_thread) at_start no_loop_left"
proof -
  have one: "hoare at_start (if loop_ok \<or> main_thread then on_process (\<lambda>p. p\<lparr>pr_signals := pr_signals p @ [s]\<rparr>)
      else Raise ValueError) at_start no_loop_left" for s
    by (auto intro!: hoare_on_process hoare_Raise simp: at_start_def no_loop_left_def)
  show ?thesis
    unfolding install_signal_handlers_def pfor.simps by (intro hoare_bind [OF one] hoare_at_start(3))
qed

lemma hoare_worker_run:
  "hoare at_start (worker_run st wid loop_ok main_thread) (shut_down [Stopped, Stopped] True True) no_loop_left"
proof -
  have open_ctx: "hoare at_start (open_context st wid) at_start no_loop_left"
    unfolding open_context_def Let_def by (intro hoare_bind [where Q = at_start] hoare_clients hoare_at_start)
  have close: "hoare (stopping [Stopped, Stopped]) close_context (shut_down [Stopped, Stopped] True True) no_loop_left"
    unfolding close_context_def by (intro hoare_bind [OF hoare_close(1)] hoare_bind [OF hoare_close(2)] hoare_close(3)) simp_all
  have "hoare (with_tasks (replicate 2 Running)) (pfinally wait_shutdown (pbind (stop_tasks 2) (\<lambda>_. close_context)))
      (shut_down [Stopped, Stopped] True True) no_loop_left"
    by (rule hoare_pfinally [OF hoare_wait]) (simp_all add: numeral_2_eq_2 hoare_bind [OF hoare_stop(1) close, unfolded numeral_2_eq_2])
  then show ?thesis
    unfolding worker_run_def
    by (intro hoare_bind [OF open_ctx] hoare_bind [OF hoare_install] hoare_bind [OF hoare_at_start(1)] hoare_bind [OF hoare_create_tasks])
qed

lemma hoare_lifespan: "hoare at_start lifespan (shut_down [Stopped] True False) no_loop_left"
proof -
  have "hoare (with_tasks (replicate 1 Running)) (pbind wait_shutdown (\<lambda>_. pbind (stop_tasks 1) (\<lambda>_.
      pbind close_connection (\<lambda>_. dispose_engine)))) (shut_down [Stopped] True False) no_loop_left"
    by (intro hoare_bind [OF hoare_wait] hoare_bind [where Q = "stopping [Stopped]"] hoare_bind [OF hoare_close(1)] hoare_close(2))
       (simp_all add: hoare_stop(2) [simplified])
  then show ?thesis
    unfolding lifespan_def
    by (intro hoare_clients [THEN hoare_bind] hoare_at_start [THEN hoare_bind] hoare_create_tasks [THEN hoare_bind])
qed


text \<open>
  Without faults the rest of \<open>run\<close> after a signal comes to its end: it is not held up, and the broker
  has every delivery back.
\<close>

lemma run_after_signal:
  assumes "i_fault i = NoFault" and "pr_tasks p = [Running, Running]" and "deliver_signal s p = Some p'"
  shows "run i (pfinally wait_shutdown (pbind (stop_tasks 2) (\<lambda>_. close_context))) (w, p') =
    ((w\<lparr>w_broker := release_unacked (pr_unacked p) (w_broker w)\<rparr>,
      p\<lparr>pr_shutdown := True, pr_tasks := [Stopped, Stopped], pr_connection := False, pr_unacked := [], pr_engine := False, pr_redis := False\<rparr>),
     Done ())"
proof -
  have p': "p' = request_shutdown p" using assms(3) by (simp add: deliver_signal_def split: if_splits)
  have two: "[0..<2] = [0, 1]" by (simp add: upt_rec)
  show ?thesis
    using assms(1,2)
    by (simp add: p' request_shutdown_def run_pfinally run_pbind wait_shutdown_def stop_tasks_def two cancel_task_def await_task_def
        close_context_def close_connection_def dispose_engine_def close_redis_def)
qed

end
