(* ===== verification/Timed_Slots.thy ===== *)
theory Timed_Slots
  imports Tts_Handler
begin

text \<open>
  \<open>Semaphore.acquire\<close> and \<open>Semaphore.slot\<close> of \<open>infra/redis.py\<close> with their \<open>timeout\<close>. The workers call them
  without one; then they are the programs \<open>sem_acquire\<close> and \<open>slot\<close> of the handlers.
\<close>

text \<open>The liveness check of the client.\<close>

definition ping :: "bool action" where
  "ping = redis_cmd (\<lambda>r. (r, True))"

text \<open>
  \<open>BLPOP\<close>: with \<open>timeout = 0\<close> it waits for an element; with a finite one it gives nothing when the list
  is still empty at its end; a negative one is refused by the server.
\<close>

definition blpop :: "WorkerContext \<Rightarrow> rat \<Rightarrow> string option action" where
  "blpop ctx timeout =
    (if timeout < 0 then pbind pskip (\<lambda>_. Raise InfraError)
     else blocking (\<lambda>w.
       case acquire_pop (semaphore ctx) (w_redis w) of
         Some (r, token) \<Rightarrow> Some (w\<lparr>w_redis := r\<rparr>, Some token)
       | None \<Rightarrow> if timeout = 0 then None else Some (w, None)))"

definition acquire :: "WorkerContext \<Rightarrow> string \<Rightarrow> rat \<Rightarrow> string option action" where
  "acquire ctx owner timeout =
    pbind (blpop ctx timeout) (\<lambda>raw.
      case raw of
        None \<Rightarrow> Ret None
      | Some token \<Rightarrow>
          pbind (redis_cmd (\<lambda>r. (acquire_lease (semaphore ctx) token owner r, ()))) (\<lambda>_.
          pbind (local_step (start_heartbeat ctx token owner)) (\<lambda>_.
          Ret (Some token))))"

definition slot_within :: "WorkerContext \<Rightarrow> string \<Rightarrow> rat \<Rightarrow> (string option \<Rightarrow> 'a action) \<Rightarrow> 'a action" where
  "slot_within ctx owner timeout body =
    pbind (acquire ctx owner timeout) (\<lambda>token.
      pfinally (body token) (case token of None \<Rightarrow> Ret () | Some t \<Rightarrow> sem_release ctx t))"

lemma pbind_assoc: "pbind (pbind p k) h = pbind p (\<lambda>a. pbind (k a) h)"
proof (induction p)
  case (Step f)
  have "map_option (map_prod id (\<lambda>p. pbind p h)) (map_option (map_prod id (\<lambda>p. pbind p k)) (f i w)) =
      map_option (map_prod id (\<lambda>p. pbind p (\<lambda>a. pbind (k a) h))) (f i w)" for i w
    using Step.IH [of "f i" "f i w"] rangeI [of "f i" w] by (cases "f i w") auto
  then show ?case by simp
qed simp_all

lemma blpop_forever:
  "blpop ctx 0 = pbind (blocking (\<lambda>w. map_option (\<lambda>(r, token). (w\<lparr>w_redis := r\<rparr>, token))
    (acquire_pop (semaphore ctx) (w_redis w)))) (\<lambda>token. Ret (Some token))"
  unfolding blpop_def blocking_def by (auto simp: fun_eq_iff split: fault.split option.split)

text \<open>Without a timeout these are the programs that the handlers use.\<close>

lemma acquire_forever: "acquire ctx owner 0 = pbind (sem_acquire ctx owner) (\<lambda>token. Ret (Some token))"
  unfolding acquire_def blpop_forever sem_acquire_def by (simp add: pbind_assoc)

lemma slot_forever: "slot_within ctx owner 0 (\<lambda>_. body) = slot ctx owner body"
  unfolding slot_within_def acquire_forever slot_def by (simp add: pbind_assoc)

text \<open>
  A slot that was not free in time: the body runs without a token, nothing is taken from the pool
  and nothing is given back to it.
\<close>

lemma slot_timed_out:
  assumes "i_fault i = NoFault" and "0 < timeout" and "r_list (w_redis w) (slots_key (semaphore ctx)) = []"
  shows "run i (slot_within ctx owner timeout body) w = run i (body None) w"
proof -
  have "run i (blpop ctx timeout) w = (w, Done None)"
    using assms by (simp add: blpop_def acquire_pop_def redis_lpop_def)
  then show ?thesis
    by (simp add: slot_within_def acquire_def run_pbind run_pfinally split: prod.split outcome.split)
qed

text \<open>A slot that was free is used under its token, whatever the timeout.\<close>

lemma slot_in_time:
  assumes "i_fault i = NoFault" and "0 \<le> timeout" and "r_list (w_redis w) (slots_key (semaphore ctx)) = token # rest"
  shows "run i (slot_within ctx owner timeout body) w = run i (slot ctx owner (body (Some token))) w"
proof -
  have "run i (blpop ctx timeout) w = (w\<lparr>w_redis := popped ctx (w_redis w)\<rparr>, Done (Some token))"
    using assms by (simp add: blpop_def acquire_pop_def redis_lpop_def popped_def)
  moreover have "acquire_pop (semaphore ctx) (w_redis w) = Some (popped ctx (w_redis w), token)"
    using assms(3) by (simp add: acquire_pop_def redis_lpop_def popped_def)
  ultimately show ?thesis
    using assms(1) by (simp add: slot_within_def acquire_def slot_def sem_acquire_def run_pbind split: prod.split)
qed

lemma ping_answers: "run i ping w = (w, if i_fault i = NoFault then Done True else Exn InfraError)"
  by (cases "i_fault i") (simp_all add: ping_def redis_cmd_def atomic_def)

end
