(* ===== verification/Http.thy ===== *)
theory Http
  imports Gateway
begin

text \<open>
  The answers of \<open>gateway/main.py\<close> as they leave the process: status codes and JSON contents, for every
  run of a request, also when services fail and other processes change the world between its steps.
\<close>

section \<open>Status codes and contents\<close>

fun status_value :: "JobStatus \<Rightarrow> string" where
  "status_value PENDING = ''PENDING''"
| "status_value PARSING = ''PARSING''"
| "status_value GENERATING = ''GENERATING''"
| "status_value STITCHING = ''STITCHING''"
| "status_value COMPLETED = ''COMPLETED''"
| "status_value FAILED = ''FAILED''"

fun status_code :: "response \<Rightarrow> nat" where
  "status_code (JobAccepted _) = 202"
| "status_code (StatsResponse _) = 200"
| "status_code (StatusResponse _) = 200"
| "status_code Health = 200"
| "status_code (NotFound _) = 404"
| "status_code (ManuscriptTooLarge _) = 413"
| "status_code (InternalError _) = 500"

definition json_opt :: "string option \<Rightarrow> json" where
  "json_opt x = (case x of None \<Rightarrow> JNull | Some s \<Rightarrow> JStr s)"

text \<open>\<open>py_repr\<close> is Python's \<open>repr\<close> of a string, which the detail of the 404 answer uses.\<close>

fun content :: "(string \<Rightarrow> string) \<Rightarrow> response \<Rightarrow> json" where
  "content py_repr (JobAccepted jid) = JObj [(''job_id'', JStr jid)]"
| "content py_repr (StatsResponse counts) =
    JObj [(''jobs'', JObj (map (\<lambda>(s, n). (status_value s, JNum (of_nat n))) counts))]"
| "content py_repr (StatusResponse r) = JObj
    [(''job_id'', JStr (js_job_id r)), (''status'', JStr (status_value (js_status r))),
     (''pending_count'', JNum (of_int (js_pending_count r))), (''manuscript_key'', JStr (js_manuscript_key r)),
     (''final_key'', json_opt (js_final_key r))]"
| "content py_repr Health = JObj [(''status'', JStr ''ok'')]"
| "content py_repr (NotFound jid) = JObj [(''detail'', JStr (''Job '' @ py_repr jid @ '' not found''))]"
| "content py_repr (ManuscriptTooLarge n) = JObj
    [(''error'', JStr ''manuscript_too_large''), (''max_bytes'', JNum (of_int n)), (''job_id'', JNull)]"
| "content py_repr (InternalError jid) = JObj [(''error'', JStr ''internal_error''), (''job_id'', json_opt jid)]"

lemma status_value_inj: "status_value s = status_value t \<Longrightarrow> s = t"
  by (cases s; cases t) simp_all

text \<open>The answer to \<open>/stats\<close> has every status once, in the order of the machine.\<close>

lemma stats_keys:
  "\<exists>kv. content py_repr (StatsResponse (zero_filled counts)) = JObj [(''jobs'', JObj kv)]
    \<and> map fst kv = map status_value all_status \<and> distinct (map fst kv)"
  by (auto simp: zero_filled_def all_status_def)

section \<open>Every run of a request\<close>

text \<open>A run with interference: at every step the world may be another one.\<close>

inductive trace :: "'a action \<Rightarrow> (world \<times> world) list \<Rightarrow> 'a \<Rightarrow> bool" where
  answer: "trace (Ret a) [] a"
| step: "f i w = Some (w', p) \<Longrightarrow> trace p ts a \<Longrightarrow> trace (Step f) ((w, w') # ts) a"

inductive_cases trace_RetE: "trace (Ret a) ts b"
inductive_cases trace_RaiseE: "trace (Raise e) ts b"
inductive_cases trace_StepE: "trace (Step f) ts b"

lemma trace_pbind:
  "trace (pbind p k) ts b \<Longrightarrow> \<exists>ts1 ts2 a. trace p ts1 a \<and> trace (k a) ts2 b \<and> ts = ts1 @ ts2"
proof (induction p arbitrary: ts)
  case (Ret a)
  then show ?case by (intro exI [of _ "[]"] exI [of _ ts] exI [of _ a]) (simp add: trace.answer)
next
  case (Raise e)
  then show ?case by (auto elim: trace_RaiseE)
next
  case (Step f)
  from Step.prems obtain i w w' p ts' where s: "f i w = Some (w', p)" "trace (pbind p k) ts' b" "ts = (w, w') # ts'"
    by (auto elim!: trace_StepE)
  then obtain ts1 ts2 a where "trace p ts1 a" "trace (k a) ts2 b" "ts' = ts1 @ ts2"
    using Step.IH [of "f i" "f i w" "(w', p)" p ts'] rangeI [of "f i" w] by auto
  then show ?case using s by (intro exI [of _ "(w, w') # ts1"] exI [of _ ts2] exI [of _ a]) (simp add: trace.step)
qed

lemma trace_ptry: "trace (ptry p) ts (Inr a) \<Longrightarrow> trace p ts a"
proof (induction p arbitrary: ts)
  case (Ret b)
  then show ?case by (auto elim: trace_RetE intro: trace.answer)
next
  case (Raise e)
  then show ?case by (auto elim: trace_RetE)
next
  case (Step f)
  from Step.prems obtain i w w' p ts' where s: "f i w = Some (w', p)" "trace (ptry p) ts' (Inr a)" "ts = (w, w') # ts'"
    by (auto elim!: trace_StepE)
  then have "trace p ts' a" using Step.IH [of "f i" "f i w" "(w', p)" p ts'] rangeI [of "f i" w] by simp
  then show ?case using s by (simp add: trace.step)
qed

lemma trace_atomic:
  "trace (atomic f) ts a \<Longrightarrow> \<exists>i w. ts = [(w, fst (f i w))] \<and> snd (f i w) = Inr a"
  unfolding atomic_def
  by (elim trace_StepE) (auto simp: plift_def elim!: trace_RetE trace_RaiseE split: fault.splits sum.splits)

lemma trace_minio_put:
  assumes "trace (minio_put c) ts a"
  shows "\<exists>w w'. ts = [(w, w')] \<and> c (w_minio w) = Inr (w_minio w')"
proof -
  from trace_atomic [OF assms [unfolded minio_put_def]] obtain w where
    w: "ts = [(w, fst (case c (w_minio w) of Inl e \<Rightarrow> (w, Inl e) | Inr s \<Rightarrow> (w\<lparr>w_minio := s\<rparr>, Inr ())))]"
    "snd (case c (w_minio w) of Inl e \<Rightarrow> (w, Inl e) | Inr s \<Rightarrow> (w\<lparr>w_minio := s\<rparr>, Inr ())) = Inr a" by blast
  then show ?thesis by (cases "c (w_minio w)") simp_all
qed

lemma trace_ask: "trace (ask g) ts a \<Longrightarrow> \<exists>i w. ts = [(w, w)] \<and> a = g i"
  unfolding ask_def by (auto elim!: trace_StepE trace_RetE)

lemma run_trace: "run i p w = (w', Done a) \<Longrightarrow> \<exists>ts. trace p ts a"
proof (induction p arbitrary: w)
  case (Step f)
  then obtain w1 p1 where f: "f i w = Some (w1, p1)" "run i p1 w1 = (w', Done a)" by (auto split: option.splits)
  then obtain ts where "trace p1 ts a" using Step.IH [of "f i" "f i w" "(w1, p1)" p1 w1] rangeI [of "f i" w] by auto
  then show ?case using trace.step [where f = f and i = i, OF f(1)] by blast
qed (auto intro: trace.answer)

text \<open>No run waits, and every end satisfies \<open>Q\<close>.\<close>

primrec ends_by :: "('a res \<Rightarrow> bool) \<Rightarrow> 'a action \<Rightarrow> bool" where
  "ends_by Q (Ret a) = Q (Inr a)"
| "ends_by Q (Raise e) = Q (Inl e)"
| "ends_by Q (Step f) = (\<forall>i w. case map_option (map_prod id (ends_by Q)) (f i w) of None \<Rightarrow> False | Some (w', ok) \<Rightarrow> ok)"

lemma ends_by_Step: "ends_by Q (Step f) \<longleftrightarrow> (\<forall>i w. \<exists>w' p. f i w = Some (w', p) \<and> ends_by Q p)"
  unfolding ends_by.simps by (intro iff_allI) (auto split: option.split prod.split)

declare ends_by.simps(3) [simp del]

lemma ends_by_pbind:
  "ends_by (\<lambda>r. case r of Inl e \<Rightarrow> Q (Inl e) | Inr a \<Rightarrow> ends_by Q (k a)) p \<Longrightarrow> ends_by Q (pbind p k)"
proof (induction p)
  case (Step f)
  show ?case
    unfolding pbind.simps ends_by_Step
  proof (intro allI)
    fix i w
    from Step.prems obtain w' p where p: "f i w = Some (w', p)"
      "ends_by (\<lambda>r. case r of Inl e \<Rightarrow> Q (Inl e) | Inr a \<Rightarrow> ends_by Q (k a)) p" unfolding ends_by_Step by blast
    then have "ends_by Q (pbind p k)"
      using Step.IH [of "f i" "f i w" "(w', p)" p] rangeI [of "f i" w] by simp
    then show "\<exists>w' p. map_option (map_prod id (\<lambda>p. pbind p k)) (f i w) = Some (w', p) \<and> ends_by Q p" using p(1) by simp
  qed
qed simp_all

lemma ends_by_ptry: "ends_by (\<lambda>r. Q (Inr r)) p \<Longrightarrow> ends_by Q (ptry p)"
proof (induction p)
  case (Step f)
  show ?case
    unfolding ptry.simps ends_by_Step
  proof (intro allI)
    fix i w
    from Step.prems obtain w' p where p: "f i w = Some (w', p)" "ends_by (\<lambda>r. Q (Inr r)) p" unfolding ends_by_Step by blast
    then have "ends_by Q (ptry p)" using Step.IH [of "f i" "f i w" "(w', p)" p] rangeI [of "f i" w] by simp
    then show "\<exists>w' p. map_option (map_prod id ptry) (f i w) = Some (w', p) \<and> ends_by Q p" using p(1) by simp
  qed
qed simp_all

lemma ends_by_mono: "ends_by Q p \<Longrightarrow> (\<And>r. Q r \<Longrightarrow> Q' r) \<Longrightarrow> ends_by Q' p"
proof (induction p)
  case (Step f)
  then show ?case unfolding ends_by_Step by (metis option.set_intros prod_set_simps(2) rangeI singletonI)
qed simp_all

lemma ends_by_pcatch:
  assumes "ends_by (\<lambda>r. case r of Inl e \<Rightarrow> ends_by Q (h e) | Inr a \<Rightarrow> Q (Inr a)) p"
  shows "ends_by Q (pcatch p h)"
  unfolding pcatch_def
  by (intro ends_by_pbind ends_by_ptry, rule ends_by_mono [OF assms]) (auto split: sum.splits)

lemma ends_by_atomic: "(\<And>r. Q r) \<Longrightarrow> ends_by Q (atomic f)"
  by (auto simp: atomic_def ends_by_Step plift_def split: fault.split sum.split)

lemma ends_by_plift [simp]: "ends_by Q (plift r) = Q r"
  by (simp add: plift_def split: sum.split)

lemma ends_by_ask: "(\<And>i. Q (Inr (g i))) \<Longrightarrow> ends_by Q (ask g)"
  by (simp add: ask_def ends_by_Step)

lemma trace_ends: "trace p ts a \<Longrightarrow> ends_by Q p \<Longrightarrow> Q (Inr a)"
proof (induction rule: trace.induct)
  case (step f i w w' p ts a)
  from step.prems step.hyps(1) have "ends_by Q p" unfolding ends_by_Step by (metis option.inject prod.inject)
  then show ?case by (rule step.IH)
qed simp

text \<open>The codes that each route can answer with.\<close>

fun codes :: "route \<Rightarrow> nat set" where
  "codes (PostJobs _) = {202, 413, 500}"
| "codes GetStats = {200, 500}"
| "codes (GetStatus _) = {200, 404, 500}"
| "codes GetHealth = {200}"

lemma route_ends:
  "ends_by (\<lambda>r. case r of Inl e \<Rightarrow> r' \<noteq> GetHealth | Inr a \<Rightarrow> status_code a \<in> codes r') (call_route r')"
proof (cases r')
  case (PostJobs body)
  then show ?thesis
    by (auto simp: create_job_def minio_put_def transaction_def publish_event_def broker_put_def
        intro!: ends_by_pbind ends_by_ask ends_by_atomic split: sum.split)
next
  case GetStats
  then show ?thesis
    by (auto simp: stats_def read_db_def transaction_def intro!: ends_by_pbind ends_by_atomic split: sum.split)
next
  case (GetStatus jid)
  then show ?thesis
    by (auto simp: get_status_def read_db_def transaction_def intro!: ends_by_pbind ends_by_atomic split: sum.split option.split)
qed simp

lemma guard_ends:
  assumes "ends_by Q p" and "\<And>body e. rq_route rq = PostJobs body \<Longrightarrow> Q (Inl e)"
    and "\<And>body n. rq_route rq = PostJobs body \<Longrightarrow> Q (Inr (ManuscriptTooLarge n))"
  shows "ends_by Q (guard_manuscript_size s rq p)"
proof (cases "\<exists>body h. rq_route rq = PostJobs body \<and> content_length rq = Some h")
  case True
  then obtain body h where b: "rq_route rq = PostJobs body" "content_length rq = Some h" by blast
  have "ends_by (\<lambda>r. case r of Inl e \<Rightarrow> Q (Inl e) | Inr n \<Rightarrow> ends_by Q
      (if n > MAX_MANUSCRIPT_BYTES s then Ret (ManuscriptTooLarge (MAX_MANUSCRIPT_BYTES s)) else p)) (plift (py_int h))"
    using assms(1) assms(2,3) [OF b(1)] by (cases "py_int h") simp_all
  then show ?thesis unfolding guard_manuscript_size_def b prod.case route.case option.case by (rule ends_by_pbind)
next
  case False
  then have "guard_manuscript_size s rq p = p" by (auto simp: guard_manuscript_size_def split: route.split option.split)
  then show ?thesis using assms(1) by simp
qed

lemma serve_ends:
  "ends_by (\<lambda>r. case r of Inl e \<Rightarrow> False | Inr a \<Rightarrow> status_code a \<in> codes (rq_route rq)) (serve s rq)"
proof -
  let ?Q = "\<lambda>r. case r of Inl e \<Rightarrow> rq_route rq \<noteq> GetHealth | Inr a \<Rightarrow> status_code a \<in> codes (rq_route rq)"
  have "ends_by ?Q (guard_manuscript_size s rq (call_route (rq_route rq)))"
    by (rule guard_ends [OF route_ends]) (auto split: sum.split)
  then have "ends_by (\<lambda>r. case r of Inl e \<Rightarrow> status_code (unhandled rq) \<in> codes (rq_route rq)
      | Inr a \<Rightarrow> status_code a \<in> codes (rq_route rq)) (guard_manuscript_size s rq (call_route (rq_route rq)))"
    by (rule ends_by_mono) (cases "rq_route rq"; auto simp: unhandled_def split: sum.splits)
  then show ?thesis unfolding serve_def by (intro ends_by_pcatch, elim ends_by_mono) (auto split: sum.splits)
qed

lemma accepted_trace:
  assumes "trace (create_job body) ts (JobAccepted jid)"
  shows "\<exists>w0 w1 w1' w2 w2' w3 w3' e. ts = [(w0, w0), (w1, w1'), (w2, w2'), (w3, w3')]
    \<and> put_text (w_minio w1) (manuscript_key_of jid) (manuscript body) = Inr (w_minio w1')
    \<and> insert_job (w_db w2) jid (manuscript_key_of jid) (req_callback_url body) = Inr (w_db w2')
    \<and> w_broker w3' = publish (w_broker w3) (JobCreated e jid) Q_PARSE"
proof -
  from trace_pbind [OF assms [unfolded create_job_def]] obtain u t0 r0 where t0: "trace (ask i_uuid) t0 u" and
    r0: "ts = t0 @ r0" "trace (pbind (minio_put (\<lambda>s. put_text s (manuscript_key_of u) (manuscript body))) (\<lambda>_.
      pbind (transaction (\<lambda>d. case insert_job d u (manuscript_key_of u) (req_callback_url body) of
        Inl e \<Rightarrow> (d, Inl e) | Inr d' \<Rightarrow> (d', Inr ()))) (\<lambda>_.
      pbind (publish_event (\<lambda>e. JobCreated e u) Q_PARSE) (\<lambda>_. Ret (JobAccepted u))))) r0 (JobAccepted jid)" by blast
  from trace_pbind [OF r0(2)] obtain t1 r1 where
    t1: "trace (minio_put (\<lambda>s. put_text s (manuscript_key_of u) (manuscript body))) t1 ()" and
    r1: "r0 = t1 @ r1" "trace (pbind (transaction (\<lambda>d. case insert_job d u (manuscript_key_of u) (req_callback_url body) of
        Inl e \<Rightarrow> (d, Inl e) | Inr d' \<Rightarrow> (d', Inr ()))) (\<lambda>_.
      pbind (publish_event (\<lambda>e. JobCreated e u) Q_PARSE) (\<lambda>_. Ret (JobAccepted u)))) r1 (JobAccepted jid)" by auto
  from trace_pbind [OF r1(2)] obtain t2 r2 where
    t2: "trace (transaction (\<lambda>d. case insert_job d u (manuscript_key_of u) (req_callback_url body) of
        Inl e \<Rightarrow> (d, Inl e) | Inr d' \<Rightarrow> (d', Inr ()))) t2 ()" and
    r2: "r1 = t2 @ r2" "trace (pbind (publish_event (\<lambda>e. JobCreated e u) Q_PARSE) (\<lambda>_. Ret (JobAccepted u))) r2 (JobAccepted jid)" by auto
  from trace_pbind [OF r2(2)] obtain t3 r3 where
    t3: "trace (publish_event (\<lambda>e. JobCreated e u) Q_PARSE) t3 ()" and
    r3: "r2 = t3 @ r3" "trace (Ret (JobAccepted u)) r3 (JobAccepted jid)" by auto
  have ts: "ts = t0 @ t1 @ t2 @ t3" "u = jid" using r0(1) r1(1) r2(1) r3 by (auto elim!: trace_RetE)
  obtain w0 where 0: "t0 = [(w0, w0)]" using trace_ask [OF t0] by blast
  obtain w1 w1' where 1: "t1 = [(w1, w1')]" "put_text (w_minio w1) (manuscript_key_of u) (manuscript body) = Inr (w_minio w1')"
    using trace_minio_put [OF t1] by blast
  obtain w2 w2' where 2: "t2 = [(w2, w2')]" "insert_job (w_db w2) u (manuscript_key_of u) (req_callback_url body) = Inr (w_db w2')"
    using trace_atomic [OF t2 [unfolded transaction_def]] by (fastforce simp: split_beta split: sum.splits)
  obtain w3 w3' e where 3: "t3 = [(w3, w3')]" "w_broker w3' = publish (w_broker w3) (JobCreated e u) Q_PARSE"
    using trace_atomic [OF t3 [unfolded publish_event_def broker_put_def]] by auto
  show ?thesis using ts 0 1 2 3 by auto
qed

lemma trace_pcatch_Ret:
  assumes "trace (pcatch p (\<lambda>_. Ret c)) ts a" and "a \<noteq> c"
  shows "trace p ts a"
proof -
  from assms(1) obtain t1 t2 r where t: "trace (ptry p) t1 r" "trace (case r of Inl e \<Rightarrow> Ret c | Inr b \<Rightarrow> Ret b) t2 a" "ts = t1 @ t2"
    unfolding pcatch_def by (blast dest: trace_pbind)
  then have "r = Inr a" "t2 = []" using assms(2) by (auto elim!: trace_RetE split: sum.splits)
  then show ?thesis using t(1,3) trace_ptry by simp
qed

lemma trace_plift: "trace (plift r) ts a \<Longrightarrow> r = Inr a \<and> ts = []"
  by (auto simp: plift_def elim: trace_RetE trace_RaiseE split: sum.splits)

lemma trace_guard:
  assumes "trace (guard_manuscript_size s rq p) ts (JobAccepted jid)"
  shows "trace p ts (JobAccepted jid)"
proof (cases "\<exists>body h. rq_route rq = PostJobs body \<and> content_length rq = Some h")
  case True
  then obtain body h where b: "rq_route rq = PostJobs body" "content_length rq = Some h" by blast
  from trace_pbind [OF assms [unfolded guard_manuscript_size_def b prod.case route.case option.case]]
  obtain t1 t2 n where t: "trace (plift (py_int h)) t1 n" "ts = t1 @ t2"
    "trace (if n > MAX_MANUSCRIPT_BYTES s then Ret (ManuscriptTooLarge (MAX_MANUSCRIPT_BYTES s)) else p) t2 (JobAccepted jid)" by blast
  then show ?thesis using trace_plift [OF t(1)] by (auto elim: trace_RetE split: if_splits)
next
  case False
  then have "guard_manuscript_size s rq p = p" by (auto simp: guard_manuscript_size_def split: route.split option.split)
  then show ?thesis using assms by simp
qed

text \<open>
  C40. Every request is answered: whatever fails and whatever other processes do between its steps, a
  request never raises and never waits, and it is answered with a status code of its route. An
  ingestion answered with 202 has made exactly three changes, in this order: the manuscript stored
  under the key of the new job, its \<open>PENDING\<close> row committed, its \<open>JobCreated\<close> published.
\<close>

theorem every_request_answered:
  "ends_by (\<lambda>r. case r of Inl e \<Rightarrow> False | Inr a \<Rightarrow> status_code a \<in> codes (rq_route rq)) (serve s rq)
    \<and> (\<forall>ts a. trace (serve s rq) ts a \<longrightarrow> status_code a = 202 \<longrightarrow>
        (\<exists>body jid w0 w1 w1' w2 w2' w3 w3' e. rq_route rq = PostJobs body \<and> a = JobAccepted jid
          \<and> ts = [(w0, w0), (w1, w1'), (w2, w2'), (w3, w3')]
          \<and> put_text (w_minio w1) (manuscript_key_of jid) (manuscript body) = Inr (w_minio w1')
          \<and> insert_job (w_db w2) jid (manuscript_key_of jid) (req_callback_url body) = Inr (w_db w2')
          \<and> w_broker w3' = publish (w_broker w3) (JobCreated e jid) Q_PARSE))"
proof (intro conjI allI impI serve_ends)
  fix ts a
  assume t: "trace (serve s rq) ts a" and a: "status_code a = 202"
  from trace_ends [OF t serve_ends] a obtain body where body: "rq_route rq = PostJobs body" by (cases "rq_route rq") auto
  obtain jid where jid: "a = JobAccepted jid" using a by (cases a) auto
  have "a \<noteq> unhandled rq" by (simp add: jid unhandled_def)
  from trace_pcatch_Ret [OF t [unfolded serve_def] this] have "trace (create_job body) ts (JobAccepted jid)"
    unfolding jid body call_route.simps by (rule trace_guard)
  from accepted_trace [OF this] body jid
  show "\<exists>body jid w0 w1 w1' w2 w2' w3 w3' e. rq_route rq = PostJobs body \<and> a = JobAccepted jid
      \<and> ts = [(w0, w0), (w1, w1'), (w2, w2'), (w3, w3')]
      \<and> put_text (w_minio w1) (manuscript_key_of jid) (manuscript body) = Inr (w_minio w1')
      \<and> insert_job (w_db w2) jid (manuscript_key_of jid) (req_callback_url body) = Inr (w_db w2')
      \<and> w_broker w3' = publish (w_broker w3) (JobCreated e jid) Q_PARSE" by auto
qed

theorem every_request_answered_witness:
  "\<exists>ts w1 w1'. trace (serve default_settings \<lparr>rq_route = PostJobs \<lparr>manuscript = [104, 105], req_callback_url = None\<rparr>, content_length = None\<rparr>)
      ts (JobAccepted ''u'') \<and> ts ! 1 = (w1, w1') \<and> put_text (w_minio w1) (manuscript_key_of ''u'') [104, 105] = Inr (w_minio w1')"
proof -
  let ?body = "\<lparr>manuscript = [104, 105], req_callback_url = None\<rparr>"
  let ?rq = "\<lparr>rq_route = PostJobs ?body, content_length = None\<rparr>"
  obtain s where s: "put_text (w_minio example_world) (manuscript_key_of ''u'') [104, 105] = Inr s"
    using example_minio_ok(2) by (auto simp: put_text_def put_bytes_def utf8_encode_def scalar_def)
  obtain d where d: "insert_job (w_db example_world) ''u'' (manuscript_key_of ''u'') None = Inr d"
    by (auto simp: insert_job_def example_world_def example_db_def)
  have "\<exists>w'. run calm (serve default_settings ?rq) example_world = (w', Done (JobAccepted ''u''))"
    using s d by (simp add: serve_def guard_manuscript_size_def create_job_def run_simps calm_def)
  then obtain w' where "run calm (serve default_settings ?rq) example_world = (w', Done (JobAccepted ''u''))" by blast
  from run_trace [OF this] obtain ts where t: "trace (serve default_settings ?rq) ts (JobAccepted ''u'')" by blast
  from conjunct2 [OF every_request_answered [of ?rq default_settings], rule_format, OF t]
  obtain w1 w1' where "ts ! 1 = (w1, w1')" "put_text (w_minio w1) (manuscript_key_of ''u'') [104, 105] = Inr (w_minio w1')"
    by auto
  with t show ?thesis by blast
qed

end
