(* ===== verification/Interference.thy ===== *)
theory Interference
  imports Liveness
begin

text \<open>
  Rely/guarantee reasoning for programs of a system whose invariant is known: a program may assume of
  each of its own steps what the invariant of the whole system says about it (\<open>J\<close>), and of the steps of
  the others the relation \<open>R\<close>; it has to guarantee \<open>G\<close>. \<open>R\<close> holds only between worlds that satisfy the
  invariant, so that a program is only looked at in such worlds.
\<close>

primrec sound :: "('w \<Rightarrow> 'w \<Rightarrow> bool) \<Rightarrow> ('w \<Rightarrow> 'w \<Rightarrow> bool) \<Rightarrow> ('w \<Rightarrow> 'w \<Rightarrow> bool) \<Rightarrow> ('a \<Rightarrow> 'w \<Rightarrow> bool) \<Rightarrow>
    ('i, 'w, 'a) prog \<Rightarrow> 'w \<Rightarrow> bool" where
  "sound J R G Q (Ret a) = (\<lambda>w. \<forall>w'. R w w' \<longrightarrow> Q a w')"
| "sound J R G Q (Raise e) = (\<lambda>w. True)"
| "sound J R G Q (Step f) =
    (\<lambda>w. \<forall>w'. R w w' \<longrightarrow> (\<forall>i. pred_option (\<lambda>(w'', ok). G w' w'' \<and> (J w' w'' \<longrightarrow> ok w''))
      (map_option (map_prod id (sound J R G Q)) (f i w'))))"

lemma sound_Step:
  "sound J R G Q (Step f) w \<longleftrightarrow>
    (\<forall>w' i w'' p. R w w' \<longrightarrow> f i w' = Some (w'', p) \<longrightarrow> G w' w'' \<and> (J w' w'' \<longrightarrow> sound J R G Q p w''))"
  by (fastforce simp: option.pred_map pred_option_def)

declare sound.simps(3) [simp del]

locale interference =
  fixes J R G :: "'w \<Rightarrow> 'w \<Rightarrow> bool"
  assumes R_trans: "R x y \<Longrightarrow> R y z \<Longrightarrow> R x z"
    and R_range: "R x y \<Longrightarrow> R y y"
    and R_step: "R x x \<Longrightarrow> G x y \<Longrightarrow> J x y \<Longrightarrow> R x y"
begin

definition stable :: "('w \<Rightarrow> bool) \<Rightarrow> bool" where
  "stable P \<longleftrightarrow> (\<forall>w w'. P w \<longrightarrow> R w w' \<longrightarrow> P w')"

lemma stableD: "stable P \<Longrightarrow> P w \<Longrightarrow> R w w' \<Longrightarrow> P w'"
  by (simp add: stable_def)

text \<open>What the others do keeps a program sound; soundness after every step of the others is soundness.\<close>

lemma sound_later: "sound J R G Q p w \<Longrightarrow> R w w' \<Longrightarrow> sound J R G Q p w'"
  by (cases p) (auto simp: sound_Step, (meson R_trans)+)

lemma sound_before: "(\<And>w'. R w w' \<Longrightarrow> sound J R G Q p w') \<Longrightarrow> sound J R G Q p w"
  by (cases p) (auto simp: sound_Step, meson R_range, meson R_range, meson R_range)

lemma sound_weaken:
  assumes "sound J R G Q p w" and "\<And>a w. R w w \<Longrightarrow> Q a w \<Longrightarrow> Q' a w"
  shows "sound J R G Q' p w"
  using assms(1)
proof (induction p arbitrary: w)
  case (Ret a)
  then show ?case using assms(2) R_range by auto
next
  case (Step f)
  show ?case
    unfolding sound_Step
  proof (intro allI impI)
    fix w' i w'' p
    assume "R w w'" and f: "f i w' = Some (w'', p)"
    with Step.prems have "G w' w'' \<and> (J w' w'' \<longrightarrow> sound J R G Q p w'')" by (auto simp: sound_Step)
    with f Step.IH [of "f i" "f i w'" "(w'', p)" p w''] rangeI [of "f i" w']
    show "G w' w'' \<and> (J w' w'' \<longrightarrow> sound J R G Q' p w'')" by simp
  qed
qed simp

lemma sound_pbind:
  assumes "sound J R G Q' p w" and "\<And>a w. R w w \<Longrightarrow> Q' a w \<Longrightarrow> sound J R G Q (k a) w"
  shows "sound J R G Q (pbind p k) w"
  using assms(1)
proof (induction p arbitrary: w)
  case (Ret a)
  then show ?case using assms(2) R_range by (auto intro: sound_before)
next
  case (Step f)
  show ?case
    unfolding pbind.simps sound_Step
  proof (intro allI impI)
    fix w' i w'' p
    assume R: "R w w'" and "map_option (map_prod id (\<lambda>p. pbind p k)) (f i w') = Some (w'', p)"
    then obtain q where q: "f i w' = Some (w'', q)" "p = pbind q k" by auto
    with Step.prems R have "G w' w'' \<and> (J w' w'' \<longrightarrow> sound J R G Q' q w'')" by (auto simp: sound_Step)
    with q Step.IH [of "f i" "f i w'" "(w'', q)" q w''] rangeI [of "f i" w']
    show "G w' w'' \<and> (J w' w'' \<longrightarrow> sound J R G Q p w'')" by simp
  qed
qed simp

lemma sound_ptry:
  assumes "sound J R G Q p w"
  shows "sound J R G (\<lambda>r w. \<forall>a. r = Inr a \<longrightarrow> Q a w) (ptry p) w"
  using assms
proof (induction p arbitrary: w)
  case (Step f)
  show ?case
    unfolding ptry.simps sound_Step
  proof (intro allI impI)
    fix w' i w'' p
    assume R: "R w w'" and "map_option (map_prod id ptry) (f i w') = Some (w'', p)"
    then obtain q where q: "f i w' = Some (w'', q)" "p = ptry q" by auto
    with Step.prems R have "G w' w'' \<and> (J w' w'' \<longrightarrow> sound J R G Q q w'')" by (auto simp: sound_Step)
    with q Step.IH [of "f i" "f i w'" "(w'', q)" q w''] rangeI [of "f i" w']
    show "G w' w'' \<and> (J w' w'' \<longrightarrow> sound J R G (\<lambda>r w. \<forall>a. r = Inr a \<longrightarrow> Q a w) p w'')" by simp
  qed
qed simp_all

text \<open>A program all of whose steps are harmless keeps what is stable.\<close>

lemma sound_steps:
  assumes "all_steps C p" and "\<And>x y. R x x \<Longrightarrow> C x y \<Longrightarrow> G x y" and "stable P" and "P w"
  shows "sound J R G (\<lambda>_. P) p w"
  using assms(1,4)
proof (induction p arbitrary: w)
  case (Ret a)
  then show ?case using assms(3) by (auto dest: stableD)
next
  case (Step f)
  show ?case
    unfolding sound_Step
  proof (intro allI impI)
    fix w' i w'' p
    assume R: "R w w'" and f: "f i w' = Some (w'', p)"
    then have "C w' w''" "all_steps C p" using Step.prems(1) by (auto simp: all_steps_Step)
    with assms(2) R_range [OF R] have "G w' w''" by blast
    moreover have "P w''" if "J w' w''"
      using R_step [OF R_range [OF R] \<open>G w' w''\<close> that] stableD [OF assms(3)] Step.prems(2) R by blast
    ultimately show "G w' w'' \<and> (J w' w'' \<longrightarrow> sound J R G (\<lambda>_. P) p w'')"
      using f \<open>all_steps C p\<close> Step.IH [of "f i" "f i w'" "(w'', p)" p w''] rangeI [of "f i" w'] by simp
  qed
qed simp

lemma sound_plift: "(\<And>a w'. r = Inr a \<Longrightarrow> R w w' \<Longrightarrow> Q a w') \<Longrightarrow> sound J R G Q (plift r) w"
  by (cases r) (simp_all add: plift_def)

lemma sound_pfinally:
  assumes "sound J R G Q p w" and "all_steps C q" and "\<And>x y. R x x \<Longrightarrow> C x y \<Longrightarrow> G x y" and "\<And>a. stable (Q a)"
  shows "sound J R G Q (pfinally p q) w"
  unfolding pfinally_def
proof (rule sound_pbind [OF sound_ptry [OF assms(1)]])
  fix r :: "'a res" and w
  assume r: "\<forall>a. r = Inr a \<longrightarrow> Q a w"
  have st: "stable (\<lambda>w. \<forall>a. r = Inr a \<longrightarrow> Q a w)" using assms(4) by (auto simp: stable_def)
  show "sound J R G Q (pbind q (\<lambda>_. plift r)) w"
  proof (rule sound_pbind [OF sound_steps [OF assms(2,3) st r]])
    fix a and w'
    assume Q: "\<forall>a. r = Inr a \<longrightarrow> Q a w'"
    show "sound J R G Q (plift r) w'" by (rule sound_plift) (use Q assms(4) in \<open>auto dest: stableD\<close>)
  qed assumption
qed

end

text \<open>The adapters of the services.\<close>

locale service_interference = interference J R G for J R G :: "world \<Rightarrow> world \<Rightarrow> bool" +
  assumes G_refl: "R x x \<Longrightarrow> G x x"
begin

lemma sound_atomic:
  assumes "stable P" and "P w" and "\<And>a. stable (Q a)"
    and "\<And>i x. R x x \<Longrightarrow> P x \<Longrightarrow> G x (fst (f i x))"
    and "\<And>i x a. R x x \<Longrightarrow> P x \<Longrightarrow> snd (f i x) = Inr a \<Longrightarrow> R x (fst (f i x)) \<Longrightarrow> Q a (fst (f i x))"
  shows "sound J R G Q (atomic f) w"
  unfolding atomic_def sound_Step
proof (intro allI impI)
  fix x i y and p :: "'a action"
  assume R: "R w x" and step: "Some (case i_fault i of
        NoFault \<Rightarrow> (fst (f i x), plift (snd (f i x)))
      | FaultBefore \<Rightarrow> (x, Raise InfraError)
      | FaultAfter \<Rightarrow> (fst (f i x), Raise InfraError)) = Some (y, p)"
  have good: "R x x" "P x" using R_range [OF R] stableD [OF assms(1,2) R] by blast+
  have G: "G x (fst (f i x))" "G x x" using assms(4) [OF good] G_refl [OF good(1)] by blast+
  have "sound J R G Q (plift (snd (f i x))) (fst (f i x))" if "J x (fst (f i x))"
    using assms(5) [OF good _ R_step [OF good(1) G(1) that]]
    by (intro sound_plift) (auto dest: stableD [OF assms(3)])
  then show "G x y \<and> (J x y \<longrightarrow> sound J R G Q p y)"
    using step G by (cases "i_fault i") auto
qed

end

end
