(* ===== verification/Audio.thy ===== *)
theory Audio
  imports Interference
begin

text \<open>
  The bytes, under all interleavings. Every entry of the content cache points to the stored audio of
  its hash, every finished task to the audio of its block, and the final object of a completed job is
  the audio of all its blocks in order. The handlers of q.tts and q.stitch are shown to keep this by
  rely/guarantee reasoning (\<open>Interference\<close>) on top of the invariant of the choreography; everything
  else in the system is inert.
\<close>

section \<open>What is stored\<close>

definition in_store :: "world \<Rightarrow> string \<Rightarrow> bool" where
  "in_store w h \<longleftrightarrow> get_bytes (w_minio w) (audio_key_of h) = Inr (audio_of h)"

definition drama :: "pystr list \<Rightarrow> bytes" where
  "drama blocks = concat (map (\<lambda>b. audio_of (hash_of b)) blocks)"

definition whole :: "Settings \<Rightarrow> world \<Rightarrow> string \<Rightarrow> bool" where
  "whole st w jid \<longleftrightarrow> get_bytes (w_minio w) (final_key_of jid) = Inr (drama (blks st w jid))"

definition cache_points :: "world \<Rightarrow> bool" where
  "cache_points w \<longleftrightarrow> (\<forall>h v. redis_get (w_redis w) (cache_key h) = Some v \<longrightarrow> v = audio_key_of h \<and> in_store w h)"

definition tasks_have_audio :: "Settings \<Rightarrow> world \<Rightarrow> bool" where
  "tasks_have_audio st w \<longleftrightarrow> (\<forall>t \<in> set (tasks (w_db w)). t_status t = T_DONE \<longrightarrow>
    (let h = hash_of (blks st w (t_job t) ! block_index t) in audio_key t = Some (audio_key_of h) \<and> in_store w h))"

definition completed_whole :: "Settings \<Rightarrow> world \<Rightarrow> bool" where
  "completed_whole st w \<longleftrightarrow> (\<forall>j \<in> set (jobs (w_db w)). j_status j = COMPLETED \<longrightarrow>
    final_key j = Some (final_key_of (j_id j)) \<and> whole st w (j_id j))"

definition audio_ok :: "Settings \<Rightarrow> world \<Rightarrow> bool" where
  "audio_ok st w \<longleftrightarrow> cache_points w \<and> tasks_have_audio st w \<and> completed_whole st w"

section \<open>Rely and guarantee\<close>

text \<open>What stays true of a job and of the objects.\<close>

definition lasting :: "Settings \<Rightarrow> world \<Rightarrow> world \<Rightarrow> bool" where
  "lasting st w w' \<longleftrightarrow>
    (\<forall>jid. get_job (w_db w) jid \<noteq> None \<longrightarrow> get_job (w_db w') jid \<noteq> None \<and> blks st w' jid = blks st w jid
      \<and> (\<forall>ms. get_text (w_minio w) (manuscript_key_of jid) = Inr ms \<longrightarrow> get_text (w_minio w') (manuscript_key_of jid) = Inr ms))
    \<and> (\<forall>jid k. row_at (w_db w) jid k \<longrightarrow> row_at (w_db w') jid k)
    \<and> (\<forall>jid. settled (w_db w) jid \<longrightarrow> settled (w_db w') jid)
    \<and> (\<forall>jid. status_in (w_db w) jid {FAILED} \<longrightarrow> status_in (w_db w') jid {FAILED})
    \<and> (\<forall>h. in_store w h \<longrightarrow> in_store w' h)
    \<and> (\<forall>jid. get_job (w_db w) jid \<noteq> None \<longrightarrow> whole st w jid \<longrightarrow> whole st w' jid \<or> status_in (w_db w') jid {FAILED})"

definition joint :: "Settings \<Rightarrow> world \<Rightarrow> world \<Rightarrow> bool" where
  "joint st w w' \<longleftrightarrow> evolves w w' \<and> db_ok st w'"

definition rely :: "Settings \<Rightarrow> world \<Rightarrow> world \<Rightarrow> bool" where
  "rely st w w' \<longleftrightarrow> db_ok st w' \<and> audio_ok st w' \<and> lasting st w w'"

definition guar :: "Settings \<Rightarrow> world \<Rightarrow> world \<Rightarrow> bool" where
  "guar st w w' \<longleftrightarrow> (evolves w w' \<longrightarrow> db_ok st w' \<longrightarrow> audio_ok st w' \<and> (\<forall>h. in_store w h \<longrightarrow> in_store w' h)
    \<and> (\<forall>jid. get_job (w_db w) jid \<noteq> None \<longrightarrow> whole st w jid \<longrightarrow> whole st w' jid \<or> status_in (w_db w') jid {FAILED}))"

lemma lasting_refl [simp]: "lasting st w w"
  by (simp add: lasting_def)

lemma lasting_D:
  assumes "lasting st w w'"
  shows "get_job (w_db w) jid \<noteq> None \<Longrightarrow> get_job (w_db w') jid \<noteq> None"
    "get_job (w_db w) jid \<noteq> None \<Longrightarrow> blks st w' jid = blks st w jid"
    "get_job (w_db w) jid \<noteq> None \<Longrightarrow> get_text (w_minio w) (manuscript_key_of jid) = Inr ms \<Longrightarrow>
      get_text (w_minio w') (manuscript_key_of jid) = Inr ms"
    "row_at (w_db w) jid k \<Longrightarrow> row_at (w_db w') jid k"
    "settled (w_db w) jid \<Longrightarrow> settled (w_db w') jid"
    "status_in (w_db w) jid {FAILED} \<Longrightarrow> status_in (w_db w') jid {FAILED}"
    "in_store w h \<Longrightarrow> in_store w' h"
    "get_job (w_db w) jid \<noteq> None \<Longrightarrow> whole st w jid \<Longrightarrow> whole st w' jid \<or> status_in (w_db w') jid {FAILED}"
  using assms unfolding lasting_def by blast+

lemma lasting_trans:
  assumes "lasting st x y" and "lasting st y z"
  shows "lasting st x z"
  unfolding lasting_def
  using lasting_D [OF assms(1)] lasting_D [OF assms(2)] by (intro conjI allI impI) metis+

lemma evolves_lasting:
  assumes "evolves w w'" and "db_ok st w" and "\<And>h. in_store w h \<Longrightarrow> in_store w' h"
    and "\<And>jid. get_job (w_db w) jid \<noteq> None \<Longrightarrow> whole st w jid \<Longrightarrow> whole st w' jid \<or> status_in (w_db w') jid {FAILED}"
  shows "lasting st w w'"
proof -
  have k: "kept (w_db w) (w_db w')" using assms(1) by (simp add: evolves_def)
  have failed: "status_in (w_db w) jid {FAILED} \<Longrightarrow> status_in (w_db w') jid {FAILED}" for jid
    by (erule status_in_kept [OF _ k]) (auto simp: can_transition_iff)
  show ?thesis
    unfolding lasting_def
    using exists_kept [OF _ k] blks_evolves [OF assms(1,2)] failed k assms(1,3,4)
    by (intro conjI allI impI) (auto simp: kept_def evolves_def)
qed

interpretation audio: service_interference "joint st" "rely st" "guar st" for st
proof
  show "rely st x y \<Longrightarrow> rely st y z \<Longrightarrow> rely st x z" for x y z
    using lasting_trans by (auto simp: rely_def)
  show "rely st x y \<Longrightarrow> rely st y y" for x y by (simp add: rely_def)
  show "rely st x x \<Longrightarrow> guar st x y \<Longrightarrow> joint st x y \<Longrightarrow> rely st x y" for x y
    using evolves_lasting [of x y st] by (auto simp: rely_def guar_def joint_def)
  show "rely st x x \<Longrightarrow> guar st x x" for x
    by (auto simp: rely_def guar_def)
qed

section \<open>Inert steps\<close>

definition no_new :: "db \<Rightarrow> db \<Rightarrow> bool" where
  "no_new d d' \<longleftrightarrow>
    (\<forall>t' \<in> set (tasks d'). t_status t' = T_DONE \<longrightarrow>
      (\<exists>t \<in> set (tasks d). t_status t = T_DONE \<and> t_job t = t_job t' \<and> block_index t = block_index t' \<and> audio_key t = audio_key t'))
    \<and> (\<forall>j' \<in> set (jobs d'). j_status j' = COMPLETED \<longrightarrow>
      (\<exists>j \<in> set (jobs d). j_status j = COMPLETED \<and> j_id j = j_id j' \<and> final_key j = final_key j'))"

definition objects_kept :: "minio \<Rightarrow> minio \<Rightarrow> bool" where
  "objects_kept s s' \<longleftrightarrow>
    (\<forall>h. get_bytes s (audio_key_of h) = Inr (audio_of h) \<longrightarrow> get_bytes s' (audio_key_of h) = Inr (audio_of h))
    \<and> (\<forall>jid x. get_bytes s (final_key_of jid) = Inr x \<longrightarrow> get_bytes s' (final_key_of jid) = Inr x)"

definition cache_kept :: "redis \<Rightarrow> redis \<Rightarrow> bool" where
  "cache_kept r r' \<longleftrightarrow> (\<forall>h v. redis_get r' (cache_key h) = Some v \<longrightarrow> redis_get r (cache_key h) = Some v)"

definition inert :: "world \<Rightarrow> world \<Rightarrow> bool" where
  "inert w w' \<longleftrightarrow> no_new (w_db w) (w_db w') \<and> objects_kept (w_minio w) (w_minio w') \<and> cache_kept (w_redis w) (w_redis w')"

lemma no_new_refl [simp]: "no_new d d"
  by (auto simp: no_new_def)

lemma kept_refls [simp]: "objects_kept s s" "cache_kept r r"
  by (simp_all add: objects_kept_def cache_kept_def)

lemma inert_refl [simp]: "inert w w"
  by (simp add: inert_def)

lemma inert_updates [simp]:
  "inert w (w\<lparr>w_broker := b\<rparr>)" "inert w (w\<lparr>w_heartbeats := hs\<rparr>)" "inert w (w\<lparr>w_webhooks := x\<rparr>)"
  "inert w (w\<lparr>w_redis := r\<rparr>) = cache_kept (w_redis w) r" "inert w (w\<lparr>w_db := d\<rparr>) = no_new (w_db w) d"
  "inert w (w\<lparr>w_minio := s\<rparr>) = objects_kept (w_minio w) s"
  by (simp_all add: inert_def)

lemma job_of_task: "wf_db d \<Longrightarrow> t \<in> set (tasks d) \<Longrightarrow> get_job d (t_job t) \<noteq> None"
  by (auto simp: wf_db_def row_get_None_iff)

lemma job_of_row: "j \<in> set (jobs d) \<Longrightarrow> get_job d (j_id j) \<noteq> None"
  by (auto simp: row_get_None_iff)

lemma objects_kept_D:
  assumes "objects_kept (w_minio w) (w_minio w')"
  shows "in_store w h \<Longrightarrow> in_store w' h" "whole st w jid \<Longrightarrow> blks st w' jid = blks st w jid \<Longrightarrow> whole st w' jid"
  using assms by (auto simp: objects_kept_def in_store_def whole_def)

lemma audio_ok_step:
  assumes ev: "evolves w w'" and ok: "db_ok st w" "audio_ok st w"
    and new: "no_new (w_db w) (w_db w')" and cache: "cache_kept (w_redis w) (w_redis w')"
    and store: "\<And>h. in_store w h \<Longrightarrow> in_store w' h"
    and wh: "\<And>j. j \<in> set (jobs (w_db w)) \<Longrightarrow> j_status j = COMPLETED \<Longrightarrow> whole st w (j_id j) \<Longrightarrow> whole st w' (j_id j)"
  shows "audio_ok st w'"
proof -
  have a: "cache_points w" "tasks_have_audio st w" "completed_whole st w" using ok(2) by (simp_all add: audio_ok_def)
  have "cache_points w'" using a(1) cache store unfolding cache_points_def cache_kept_def by blast
  moreover have "tasks_have_audio st w'"
    unfolding tasks_have_audio_def Let_def
  proof (intro ballI impI)
    fix t' assume "t' \<in> set (tasks (w_db w'))" "t_status t' = T_DONE"
    with new obtain t where t: "t \<in> set (tasks (w_db w))" "t_status t = T_DONE" "t_job t = t_job t'"
      "block_index t = block_index t'" "audio_key t = audio_key t'" unfolding no_new_def by blast
    have "blks st w' (t_job t) = blks st w (t_job t)"
      by (rule blks_evolves [OF ev ok(1) job_of_task [OF db_ok_D(1) [OF ok(1)] t(1)]])
    moreover have "audio_key t = Some (audio_key_of (hash_of (blks st w (t_job t) ! block_index t)))
        \<and> in_store w (hash_of (blks st w (t_job t) ! block_index t))"
      using a(2) t(1,2) by (auto simp: tasks_have_audio_def Let_def)
    ultimately show "audio_key t' = Some (audio_key_of (hash_of (blks st w' (t_job t') ! block_index t')))
        \<and> in_store w' (hash_of (blks st w' (t_job t') ! block_index t'))"
      using t(3-5) store by simp
  qed
  moreover have "completed_whole st w'"
    unfolding completed_whole_def
  proof (intro ballI impI)
    fix j' assume "j' \<in> set (jobs (w_db w'))" "j_status j' = COMPLETED"
    with new obtain j where j: "j \<in> set (jobs (w_db w))" "j_status j = COMPLETED" "j_id j = j_id j'" "final_key j = final_key j'"
      unfolding no_new_def by blast
    with a(3) have "final_key j = Some (final_key_of (j_id j)) \<and> whole st w (j_id j)" unfolding completed_whole_def by blast
    with wh [OF j(1,2)] j(3,4) show "final_key j' = Some (final_key_of (j_id j')) \<and> whole st w' (j_id j')" by simp
  qed
  ultimately show ?thesis by (simp add: audio_ok_def)
qed

lemma inert_guar:
  assumes "rely st w w" and "inert w w'"
  shows "guar st w w'"
proof -
  have ok: "db_ok st w" "audio_ok st w" using assms(1) by (simp_all add: rely_def)
  note o = objects_kept_D [where w = w and w' = w']
  show ?thesis
    unfolding guar_def
  proof (intro impI conjI allI)
    assume ev: "evolves w w'"
    have i: "no_new (w_db w) (w_db w')" "objects_kept (w_minio w) (w_minio w')" "cache_kept (w_redis w) (w_redis w')"
      using assms(2) by (simp_all add: inert_def)
    have wh: "whole st w' jid" if "get_job (w_db w) jid \<noteq> None" "whole st w jid" for jid
      by (rule o(2) [OF i(2) that(2) blks_evolves [OF ev ok(1) that(1)]])
    show "audio_ok st w'"
      by (rule audio_ok_step [OF ev ok i(1,3) o(1) [OF i(2)]]) (assumption, rule wh [OF job_of_row])
    show "in_store w' h" if "in_store w h" for h using o(1) [OF i(2) that] .
    show "whole st w' jid \<or> status_in (w_db w') jid {FAILED}" if "get_job (w_db w) jid \<noteq> None" "whole st w jid" for jid
      using wh [OF that] ..
  qed
qed

section \<open>The transactions that finish nothing\<close>

lemma no_new_jobs:
  assumes "tasks d' = tasks d" and "jobs d' = sql_update P f (jobs d)"
    and "\<And>j. j_id (f j) = j_id j \<and> final_key (f j) = final_key j" and "\<And>j. j_status (f j) = COMPLETED \<Longrightarrow> j_status j = COMPLETED"
  shows "no_new d d'"
  using assms by (fastforce simp: no_new_def sql_update_def)

lemma no_new_same: "tasks d' = tasks d \<Longrightarrow> jobs d' = jobs d \<Longrightarrow> no_new d d'"
  by (auto simp: no_new_def)

lemma no_new_advance: "s \<noteq> COMPLETED \<Longrightarrow> no_new d (fst (advance_status d jid s))"
  unfolding advance_status_def Let_def fst_conv
  by (rule no_new_jobs [where P = "\<lambda>j. j_id j = jid \<and> j_status j \<in> set (expected_for s)"
        and f = "\<lambda>j. j\<lparr>j_status := s, j_updated_at := db_now d\<rparr>"]) simp_all

lemma no_new_begin_parse: "no_new d (fst (begin_parse d jid n))"
  unfolding begin_parse_def Let_def fst_conv
  by (rule no_new_jobs [where P = "\<lambda>j. j_id j = jid \<and> j_status j = PENDING"
        and f = "\<lambda>j. j\<lparr>j_status := PARSING, pending_count := n, j_updated_at := db_now d\<rparr>"]) simp_all

lemma no_new_trans: "no_new d d1 \<Longrightarrow> no_new d1 d2 \<Longrightarrow> no_new d d2"
  unfolding no_new_def by (intro conjI) metis+

lemma insert_tasks_rows:
  "insert_tasks rows d = Inr d' \<Longrightarrow> set (tasks d') \<subseteq> set (tasks d) \<union> set rows"
proof (induction rows arbitrary: d)
  case (Cons r rows)
  then consider "insert_tasks rows d = Inr d'"
    | "insert_tasks rows (d\<lparr>tasks := tasks d @ [r]\<rparr>) = Inr d'"
    by (auto split: if_splits)
  then show ?case using Cons.IH by cases fastforce+
qed simp

lemma task_rows_pending: "task_rows now jid blocks = Inr rows \<Longrightarrow> t \<in> set rows \<Longrightarrow> t_status t = T_PENDING"
proof -
  have "map_res (task_row now jid) xs = Inr rows \<Longrightarrow> t \<in> set rows \<Longrightarrow> t_status t = T_PENDING" for xs
    by (induction xs arbitrary: rows) (auto simp: bind_res_Inr_iff task_row_def)
  then show "task_rows now jid blocks = Inr rows \<Longrightarrow> t \<in> set rows \<Longrightarrow> t_status t = T_PENDING"
    by (simp add: task_rows_def)
qed

lemma no_new_parse: "no_new d (fst (parse_transaction jid blocks d))"
proof (cases "bind_res (task_rows (db_now d) jid blocks) (\<lambda>rows. insert_tasks rows d)")
  case (Inl e)
  then show ?thesis by (simp add: parse_transaction_def)
next
  case (Inr d1)
  then obtain rows where rows: "task_rows (db_now d) jid blocks = Inr rows" "insert_tasks rows d = Inr d1"
    by (auto simp: bind_res_Inr_iff)
  have "no_new d d1"
    using insert_tasks_rows [OF rows(2)] insert_tasks_jobs [OF rows(2)] task_rows_pending [OF rows(1)]
    by (fastforce simp: no_new_def)
  then show ?thesis
    using no_new_trans [OF _ no_new_begin_parse] Inr by (simp add: parse_transaction_def split_beta)
qed

lemma no_new_insert: "insert_job d jid key cb = Inr d' \<Longrightarrow> no_new d d'"
  by (auto simp: insert_job_def no_new_def split: if_splits)

lemma no_new_decrement: "no_new e (fst (decrement_pending e jid))"
  by (rule no_new_jobs [where P = "\<lambda>j. j_id j = jid" and f = "\<lambda>j. j\<lparr>pending_count := pending_count j - 1, j_updated_at := db_now e\<rparr>"])
     (simp_all add: decrement_pending_def Let_def)

lemma no_new_fail: "no_new d (fst (fail_task_and_decrement d jid tid))"
proof -
  define e where "e = d\<lparr>tasks := sql_update (\<lambda>t. t_id t = tid \<and> t_status t \<notin> {T_DONE, T_FAILED})
    (\<lambda>t. t\<lparr>t_status := T_FAILED, t_updated_at := db_now d\<rparr>) (tasks d)\<rparr>"
  have "no_new d e" by (auto simp: e_def no_new_def sql_update_def split: if_splits)
  then have "no_new d (fst (decrement_pending e jid))" by (rule no_new_trans [OF _ no_new_decrement])
  then show ?thesis
    unfolding fail_task_and_decrement_def Let_def e_def [symmetric]
    by (cases "decrement_pending e jid"; cases "snd (decrement_pending e jid)") simp_all
qed

section \<open>Inert programs\<close>

lemma inert_redis: "(\<And>r. cache_kept r (fst (c r))) \<Longrightarrow> all_steps inert (redis_cmd c)"
  unfolding redis_cmd_def by (rule all_steps_atomic) (simp_all add: split_beta Let_def)

lemma inert_transaction: "(\<And>d. no_new d (fst (t d))) \<Longrightarrow> all_steps inert (transaction t)"
  by (rule all_steps_transaction) simp_all

lemma inert_adapters:
  "all_steps inert (minio_get g)" "all_steps inert (ask x)" "all_steps inert pskip" "all_steps inert (read_db rq)"
  "all_steps inert (stop_heartbeat ctx token)" "all_steps inert (broker_put bp)" "all_steps inert (publish_event ev key)"
  "all_steps inert (post_webhook url jid fk)" "all_steps inert (do_cache_get ctx h)"
  unfolding publish_event_def do_cache_get_def
  by (simp_all add: all_steps_minio_get all_steps_ask all_steps_pskip read_db_def inert_transaction inert_redis
      stop_heartbeat_def post_webhook_def all_steps_Step all_steps_broker_put)

lemma cache_kept_commands [simp]:
  "cache_kept r (redis_rpush r k v)" "cache_kept r (redis_delete r k)"
  "k \<noteq> cache_key h \<Longrightarrow> redis_get (redis_put r k v ex) (cache_key h) = redis_get r (cache_key h)"
  by (simp_all add: cache_kept_def redis_get_put)

lemma cache_kept_put: "(\<And>h. k \<noteq> cache_key h) \<Longrightarrow> cache_kept r (redis_put r k v ex)"
  by (metis cache_kept_def redis_get_put)

lemma cache_kept_nx: "(\<And>h. k \<noteq> cache_key h) \<Longrightarrow> cache_kept r (fst (redis_set_nx r k v ex))"
  "(\<And>h. k \<noteq> cache_key h) \<Longrightarrow> cache_kept r (fst (redis_set_xx r k v ex))"
  by (simp_all add: redis_set_nx_def redis_set_xx_def cache_kept_put)

lemma inflight_not_cache: "inflight_key a \<noteq> cache_key b"
  using key_families(4) [of b a] by metis

lemma cache_kept_semaphore:
  "cache_kept r (acquire_lease self token owner r)" "cache_kept r (release_delete self token r)"
  "cache_kept r (release_push self token r)" "cache_kept r (heartbeat_renew self token owner r)"
  "cache_kept r (fst (reclaim self token r))" "cache_kept r (fst (acquire_inflight ca h owner r))"
  "cache_kept r (release_inflight ca h r)"
  by (simp_all add: acquire_lease_def release_delete_def release_push_def heartbeat_renew_def reclaim_def
      acquire_inflight_def release_inflight_def cache_kept_nx inflight_not_cache)

lemma cache_kept_pop: "acquire_pop self r = Some (r', v) \<Longrightarrow> cache_kept r r'"
  by (auto simp: acquire_pop_def redis_lpop_def cache_kept_def redis_get_def split: list.splits option.splits)

lemma cache_kept_ensure: "slots_key self = SLOTS_KEY \<Longrightarrow> cache_kept r (ensure_slots self r)"
proof -
  assume s: "slots_key self = SLOTS_KEY"
  have "redis_get (fold (\<lambda>tok r. redis_rpush r k tok) toks r1) x = redis_get r1 x" for toks r1 k x
    by (induction toks arbitrary: r1) simp_all
  moreover have "init_marker self \<noteq> cache_key h" for h using key_families(11) [of h] by (metis init_marker_def s)
  ultimately show ?thesis
    using cache_kept_put [of "init_marker self"] by (simp add: ensure_slots_def Let_def cache_kept_def)
qed

lemma cache_kept_tick: "cache_kept r (redis_tick r dt)"
  by (auto simp: cache_kept_def redis_get_def redis_tick_def split: option.splits if_splits)

lemma inert_acquire: "all_steps inert (sem_acquire ctx owner)"
  unfolding sem_acquire_def
  by (intro all_steps_pbind all_steps_blocking inert_redis all_steps_local_step)
     (auto simp: start_heartbeat_def cache_kept_semaphore cache_kept_pop)

lemma inert_release: "all_steps inert (sem_release ctx token)"
  unfolding sem_release_def by (intro all_steps_pbind inert_adapters inert_redis) (simp_all add: cache_kept_semaphore)

lemma inert_emit: "all_steps inert (emit_stitch jid)"
  unfolding emit_stitch_def by (rule inert_adapters)

lemma inert_after_decrement: "all_steps inert (after_decrement jid r)"
  unfolding after_decrement_def by (auto intro!: all_steps_pbind inert_adapters inert_emit split: option.split)

lemma inert_notify: "all_steps inert (notify ctx jid)"
  unfolding notify_def Let_def by (auto intro!: all_steps_pbind all_steps_plift inert_adapters split: option.split)

lemma inert_route: "all_steps inert (route_failed ctx q m e)"
  unfolding route_failed_def by (intro all_steps_pbind all_steps_plift inert_adapters)

lemma inert_parse: "all_steps inert (handle_parse ctx ev)"
proof -
  have "all_steps inert (fan_out jid n)" for jid n
    unfolding fan_out_def by (simp add: inert_adapters all_steps_pfor)
  then show ?thesis
    unfolding handle_parse_def Let_def
    by (intro all_steps_pbind inert_adapters all_steps_plift inert_transaction)
       (simp_all add: no_new_parse no_new_advance split_beta)
qed

lemma inert_dlq: "all_steps inert (make_dlq_handler ctx m)"
  unfolding make_dlq_handler_def handle_dlq_def
  by (auto intro!: all_steps_pbind all_steps_ptry all_steps_plift inert_transaction inert_emit
      simp: dlq_fail_task_def dlq_fail_job_def emit_stitch_for_def no_new_fail no_new_advance split_beta
      split: option.splits json.splits sum.split)

lemma objects_kept_text: "put_text s (manuscript_key_of jid) ms = Inr s' \<Longrightarrow> objects_kept s s'"
  by (auto simp: put_text_def bind_res_Inr_iff objects_kept_def bucket.read_write)

lemma objects_kept_bucket: "objects_kept s (ensure_bucket s)"
  by (auto simp: objects_kept_def get_bytes_def ensure_bucket_def split: if_splits)

lemma inert_serve: "all_steps inert (serve st rq)"
proof -
  have "all_steps inert (transaction (\<lambda>d. case insert_job d jid key cb of Inl e \<Rightarrow> (d, Inl e) | Inr d' \<Rightarrow> (d', Inr ())))" for jid key cb
    by (rule inert_transaction) (auto simp: no_new_insert split: sum.split)
  moreover have "all_steps inert (minio_put (\<lambda>s. put_text s (manuscript_key_of jid) ms))" for jid ms
    by (rule all_steps_minio_put) (simp_all add: objects_kept_text)
  ultimately have "all_steps inert (call_route r)" for r
    by (cases r) (auto simp: create_job_def stats_def get_status_def Let_def
        intro!: all_steps_pbind inert_adapters split: option.split)
  then show ?thesis
    unfolding serve_def guard_manuscript_size_def
    by (auto intro!: all_steps_pcatch all_steps_pbind simp del: call_route.simps split: route.split option.split)
qed

lemma inert_background: "background st t \<Longrightarrow> all_steps inert t"
proof (induction rule: background.induct)
  case (request rq)
  then show ?case by (intro all_steps_pbind inert_serve) simp
next
  case sweeper
  have "no_new d (fst (purge_processed_events d n))" for d n
    by (rule no_new_same) (simp_all add: purge_processed_events_def Let_def)
  then show ?case
    unfolding sweeper_pass_def sweep_once_def purge_once_def
    by (intro all_steps_pbind all_steps_pcatch all_steps_pfor inert_adapters inert_transaction) (simp_all add: split_beta)
qed (auto simp: reseed_pass_def reap_pass_def build_context_def gateway_startup_def Let_def context_of_def cache_kept_semaphore
      cache_kept_ensure objects_kept_bucket
      intro!: all_steps_pbind all_steps_pcatch all_steps_pfor all_steps_plift inert_adapters inert_redis all_steps_minio_put)

section \<open>One block\<close>

abbreviation keeps_audio :: "Settings \<Rightarrow> ('a \<Rightarrow> world \<Rightarrow> bool) \<Rightarrow> 'a action \<Rightarrow> world \<Rightarrow> bool" where
  "keeps_audio st \<equiv> sound (joint st) (rely st) (guar st)"

lemma keeps_inert:
  "all_steps inert p \<Longrightarrow> audio.stable st P \<Longrightarrow> P w \<Longrightarrow> keeps_audio st (\<lambda>_. P) p w"
  by (rule audio.sound_steps [OF _ inert_guar])

lemma keeps_inert_pbind:
  assumes "all_steps inert p" and "audio.stable st P" and "P w" and "\<And>a w. rely st w w \<Longrightarrow> P w \<Longrightarrow> keeps_audio st Q (k a) w"
  shows "keeps_audio st Q (pbind p k) w"
  by (rule audio.sound_pbind [OF keeps_inert [OF assms(1-3)]]) (rule assms(4))

text \<open>What the handler of a block knows: which row it works on, the text, and where the audio is.\<close>

definition on_row :: "string \<Rightarrow> nat \<Rightarrow> world \<Rightarrow> bool" where
  "on_row jid k w \<longleftrightarrow> row_at (w_db w) jid k \<and> get_job (w_db w) jid \<noteq> None"

definition on_block :: "Settings \<Rightarrow> string \<Rightarrow> nat \<Rightarrow> pystr \<Rightarrow> world \<Rightarrow> bool" where
  "on_block st jid k block w \<longleftrightarrow> on_row jid k w \<and> blks st w jid ! k = block"

definition has_audio :: "Settings \<Rightarrow> string \<Rightarrow> nat \<Rightarrow> string \<Rightarrow> string \<Rightarrow> world \<Rightarrow> bool" where
  "has_audio st jid k h key w \<longleftrightarrow> on_row jid k w \<and> hash_of (blks st w jid ! k) = h \<and> key = audio_key_of h \<and> in_store w h"

definition manuscript_is :: "string \<Rightarrow> nat \<Rightarrow> pystr \<Rightarrow> world \<Rightarrow> bool" where
  "manuscript_is jid k ms w \<longleftrightarrow> on_row jid k w \<and> get_text (w_minio w) (manuscript_key_of jid) = Inr ms"

lemma stable_block [simp]:
  "audio.stable st (on_row jid k)" "audio.stable st (on_block st jid k block)" "audio.stable st (has_audio st jid k h key)"
  "audio.stable st (manuscript_is jid k ms)"
  unfolding audio.stable_def rely_def on_row_def on_block_def has_audio_def manuscript_is_def
  by (auto dest: lasting_D)

lemma stable_if [simp]: "audio.stable st P \<Longrightarrow> audio.stable st (\<lambda>w. c \<longrightarrow> P w)"
  "audio.stable st P \<Longrightarrow> audio.stable st P' \<Longrightarrow> audio.stable st (\<lambda>w. P w \<and> P' w)" "audio.stable st (\<lambda>_. c)"
  by (auto simp: audio.stable_def)

lemma row_index:
  assumes "db_ok st w" and "row_at (w_db w) jid k"
  shows "k < length (blks st w jid)"
  using db_ok_D(5) [OF assms(1)] assms(2) by (auto simp: row_at_def)

lemma capped_nth: "k < length (capped n xs) \<Longrightarrow> capped n xs ! k = xs ! k"
  by (simp add: capped_def py_take_def split: if_splits)

lemma task_of_id:
  assumes "task_ids_ok d" and "get_task d (task_id_of jid k) = Some t"
  shows "t_job t = jid" "block_index t = k"
proof -
  have "t \<in> set (tasks d)" "t_id t = task_id_of jid k" using row_get_SomeD [OF assms(2)] by auto
  with assms(1) have "task_id_of (t_job t) (block_index t) = task_id_of jid k" by (metis task_ids_ok_def)
  then show "t_job t = jid" "block_index t = k" by auto
qed

lemma keeps_load:
  assumes "on_row jid k w"
  shows "keeps_audio st (on_block st jid k) (load_block_text ctx jid (task_id_of jid k)) w"
  unfolding load_block_text_def
proof (rule audio.sound_pbind [where Q' = "\<lambda>(index, key) w. on_row jid k w \<and> index = k \<and> key = manuscript_key_of jid"])
  show "keeps_audio st (\<lambda>(index, key) w. on_row jid k w \<and> index = k \<and> key = manuscript_key_of jid)
      (read_db (load_task jid (task_id_of jid k))) w"
    unfolding read_db_def transaction_def
  proof (rule audio.sound_atomic [where P = "on_row jid k"])
    fix i x a
    assume "rely st x x" "on_row jid k x"
      and "snd (let (d, r) = (w_db x, load_task jid (task_id_of jid k) (w_db x)) in (x\<lparr>w_db := d\<rparr>, r)) = Inr a"
    moreover from this obtain t j where "get_task (w_db x) (task_id_of jid k) = Some t" "get_job (w_db x) jid = Some j"
      "a = (block_index t, manuscript_key j)" by (auto simp: load_task_def split: option.splits)
    ultimately show "(case a of (index, key) \<Rightarrow> \<lambda>w. on_row jid k w \<and> index = k \<and> key = manuscript_key_of jid)
        (fst (let (d, r) = (w_db x, load_task jid (task_id_of jid k) (w_db x)) in (x\<lparr>w_db := d\<rparr>, r)))"
      using task_of_id(2) [of "w_db x"] db_ok_D(2,6) [of st x] by (simp add: rely_def)
  qed (use assms in \<open>auto intro: inert_guar\<close>)
next
  fix a and w :: world
  assume a: "(case a of (index, key) \<Rightarrow> \<lambda>w. on_row jid k w \<and> index = k \<and> key = manuscript_key_of jid) w"
  obtain index key where "a = (index, key)" by (cases a)
  with a have ak: "a = (k, manuscript_key_of jid)" "on_row jid k w" by auto
  have get: "keeps_audio st (\<lambda>ms w. manuscript_is jid k ms w) (minio_get (\<lambda>s. get_text s (manuscript_key_of jid))) w"
    unfolding minio_get_def
    by (rule audio.sound_atomic [where P = "on_row jid k"]) (use ak(2) in \<open>simp_all add: inert_guar, simp add: manuscript_is_def\<close>)
  have "keeps_audio st (on_block st jid k)
      (let blocks = split_blocks ms in if length blocks \<le> k then Raise RuntimeError else Ret (blocks ! k)) w"
    if "rely st w w" "manuscript_is jid k ms w" for ms w
  proof -
    have m: "on_row jid k w'" "blks st w' jid ! k = split_blocks ms ! k" if "rely st w w'" for w'
    proof -
      have m': "manuscript_is jid k ms w'" using audio.stableD [OF stable_block(4)] that \<open>manuscript_is jid k ms w\<close> by blast
      then show "on_row jid k w'" by (simp add: manuscript_is_def)
      have "db_ok st w'" using that by (simp add: rely_def)
      then have "k < length (blks st w' jid)" using m' row_index by (auto simp: manuscript_is_def on_row_def)
      then show "blks st w' jid ! k = split_blocks ms ! k" using m' capped_nth by (simp add: manuscript_is_def blks_def)
    qed
    show ?thesis using m by (simp add: Let_def on_block_def)
  qed
  then show "keeps_audio st (on_block st jid k) (case a of (index, key) \<Rightarrow>
      pbind (minio_get (\<lambda>s. get_text s key)) (\<lambda>manuscript. let blocks = split_blocks manuscript in
        if length blocks \<le> index then Raise RuntimeError else Ret (blocks ! index))) w"
    unfolding ak prod.case by (intro audio.sound_pbind [OF get])
qed

lemma hash_of_Inr: "content_hash b = Inr h \<Longrightarrow> hash_of b = h"
  by (simp add: hash_of_def)

lemma final_not_audio [simp]: "final_key_of jid \<noteq> audio_key_of h"
  by (simp add: final_key_of_def audio_key_of_def)

lemma objects_kept_audio:
  "put_bytes s (audio_key_of h) (audio_of h) c = Inr s' \<Longrightarrow> objects_kept s s'"
  by (auto simp: objects_kept_def bucket.read_write)

lemma keeps_generate:
  assumes "content_hash block = Inr h" and "on_block st jid k block w"
  shows "keeps_audio st (\<lambda>_. has_audio st jid k h (audio_key_of h)) (generate (audio_key_of h) block) w"
  unfolding generate_def
proof (rule keeps_inert_pbind [OF inert_adapters(3) stable_block(2) assms(2)])
  fix a and w :: world
  assume w: "on_block st jid k block w"
  have put: "keeps_audio st (\<lambda>_. has_audio st jid k h (audio_key_of h))
      (minio_put (\<lambda>s. put_bytes s (audio_key_of h) (audio_of h) ''audio/wav'')) w"
    unfolding minio_put_def
  proof (rule audio.sound_atomic [where P = "on_block st jid k block", OF stable_block(2) w stable_block(3)])
    fix i x
    assume r: "rely st x x" and b: "on_block st jid k block x"
    show "guar st x (fst (case put_bytes (w_minio x) (audio_key_of h) (audio_of h) ''audio/wav'' of
        Inl e \<Rightarrow> (x, Inl e) | Inr s \<Rightarrow> (x\<lparr>w_minio := s\<rparr>, Inr ())))"
      by (rule inert_guar [OF r]) (auto split: sum.split dest: objects_kept_audio)
    fix u
    assume "snd (case put_bytes (w_minio x) (audio_key_of h) (audio_of h) ''audio/wav'' of
        Inl e \<Rightarrow> (x, Inl e) | Inr s \<Rightarrow> (x\<lparr>w_minio := s\<rparr>, Inr ())) = Inr u"
    then obtain s where s: "put_bytes (w_minio x) (audio_key_of h) (audio_of h) ''audio/wav'' = Inr s" by (auto split: sum.splits)
    have "blks st (x\<lparr>w_minio := s\<rparr>) jid = blks st x jid" using get_text_put_bytes [OF s] by (simp add: blks_def)
    moreover have "get_bytes s (audio_key_of h) = Inr (audio_of h)" by (simp add: bucket.read_write [OF s])
    ultimately show "has_audio st jid k h (audio_key_of h)
        (fst (case put_bytes (w_minio x) (audio_key_of h) (audio_of h) ''audio/wav'' of
          Inl e \<Rightarrow> (x, Inl e) | Inr s \<Rightarrow> (x\<lparr>w_minio := s\<rparr>, Inr ())))"
      using b hash_of_Inr [OF assms(1)] by (simp add: s has_audio_def on_block_def on_row_def in_store_def)
  qed
  have "tts_fake_audio block = Inr (audio_of h)" using assms(1) by (simp add: tts_fake_audio_def audio_of_def)
  with put show "keeps_audio st (\<lambda>_. has_audio st jid k h (audio_key_of h))
      (pbind (plift (tts_fake_audio block)) (\<lambda>audio. minio_put (\<lambda>s. put_bytes s (audio_key_of h) audio ''audio/wav''))) w"
    by (simp add: plift_def)
qed

lemma keeps_cache_set:
  assumes "has_audio st jid k h (audio_key_of h) w"
  shows "keeps_audio st (\<lambda>_. has_audio st jid k h (audio_key_of h))
    (redis_cmd (\<lambda>r. (cache_set ca h (audio_key_of h) r, ()))) w"
  unfolding redis_cmd_def Let_def split_beta
proof (rule audio.sound_atomic [where P = "has_audio st jid k h (audio_key_of h)", OF stable_block(3) assms stable_block(3)])
  fix i x
  assume r: "rely st x x" and b: "has_audio st jid k h (audio_key_of h) x"
  let ?w = "x\<lparr>w_redis := cache_set ca h (audio_key_of h) (w_redis x)\<rparr>"
  have "audio_ok st x" using r by (simp add: rely_def)
  then have "audio_ok st ?w"
    using b
    by (auto simp: audio_ok_def cache_points_def tasks_have_audio_def completed_whole_def whole_def blks_def in_store_def
        has_audio_def cache_set_def redis_get_put split: if_splits)
  then show "guar st x (fst (x\<lparr>w_redis := fst (cache_set ca h (audio_key_of h) (w_redis x), ())\<rparr>,
      Inr (snd (cache_set ca h (audio_key_of h) (w_redis x), ()))))"
    by (simp add: guar_def in_store_def whole_def blks_def)
  show "has_audio st jid k h (audio_key_of h) (fst (x\<lparr>w_redis := fst (cache_set ca h (audio_key_of h) (w_redis x), ())\<rparr>,
      Inr (snd (cache_set ca h (audio_key_of h) (w_redis x), ()))))"
    using b by (simp add: has_audio_def on_row_def in_store_def blks_def)
qed

lemma keeps_slot:
  assumes "\<And>w. rely st w w \<Longrightarrow> P w \<Longrightarrow> keeps_audio st Q p w" and "audio.stable st P" and "\<And>a. audio.stable st (Q a)" and "P w"
  shows "keeps_audio st Q (slot ctx owner p) w"
  unfolding slot_def
  by (rule keeps_inert_pbind [OF inert_acquire assms(2,4)])
     (rule audio.sound_pfinally [OF assms(1) inert_release inert_guar assms(3)])

text \<open>A hit of the cache gives the key of stored audio.\<close>

lemma keeps_cache_get:
  assumes "on_block st jid k block w" and "content_hash block = Inr h"
  shows "keeps_audio st (\<lambda>url w. on_block st jid k block w \<and> (\<forall>u. url = Some u \<longrightarrow> has_audio st jid k h u w)) (do_cache_get ctx h) w"
  unfolding do_cache_get_def redis_cmd_def Let_def split_beta
proof (rule audio.sound_atomic [where P = "on_block st jid k block", OF stable_block(2) assms(1)])
  show "audio.stable st (\<lambda>w. on_block st jid k block w \<and> (\<forall>u. a = Some u \<longrightarrow> has_audio st jid k h u w))" for a
    by (cases a) (simp_all add: stable_if)
  fix i x
  assume r: "rely st x x" and b: "on_block st jid k block x"
  then show "guar st x (fst (x\<lparr>w_redis := fst (w_redis x, cache_get (cache ctx) h (w_redis x))\<rparr>,
      Inr (snd (w_redis x, cache_get (cache ctx) h (w_redis x)))))"
    by (intro inert_guar) simp_all
  fix a
  assume a: "snd (x\<lparr>w_redis := fst (w_redis x, cache_get (cache ctx) h (w_redis x))\<rparr>,
      Inr (snd (w_redis x, cache_get (cache ctx) h (w_redis x)))) = Inr a"
  have "cache_points x" using r by (simp add: rely_def audio_ok_def)
  then show "on_block st jid k block (fst (x\<lparr>w_redis := fst (w_redis x, cache_get (cache ctx) h (w_redis x))\<rparr>,
        Inr (snd (w_redis x, cache_get (cache ctx) h (w_redis x)))))
      \<and> (\<forall>u. a = Some u \<longrightarrow> has_audio st jid k h u (fst (x\<lparr>w_redis := fst (w_redis x, cache_get (cache ctx) h (w_redis x))\<rparr>,
        Inr (snd (w_redis x, cache_get (cache ctx) h (w_redis x))))))"
    using b a hash_of_Inr [OF assms(2)] by (auto simp: cache_points_def cache_get_def has_audio_def on_block_def)
qed

lemma keeps_wait:
  assumes "on_block st jid k block w" and "content_hash block = Inr h"
  shows "keeps_audio st (\<lambda>url w. \<forall>u. url = Some u \<longrightarrow> has_audio st jid k h u w) (wait_for_cache ctx h n) w"
  using assms(1)
proof (induction n arbitrary: w)
  case (Suc n)
  show ?case
    unfolding wait_for_cache.simps
  proof (rule audio.sound_pbind [OF keeps_cache_get [OF Suc.prems assms(2)]])
    fix url and w :: world
    assume u: "on_block st jid k block w \<and> (\<forall>u. url = Some u \<longrightarrow> has_audio st jid k h u w)"
    show "keeps_audio st (\<lambda>url w. \<forall>u. url = Some u \<longrightarrow> has_audio st jid k h u w)
        (case url of Some u \<Rightarrow> Ret (Some u) | None \<Rightarrow> pbind pskip (\<lambda>_. wait_for_cache ctx h n)) w"
    proof (cases url)
      case None
      then show ?thesis
        using u keeps_inert_pbind [OF inert_adapters(3) stable_block(2) _ Suc.IH] by auto
    next
      case (Some x)
      then show ?thesis using u audio.stableD [OF stable_block(3)] by auto
    qed
  qed
qed simp

lemma keeps_synthesize:
  assumes "on_block st jid k block w" and "content_hash block = Inr h"
  shows "keeps_audio st (has_audio st jid k h) (synthesize ctx h (audio_key_of h) block owner) w"
  unfolding synthesize_def
proof (rule keeps_inert_pbind [OF _ stable_block(2) assms(1)])
  show "all_steps inert (redis_cmd (acquire_inflight (cache ctx) h owner))"
    by (rule inert_redis) (rule cache_kept_semaphore)
  fix won and w :: world
  assume w: "on_block st jid k block w"
  have gen: "keeps_audio st (\<lambda>_. has_audio st jid k h (audio_key_of h)) (slot ctx owner (generate (audio_key_of h) block)) w"
    by (rule keeps_slot [OF keeps_generate [OF assms(2)] stable_block(2) stable_block(3) w])
  have free: "all_steps inert (redis_cmd (\<lambda>r. (release_inflight (cache ctx) h r, ())))"
    by (rule inert_redis) (simp add: cache_kept_semaphore)
  have win: "keeps_audio st (has_audio st jid k h)
      (pbind (pfinally
            (pbind (slot ctx owner (generate (audio_key_of h) block)) (\<lambda>_.
              redis_cmd (\<lambda>r. (cache_set (cache ctx) h (audio_key_of h) r, ()))))
            (redis_cmd (\<lambda>r. (release_inflight (cache ctx) h r, ()))))
          (\<lambda>_. Ret (audio_key_of h))) w"
  proof (rule audio.sound_pbind [OF audio.sound_pfinally [OF audio.sound_pbind [OF gen keeps_cache_set] free inert_guar stable_block(3)]])
    fix a and w :: world
    assume "has_audio st jid k h (audio_key_of h) w"
    then show "keeps_audio st (has_audio st jid k h) (Ret (audio_key_of h)) w" using audio.stableD [OF stable_block(3)] by auto
  qed
  have lose: "keeps_audio st (has_audio st jid k h)
      (pbind (wait_for_cache ctx h WAIT_ATTEMPTS) (\<lambda>waited.
          case waited of None \<Rightarrow> Raise TransientError | Some k \<Rightarrow> Ret k)) w"
    by (rule audio.sound_pbind [OF keeps_wait [OF w assms(2)]])
       (auto split: option.split dest: audio.stableD [OF stable_block(3)])
  show "keeps_audio st (has_audio st jid k h)
      (if won then
        pbind (pfinally
            (pbind (slot ctx owner (generate (audio_key_of h) block)) (\<lambda>_.
              redis_cmd (\<lambda>r. (cache_set (cache ctx) h (audio_key_of h) r, ()))))
            (redis_cmd (\<lambda>r. (release_inflight (cache ctx) h r, ()))))
          (\<lambda>_. Ret (audio_key_of h))
       else pbind (wait_for_cache ctx h WAIT_ATTEMPTS) (\<lambda>waited.
          case waited of None \<Rightarrow> Raise TransientError | Some k \<Rightarrow> Ret k)) w"
    using win lose by simp
qed

text \<open>The claim of a finished block.\<close>

lemma claim_rows:
  assumes "wf_db d" and "t' \<in> set (tasks (fst (complete_task_and_decrement d jid tid key)))"
  shows "t' \<in> set (tasks d) \<or> (\<exists>t \<in> set (tasks d). t_id t = tid \<and> t_job t' = t_job t \<and> block_index t' = block_index t \<and> audio_key t' = Some key)"
  using assms by (auto simp: complete_cases claim_done_def sql_update_def decremented_def split: option.splits if_splits)

lemma claim_jobs:
  assumes "wf_db d" and "j' \<in> set (jobs (fst (complete_task_and_decrement d jid tid key)))"
  shows "\<exists>j \<in> set (jobs d). j_id j = j_id j' \<and> j_status j = j_status j' \<and> final_key j = final_key j'"
  using assms by (auto simp: complete_cases decremented_def sql_update_def split: option.splits if_splits)

lemma claim_guar:
  assumes "rely st w w" and "has_audio st jid k h key w"
  shows "guar st w (w\<lparr>w_db := fst (complete_task_and_decrement (w_db w) jid (task_id_of jid k) key)\<rparr>)"
proof -
  let ?d = "fst (complete_task_and_decrement (w_db w) jid (task_id_of jid k) key)" and ?w = "w\<lparr>w_db := fst (complete_task_and_decrement (w_db w) jid (task_id_of jid k) key)\<rparr>"
  have ok: "db_ok st w" "cache_points w" "tasks_have_audio st w" "completed_whole st w"
    using assms(1) by (simp_all add: rely_def audio_ok_def)
  note wf = db_ok_D(1) [OF ok(1)]
  have same: "in_store ?w = in_store w" "whole st ?w = whole st w"
    by (simp_all add: in_store_def whole_def fun_eq_iff)
  have "tasks_have_audio st ?w"
    unfolding tasks_have_audio_def Let_def
  proof (intro ballI impI)
    fix t'
    assume t': "t' \<in> set (tasks (w_db ?w))" "t_status t' = T_DONE"
    have "t' \<in> set (tasks (w_db w)) \<or> t_job t' = jid \<and> block_index t' = k \<and> audio_key t' = Some key"
    proof -
      consider "t' \<in> set (tasks (w_db w))" | t where "t \<in> set (tasks (w_db w))" "t_id t = task_id_of jid k" "t_job t' = t_job t"
        "block_index t' = block_index t" "audio_key t' = Some key"
        using claim_rows [OF wf, of t' jid "task_id_of jid k" key] t'(1) by auto
      then show ?thesis
      proof cases
        case (2 t)
        then have "task_id_of (t_job t) (block_index t) = task_id_of jid k" using db_ok_D(2) [OF ok(1)] by (metis task_ids_ok_def)
        with 2 show ?thesis by simp
      qed simp
    qed
    then show "audio_key t' = Some (audio_key_of (hash_of (blks st ?w (t_job t') ! block_index t')))
        \<and> in_store ?w (hash_of (blks st ?w (t_job t') ! block_index t'))"
    proof
      assume "t' \<in> set (tasks (w_db w))"
      then show ?thesis using ok(3) t'(2) unfolding tasks_have_audio_def Let_def same blks_db by blast
    next
      assume "t_job t' = jid \<and> block_index t' = k \<and> audio_key t' = Some key"
      then show ?thesis using assms(2) unfolding same by (simp add: has_audio_def)
    qed
  qed
  moreover have "completed_whole st ?w"
    unfolding completed_whole_def
  proof (intro ballI impI)
    fix j' assume "j' \<in> set (jobs (w_db ?w))" "j_status j' = COMPLETED"
    then obtain j where "j \<in> set (jobs (w_db w))" "j_status j = COMPLETED" "j_id j = j_id j'" "final_key j = final_key j'"
      using claim_jobs [OF wf] by fastforce
    with ok(4) show "final_key j' = Some (final_key_of (j_id j')) \<and> whole st ?w (j_id j')"
      unfolding completed_whole_def same by metis
  qed
  moreover have "cache_points ?w" using ok(2) by (simp add: cache_points_def same)
  ultimately show ?thesis by (simp add: guar_def audio_ok_def same)
qed

lemma keeps_handle_tts:
  assumes "on_row jid k w"
  shows "keeps_audio st (\<lambda>_ _. True) (handle_tts ctx (TtsRequested e jid (task_id_of jid k))) w"
  unfolding handle_tts_def Let_def event.sel
proof (rule audio.sound_pbind [OF keeps_load [OF assms]])
  fix block and w :: world
  assume w: "on_block st jid k block w"
  show "keeps_audio st (\<lambda>_ _. True) (pbind (plift (content_hash block)) (\<lambda>h.
     pbind (do_cache_get ctx h) (\<lambda>cached.
     pbind (case cached of None \<Rightarrow> synthesize ctx h (audio_key_of h) block (task_id_of jid k) | Some k \<Rightarrow> Ret k) (\<lambda>key.
     pbind (transaction (\<lambda>d. complete_task_and_decrement d jid (task_id_of jid k) key)) (\<lambda>remaining.
     after_decrement jid remaining))))) w"
  proof (cases "content_hash block")
    case (Inr h)
    have tail: "keeps_audio st (\<lambda>_ _. True) (pbind (transaction (\<lambda>d. complete_task_and_decrement d jid (task_id_of jid k) key))
        (after_decrement jid)) w" if "has_audio st jid k h key w" for key w
    proof (rule audio.sound_pbind [where Q' = "\<lambda>_ _. True"])
      show "keeps_audio st (\<lambda>_ _. True) (transaction (\<lambda>d. complete_task_and_decrement d jid (task_id_of jid k) key)) w"
        unfolding transaction_def Let_def split_beta
        by (rule audio.sound_atomic [where P = "has_audio st jid k h key", OF stable_block(3) that])
           (simp_all add: claim_guar)
    qed (rule keeps_inert [OF inert_after_decrement], simp_all)
    have key: "keeps_audio st (has_audio st jid k h)
        (case cached of None \<Rightarrow> synthesize ctx h (audio_key_of h) block (task_id_of jid k) | Some k \<Rightarrow> Ret k) w"
      if "on_block st jid k block w \<and> (\<forall>u. cached = Some u \<longrightarrow> has_audio st jid k h u w)" for cached w
      using that keeps_synthesize [OF _ Inr] audio.stableD [OF stable_block(3)] by (auto split: option.split)
    have "keeps_audio st (\<lambda>_ _. True) (pbind (do_cache_get ctx h) (\<lambda>cached.
     pbind (case cached of None \<Rightarrow> synthesize ctx h (audio_key_of h) block (task_id_of jid k) | Some k \<Rightarrow> Ret k) (\<lambda>key.
     pbind (transaction (\<lambda>d. complete_task_and_decrement d jid (task_id_of jid k) key)) (\<lambda>remaining.
     after_decrement jid remaining)))) w"
      by (rule audio.sound_pbind [OF keeps_cache_get [OF w Inr]], rule audio.sound_pbind [OF key], assumption)
         (rule tail)
    then show ?thesis by (simp add: Inr plift_def)
  qed (simp add: plift_def)
qed

text \<open>The wrapper adds only a publish.\<close>

lemma keeps_ack_last:
  assumes "keeps_audio st (\<lambda>_ _. True) (work m) w"
  shows "keeps_audio st (\<lambda>_ _. True) (ack_last ctx q work m) w"
  unfolding ack_last_def
proof (rule audio.sound_pbind [OF audio.sound_ptry [OF assms]])
  fix r and w :: world
  have "all_steps inert (pbind (route_failed ctx q m e) (\<lambda>_. Ret Acked))" for e
    by (rule all_steps_pbind [OF inert_route]) simp
  then show "keeps_audio st (\<lambda>_ _. True) (case r of Inl exc \<Rightarrow> pbind (route_failed ctx q m exc) (\<lambda>_. Ret Acked) | Inr _ \<Rightarrow> Ret Acked) w"
    by (cases r) (auto intro!: keeps_inert)
qed

section \<open>The final object\<close>

text \<open>The rows of a job whose blocks are all there, in the order of their blocks.\<close>

lemma rows_in_order:
  assumes "db_ok st w" and "get_job (w_db w) jid = Some j" and "j_status j \<notin> {PENDING, FAILED}"
  shows "map block_index (sort_key block_index (filter (\<lambda>t. t_job t = jid) (tasks (w_db w)))) = [0..<length (blks st w jid)]"
    (is "map _ (sort_key _ ?rows) = [0..<?n]")
proof (rule sorted_distinct_set_unique)
  note d = db_ok_D [OF assms(1)]
  have "distinct (map t_id ?rows)" using d(1) by (simp add: wf_db_def distinct_map inj_on_def)
  moreover have "map t_id ?rows = map (task_id_of jid) (map block_index ?rows)" using d(2) by (simp add: task_ids_ok_def)
  ultimately have "distinct (map block_index ?rows)" by (metis distinct_map)
  then show "distinct (map block_index (sort_key block_index ?rows))" by (simp add: distinct_map)
  have "k \<in> block_index ` set ?rows" if "k < ?n" for k
  proof -
    have "row_at (w_db w) jid k" using d(8) [OF assms(2,3)] that by simp
    then obtain t where t: "t \<in> set (tasks (w_db w))" "t_job t = jid" "block_index t = k" unfolding row_at_def by blast
    then have "t \<in> set ?rows" by simp
    with t(3) show ?thesis by blast
  qed
  moreover have "block_index t < ?n" if "t \<in> set ?rows" for t using d(5) [of t] that by simp
  ultimately have "block_index ` set ?rows = {..<?n}" by auto
  then show "set (map block_index (sort_key block_index ?rows)) = set [0..<?n]" by (simp add: atLeast0LessThan)
qed simp_all

lemma map_filter_all: "map f xs = map Some ks \<Longrightarrow> List.map_filter f xs = ks"
  by (induction xs arbitrary: ks) (auto simp: List.map_filter_simps)

lemma chunk_keys_rows:
  assumes ok: "db_ok st w" "tasks_have_audio st w" and "get_job (w_db w) jid = Some j" and "j_status j \<notin> {PENDING, FAILED}"
    and "all_done (w_db w) jid"
  shows "chunk_keys (w_db w) jid = map (\<lambda>b. audio_key_of (hash_of b)) (blks st w jid)"
    and "b \<in> set (blks st w jid) \<Longrightarrow> in_store w (hash_of b)"
proof -
  let ?rows = "filter (\<lambda>t. t_job t = jid) (tasks (w_db w))" and ?n = "length (blks st w jid)"
  let ?key = "\<lambda>k. audio_key_of (hash_of (blks st w jid ! k))" and ?sorted = "sort_key block_index ?rows"
  note order = rows_in_order [OF ok(1) assms(3,4)]
  have rows: "filter (\<lambda>t. t_job t = jid \<and> t_status t = T_DONE) (tasks (w_db w)) = ?rows"
    using assms(5) by (intro filter_cong) (auto simp: all_done_def)
  have au: "audio_key t = Some (?key (block_index t)) \<and> in_store w (hash_of (blks st w jid ! block_index t))" if "t \<in> set ?rows" for t
  proof -
    have "t \<in> set (tasks (w_db w))" "t_job t = jid" "t_status t = T_DONE" using that assms(5) by (simp_all add: all_done_def)
    then show ?thesis using ok(2) unfolding tasks_have_audio_def Let_def by metis
  qed
  have "map audio_key ?sorted = map (\<lambda>t. Some (?key (block_index t))) ?sorted"
    by (rule map_cong [OF HOL.refl]) (use au in simp)
  also have "\<dots> = map (\<lambda>k. Some (?key k)) (map block_index ?sorted)" by (simp only: map_map comp_def)
  finally have "map audio_key ?sorted = map Some (map ?key [0..<?n])"
    unfolding order by (simp only: map_map comp_def)
  then have "List.map_filter audio_key ?sorted = map ?key [0..<?n]" by (rule map_filter_all)
  also have "map ?key [0..<?n] = map (\<lambda>b. audio_key_of (hash_of b)) (blks st w jid)"
    by (rule nth_equalityI) simp_all
  finally show "chunk_keys (w_db w) jid = map (\<lambda>b. audio_key_of (hash_of b)) (blks st w jid)"
    unfolding chunk_keys_def done_tasks_def rows .
  show "in_store w (hash_of b)" if b: "b \<in> set (blks st w jid)"
  proof -
    obtain k where k: "k < ?n" "b = blks st w jid ! k" using b by (auto simp: in_set_conv_nth)
    then have "k \<in> set (map block_index ?sorted)" unfolding order by simp
    then obtain t where t: "t \<in> set ?rows" "k = block_index t" by auto
    then show ?thesis using au [OF t(1)] k(2) by simp
  qed
qed

definition failed_job :: "string \<Rightarrow> world \<Rightarrow> bool" where
  "failed_job jid w \<longleftrightarrow> status_in (w_db w) jid {FAILED}"

definition settled_job :: "string \<Rightarrow> world \<Rightarrow> bool" where
  "settled_job jid w \<longleftrightarrow> settled (w_db w) jid"

text \<open>The blocks of the job and their audio, as the finalizer found them.\<close>

definition blocks_are :: "Settings \<Rightarrow> string \<Rightarrow> pystr list \<Rightarrow> world \<Rightarrow> bool" where
  "blocks_are st jid bs w \<longleftrightarrow> get_job (w_db w) jid \<noteq> None \<and> blks st w jid = bs"

definition chunks_in_store :: "Settings \<Rightarrow> string \<Rightarrow> pystr list \<Rightarrow> pystr list \<Rightarrow> world \<Rightarrow> bool" where
  "chunks_in_store st jid bs xs w \<longleftrightarrow> blocks_are st jid bs w \<and> (\<forall>b \<in> set xs. in_store w (hash_of b))"

definition whole_or_failed :: "Settings \<Rightarrow> string \<Rightarrow> world \<Rightarrow> bool" where
  "whole_or_failed st jid w \<longleftrightarrow> get_job (w_db w) jid \<noteq> None \<and> (failed_job jid w \<or> whole st w jid)"

lemma stable_stitch [simp]:
  "audio.stable st (failed_job jid)" "audio.stable st (settled_job jid)" "audio.stable st (blocks_are st jid bs)"
  "audio.stable st (chunks_in_store st jid bs xs)" "audio.stable st (whole_or_failed st jid)"
  unfolding audio.stable_def rely_def failed_job_def settled_job_def blocks_are_def chunks_in_store_def whole_or_failed_def
  by (auto dest: lasting_D)

lemma failed_exists: "failed_job jid w \<Longrightarrow> get_job (w_db w) jid \<noteq> None"
  by (auto simp: failed_job_def status_in_def)

text \<open>The parts, fetched one after the other.\<close>

lemma keeps_fetch:
  assumes "chunks_in_store st jid bs xs w"
  shows "keeps_audio st (\<lambda>parts w. blocks_are st jid bs w \<and> parts = map (\<lambda>b. audio_of (hash_of b)) xs)
    (pmap (map (\<lambda>b. audio_key_of (hash_of b)) xs) (\<lambda>key. minio_get (\<lambda>s. get_bytes s key))) w"
  using assms
proof (induction xs arbitrary: w)
  case Nil
  then show ?case using audio.stableD [OF stable_stitch(3)] by (auto simp: chunks_in_store_def)
next
  case (Cons x xs)
  have get: "keeps_audio st (\<lambda>part w. chunks_in_store st jid bs (x # xs) w \<and> part = audio_of (hash_of x))
      (minio_get (\<lambda>s. get_bytes s (audio_key_of (hash_of x)))) w"
    unfolding minio_get_def
    by (rule audio.sound_atomic [where P = "chunks_in_store st jid bs (x # xs)", OF stable_stitch(4) Cons.prems])
       (simp_all add: inert_guar stable_if, simp add: chunks_in_store_def in_store_def)
  show ?case
    unfolding list.map pmap.simps
  proof (rule audio.sound_pbind [OF get])
    fix part and w :: world
    assume p: "chunks_in_store st jid bs (x # xs) w \<and> part = audio_of (hash_of x)"
    then have "chunks_in_store st jid bs xs w" by (simp add: chunks_in_store_def)
    from Cons.IH [OF this] p show "keeps_audio st (\<lambda>parts w. blocks_are st jid bs w \<and> parts = audio_of (hash_of x) # map (\<lambda>b. audio_of (hash_of b)) xs)
        (pbind (pmap (map (\<lambda>b. audio_key_of (hash_of b)) xs) (\<lambda>key. minio_get (\<lambda>s. get_bytes s key))) (\<lambda>ys. Ret (part # ys))) w"
      by (elim audio.sound_pbind) (auto dest: audio.stableD [OF stable_stitch(3)])
  qed
qed

lemma keeps_chunks:
  assumes "settled_job jid w"
  shows "keeps_audio st (\<lambda>keys w. failed_job jid w \<or>
      (\<exists>bs. keys = map (\<lambda>b. audio_key_of (hash_of b)) bs \<and> chunks_in_store st jid bs bs w))
    (read_db (\<lambda>d. Inr (chunk_keys d jid))) w"
  unfolding read_db_def transaction_def Let_def split_beta
proof (rule audio.sound_atomic [where P = "settled_job jid", OF stable_stitch(2) assms])
  show "audio.stable st (\<lambda>w. failed_job jid w \<or> (\<exists>bs. a = map (\<lambda>b. audio_key_of (hash_of b)) bs \<and> chunks_in_store st jid bs bs w))" for a
    using stable_stitch(1) [of st jid] stable_stitch(4) [of st jid] unfolding audio.stable_def by blast
  fix i x
  assume r: "rely st x x" and s: "settled_job jid x"
  show "guar st x (fst (x\<lparr>w_db := fst (w_db x, Inr (chunk_keys (w_db x) jid))\<rparr>, snd (w_db x, Inr (chunk_keys (w_db x) jid))))"
    by (rule inert_guar [OF r]) simp
  fix a
  assume a: "snd (x\<lparr>w_db := fst (w_db x, Inr (chunk_keys (w_db x) jid))\<rparr>, snd (w_db x, Inr (chunk_keys (w_db x) jid))) = Inr a"
  have "failed_job jid x \<or> a = map (\<lambda>b. audio_key_of (hash_of b)) (blks st x jid) \<and> chunks_in_store st jid (blks st x jid) (blks st x jid) x"
  proof (cases "failed_job jid x")
    case False
    then have "launched (w_db x) jid" "all_done (w_db x) jid" using s by (auto simp: settled_job_def settled_def failed_job_def)
    then obtain j where j: "get_job (w_db x) jid = Some j" "j_status j \<notin> {PENDING, FAILED}"
      using False by (auto simp: status_in_def failed_job_def)
    have ok: "db_ok st x" "tasks_have_audio st x" using r by (simp_all add: rely_def audio_ok_def)
    note c = chunk_keys_rows [OF ok j \<open>all_done (w_db x) jid\<close>]
    show ?thesis using a c j(1) by (simp add: chunks_in_store_def blocks_are_def)
  qed simp
  then show "failed_job jid (fst (x\<lparr>w_db := fst (w_db x, Inr (chunk_keys (w_db x) jid))\<rparr>, snd (w_db x, Inr (chunk_keys (w_db x) jid)))) \<or>
      (\<exists>bs. a = map (\<lambda>b. audio_key_of (hash_of b)) bs \<and> chunks_in_store st jid bs bs
        (fst (x\<lparr>w_db := fst (w_db x, Inr (chunk_keys (w_db x) jid))\<rparr>, snd (w_db x, Inr (chunk_keys (w_db x) jid)))))"
    by auto
qed

text \<open>Writing the final object.\<close>

definition parts_ok :: "Settings \<Rightarrow> string \<Rightarrow> bytes \<Rightarrow> world \<Rightarrow> bool" where
  "parts_ok st jid data w \<longleftrightarrow> get_job (w_db w) jid \<noteq> None \<and> (failed_job jid w \<or> data = drama (blks st w jid))"

lemma stable_parts [simp]: "audio.stable st (parts_ok st jid data)"
  unfolding audio.stable_def rely_def parts_ok_def failed_job_def by (auto dest: lasting_D)

lemma manuscript_not_final [simp]: "manuscript_key_of i \<noteq> final_key_of jid"
  by (simp add: manuscript_key_of_def final_key_of_def)

lemma final_key_inj [simp]: "final_key_of a = final_key_of b \<longleftrightarrow> a = b"
  by (simp add: final_key_of_def)

lemma put_final:
  assumes "rely st w w" and "parts_ok st jid data w" and put: "put_bytes (w_minio w) (final_key_of jid) data c = Inr s"
  shows "guar st w (w\<lparr>w_minio := s\<rparr>)" "whole_or_failed st jid (w\<lparr>w_minio := s\<rparr>)"
proof -
  let ?w = "w\<lparr>w_minio := s\<rparr>"
  have ok: "db_ok st w" "audio_ok st w" using assms(1) by (simp_all add: rely_def)
  have bl: "blks st ?w i = blks st w i" for i
    using get_text_put_bytes [OF put, of "manuscript_key_of i"] by (simp add: blks_def)
  have store: "in_store w h \<Longrightarrow> in_store ?w h" for h by (simp add: in_store_def bucket.read_write [OF put])
  have wh: "whole st ?w i" if "whole st w i" "i \<noteq> jid \<or> \<not> failed_job jid w" for i
    using that assms(2) by (auto simp: whole_def bl bucket.read_write [OF put] parts_ok_def)
  show "whole_or_failed st jid ?w"
    using assms(2) by (auto simp: whole_or_failed_def parts_ok_def failed_job_def whole_def bl bucket.read_write [OF put])
  show "guar st w ?w"
    unfolding guar_def
  proof (intro impI conjI allI)
    assume ev: "evolves w ?w"
    show "audio_ok st ?w"
    proof (rule audio_ok_step [OF ev ok _ _ store])
      fix j assume j: "j \<in> set (jobs (w_db w))" "j_status j = COMPLETED" "whole st w (j_id j)"
      have "\<not> failed_job (j_id j) w"
        using j(1,2) row_get_unique [of j_id "jobs (w_db w)" j] db_ok_D(1) [OF ok(1)]
        by (simp add: failed_job_def status_in_def wf_db_def)
      then show "whole st ?w (j_id j)" using wh [OF j(3)] by blast
    qed simp_all
    show "whole st ?w i \<or> status_in (w_db ?w) i {FAILED}" if "whole st w i" for i
      using wh [OF that] by (auto simp: failed_job_def)
  qed (rule store)
qed

lemma keeps_put_final:
  assumes "parts_ok st jid data w"
  shows "keeps_audio st (\<lambda>_. whole_or_failed st jid) (minio_put (\<lambda>s. put_bytes s (final_key_of jid) data c)) w"
  unfolding minio_put_def
proof (rule audio.sound_atomic [where P = "parts_ok st jid data", OF stable_parts assms stable_stitch(5)])
  fix i x
  assume r: "rely st x x" and p: "parts_ok st jid data x"
  show "guar st x (fst (case put_bytes (w_minio x) (final_key_of jid) data c of Inl e \<Rightarrow> (x, Inl e) | Inr s \<Rightarrow> (x\<lparr>w_minio := s\<rparr>, Inr ())))"
    using put_final(1) [OF r p] audio.G_refl [OF r] by (auto split: sum.split)
  fix u
  assume "snd (case put_bytes (w_minio x) (final_key_of jid) data c of Inl e \<Rightarrow> (x, Inl e) | Inr s \<Rightarrow> (x\<lparr>w_minio := s\<rparr>, Inr ())) = Inr u"
  then obtain s where s: "put_bytes (w_minio x) (final_key_of jid) data c = Inr s" by (auto split: sum.splits)
  then show "whole_or_failed st jid (fst (case put_bytes (w_minio x) (final_key_of jid) data c of Inl e \<Rightarrow> (x, Inl e) | Inr s \<Rightarrow> (x\<lparr>w_minio := s\<rparr>, Inr ())))"
    using put_final(2) [OF r p s] by simp
qed

text \<open>Completing the job.\<close>

lemma finalize_guar:
  assumes "rely st w w" and "whole_or_failed st jid w"
  shows "guar st w (w\<lparr>w_db := fst (finalize_job (w_db w) jid (final_key_of jid))\<rparr>)"
proof -
  let ?d = "fst (finalize_job (w_db w) jid (final_key_of jid))" and ?w = "w\<lparr>w_db := fst (finalize_job (w_db w) jid (final_key_of jid))\<rparr>"
  have ok: "db_ok st w" "cache_points w" "tasks_have_audio st w" "completed_whole st w"
    using assms(1) by (simp_all add: rely_def audio_ok_def)
  have same: "in_store ?w = in_store w" "whole st ?w = whole st w"
    by (simp_all add: in_store_def whole_def fun_eq_iff)
  have ts: "tasks ?d = tasks (w_db w)" by (simp add: finalize_job_def Let_def)
  have "completed_whole st ?w"
    unfolding completed_whole_def
  proof (intro ballI impI)
    fix j' assume j': "j' \<in> set (jobs (w_db ?w))" "j_status j' = COMPLETED"
    then obtain j where j: "j \<in> set (jobs (w_db w))" "j_id j' = j_id j"
      "j' = j \<or> j_id j = jid \<and> j_status j = STITCHING \<and> final_key j' = Some (final_key_of jid)"
      by (auto simp: finalize_job_def Let_def sql_update_def expected_for_iff can_transition_iff split: if_splits)
    from j(3) show "final_key j' = Some (final_key_of (j_id j')) \<and> whole st ?w (j_id j')"
    proof
      assume "j' = j"
      then show ?thesis using ok(4) j(1) j'(2) unfolding completed_whole_def same by blast
    next
      assume e: "j_id j = jid \<and> j_status j = STITCHING \<and> final_key j' = Some (final_key_of jid)"
      have "\<not> failed_job jid w"
        using e j(1) row_get_unique [of j_id "jobs (w_db w)" j] db_ok_D(1) [OF ok(1)]
        by (auto simp: failed_job_def status_in_def wf_db_def)
      then show ?thesis using assms(2) e j(2) unfolding same by (simp add: whole_or_failed_def)
    qed
  qed
  moreover have "tasks_have_audio st ?w"
    using ok(3) ts unfolding tasks_have_audio_def Let_def same blks_db by simp
  moreover have "cache_points ?w" using ok(2) by (simp add: cache_points_def same)
  ultimately show ?thesis by (simp add: guar_def audio_ok_def same)
qed

lemma keeps_finish:
  assumes "parts_ok st jid data w"
  shows "keeps_audio st (\<lambda>_ _. True)
    (pbind (minio_put (\<lambda>s. put_bytes s (final_key_of jid) data ''audio/mpeg'')) (\<lambda>_.
     pbind (transaction (\<lambda>d. case finalize_job d jid (final_key_of jid) of (d', won) \<Rightarrow> (d', Inr won))) (\<lambda>finalized.
     if finalized then notify ctx jid else Ret ()))) w"
proof (rule audio.sound_pbind [OF keeps_put_final [OF assms]])
  fix a and w :: world
  assume w: "whole_or_failed st jid w"
  have fin: "keeps_audio st (\<lambda>_ _. True)
      (transaction (\<lambda>d. case finalize_job d jid (final_key_of jid) of (d', won) \<Rightarrow> (d', Inr won))) w"
    unfolding transaction_def Let_def split_beta
    by (rule audio.sound_atomic [where P = "whole_or_failed st jid", OF stable_stitch(5) w]) (simp_all add: finalize_guar)
  show "keeps_audio st (\<lambda>_ _. True)
      (pbind (transaction (\<lambda>d. case finalize_job d jid (final_key_of jid) of (d', won) \<Rightarrow> (d', Inr won))) (\<lambda>finalized.
       if finalized then notify ctx jid else Ret ())) w"
    by (rule audio.sound_pbind [OF fin]) (auto intro!: keeps_inert inert_notify)
qed

lemma keeps_handle_stitch:
  assumes "settled_job jid w"
  shows "keeps_audio st (\<lambda>_ _. True) (handle_stitch ctx (StitchReady e jid)) w"
  unfolding handle_stitch_def Let_def event.sel
proof (rule keeps_inert_pbind [OF inert_adapters(4) stable_stitch(2) assms])
  fix status and w :: world
  assume s: "settled_job jid w"
  let ?rest = "\<lambda>keys. pbind (transaction (\<lambda>d. case advance_status d jid STITCHING of (d', won) \<Rightarrow> (d', Inr won))) (\<lambda>_.
       pbind (pmap keys (\<lambda>key. minio_get (\<lambda>s. get_bytes s key))) (\<lambda>parts.
       pbind (minio_put (\<lambda>s. put_bytes s (final_key_of jid) (concat parts) ''audio/mpeg'')) (\<lambda>_.
       pbind (transaction (\<lambda>d. case finalize_job d jid (final_key_of jid) of (d', won) \<Rightarrow> (d', Inr won))) (\<lambda>finalized.
       if finalized then notify ctx jid else Ret ()))))"
  have adv: "all_steps inert (transaction (\<lambda>d. case advance_status d jid STITCHING of (d', won) \<Rightarrow> (d', Inr won)))"
    by (rule inert_transaction) (simp add: no_new_advance split_beta)
  have fetch: "all_steps inert (pmap keys (\<lambda>key. minio_get (\<lambda>s. get_bytes s key)))" for keys
    by (rule all_steps_pmap) (rule inert_adapters)
  have failed: "keeps_audio st (\<lambda>_ _. True) (?rest keys) w" if "failed_job jid w" for keys w
  proof (rule keeps_inert_pbind [OF adv stable_stitch(1) that], rule keeps_inert_pbind [OF fetch stable_stitch(1)], assumption)
    fix parts and w :: world
    assume "failed_job jid w"
    then have "parts_ok st jid (concat parts) w" using failed_exists by (simp add: parts_ok_def)
    then show "keeps_audio st (\<lambda>_ _. True)
        (pbind (minio_put (\<lambda>s. put_bytes s (final_key_of jid) (concat parts) ''audio/mpeg'')) (\<lambda>_.
         pbind (transaction (\<lambda>d. case finalize_job d jid (final_key_of jid) of (d', won) \<Rightarrow> (d', Inr won))) (\<lambda>finalized.
         if finalized then notify ctx jid else Ret ()))) w"
      by (rule keeps_finish)
  qed
  have found: "keeps_audio st (\<lambda>_ _. True) (?rest (map (\<lambda>b. audio_key_of (hash_of b)) bs)) w"
    if "chunks_in_store st jid bs bs w" for bs w
  proof (rule keeps_inert_pbind [OF adv stable_stitch(4) that], rule audio.sound_pbind [OF keeps_fetch], assumption)
    fix parts and w :: world
    assume "blocks_are st jid bs w \<and> parts = map (\<lambda>b. audio_of (hash_of b)) bs"
    then have "parts_ok st jid (concat parts) w" by (auto simp: parts_ok_def blocks_are_def drama_def)
    then show "keeps_audio st (\<lambda>_ _. True)
        (pbind (minio_put (\<lambda>s. put_bytes s (final_key_of jid) (concat parts) ''audio/mpeg'')) (\<lambda>_.
         pbind (transaction (\<lambda>d. case finalize_job d jid (final_key_of jid) of (d', won) \<Rightarrow> (d', Inr won))) (\<lambda>finalized.
         if finalized then notify ctx jid else Ret ()))) w"
      by (rule keeps_finish)
  qed
  have "keeps_audio st (\<lambda>_ _. True) (pbind (read_db (\<lambda>d. Inr (chunk_keys d jid))) ?rest) w"
  proof (rule audio.sound_pbind [OF keeps_chunks [OF s]], erule disjE)
    show "failed_job jid w \<Longrightarrow> keeps_audio st (\<lambda>_ _. True) (?rest keys) w" for keys w by (rule failed)
    show "\<exists>bs. keys = map (\<lambda>b. audio_key_of (hash_of b)) bs \<and> chunks_in_store st jid bs bs w \<Longrightarrow>
      keeps_audio st (\<lambda>_ _. True) (?rest keys) w" for keys w using found by blast
  qed
  then show "keeps_audio st (\<lambda>_ _. True) (if status = COMPLETED then Ret () else pbind (read_db (\<lambda>d. Inr (chunk_keys d jid))) ?rest) w"
    by simp
qed

section \<open>Every delivery\<close>

lemma keeps_handler:
  assumes "map_of (all_handlers ctx) q = Some h" and "msg_ok (w_db w) q m"
  shows "keeps_audio st (\<lambda>_ _. True) (h m) w"
proof -
  from assms(2) obtain ev where ev: "m_body m = model_dump_json ev" "q = Q_DLQ \<or> queue_for q ev \<and> duty_fits (w_db w) (duty_of ev)"
    by (auto simp: msg_ok_def)
  consider "q = Q_PARSE" "h = make_parse_handler ctx" | "q = Q_TTS" "h = make_tts_handler ctx"
    | "q = Q_STITCH" "h = make_stitch_handler ctx" | "q = Q_DLQ" "h = make_dlq_handler ctx"
    using assms(1) by (auto simp: all_handlers_def build_handlers_def split: if_splits)
  then show ?thesis
  proof cases
    case 1
    have "all_steps inert (pbind (ask i_uuid) (\<lambda>u. pbind (plift (validate_JobCreated u (m_body m))) (handle_parse ctx)))"
      by (intro all_steps_pbind all_steps_plift inert_adapters inert_parse)
    then show ?thesis unfolding 1 make_parse_handler_def by (intro keeps_ack_last keeps_inert) simp_all
  next
    case 4
    then show ?thesis using keeps_inert [OF inert_dlq] by simp
  next
    case 2
    have live: "Q_TTS \<in> set live_queues" by (simp add: live_queues_def)
    from ev(2) have "queue_for Q_TTS ev" "duty_fits (w_db w) (duty_of ev)" using 2 by (auto simp: live_queues_def)
    then have "route_of ev = Q_TTS" using live_not_retry(2) [OF live] by (auto simp: queue_for_def)
    then obtain e jid tid where t: "ev = TtsRequested e jid tid" by (cases ev) auto
    with \<open>duty_fits (w_db w) (duty_of ev)\<close> obtain k where k: "tid = task_id_of jid k" "row_at (w_db w) jid k" "launched (w_db w) jid"
      by auto
    then have row: "on_row jid k w" using status_in_exists by (simp add: on_row_def)
    have val: "validate_TtsRequested u (m_body m) = Inr (TtsRequested e jid tid)" for u
      unfolding ev(1) t by (simp add: validate_dump)
    have "keeps_audio st (\<lambda>_ _. True) (pbind (ask i_uuid) (\<lambda>u. pbind (plift (validate_TtsRequested u (m_body m))) (handle_tts ctx))) w"
      by (rule keeps_inert_pbind [OF inert_adapters(2) stable_block(1) row])
         (simp add: val plift_def k(1) keeps_handle_tts)
    then show ?thesis unfolding 2 make_tts_handler_def by (rule keeps_ack_last)
  next
    case 3
    have live: "Q_STITCH \<in> set live_queues" by (simp add: live_queues_def)
    from ev(2) have "queue_for Q_STITCH ev" "duty_fits (w_db w) (duty_of ev)" using 3 by (auto simp: live_queues_def)
    then have "route_of ev = Q_STITCH" using live_not_retry(2) [OF live] by (auto simp: queue_for_def)
    then obtain e jid where t: "ev = StitchReady e jid" by (cases ev) auto
    with \<open>duty_fits (w_db w) (duty_of ev)\<close> have row: "settled_job jid w" by (simp add: settled_job_def)
    have val: "validate_StitchReady u (m_body m) = Inr (StitchReady e jid)" for u
      unfolding ev(1) t by (simp add: validate_dump)
    have "keeps_audio st (\<lambda>_ _. True) (pbind (ask i_uuid) (\<lambda>u. pbind (plift (validate_StitchReady u (m_body m))) (handle_stitch ctx))) w"
      by (rule keeps_inert_pbind [OF inert_adapters(2) stable_stitch(2) row])
         (simp add: val plift_def keeps_handle_stitch)
    then show ?thesis unfolding 3 make_stitch_handler_def by (rule keeps_ack_last)
  qed
qed

end
