(* ===== verification/Calm_Runs.thy ===== *)
theory Calm_Runs
  imports Liveness
begin

text \<open>
  Undisturbed runs inside the system. \<open>goes Q p w\<close> says that the program \<open>p\<close>, run alone from \<open>w\<close>
  while no service fails, ends with a result and a world that satisfy \<open>Q\<close>, whatever identifiers it
  draws; \<open>calmly\<close> gives it for every program as a simplification rule. Such a run of a delivery or of a
  task is a path of the system, so it shows what the system can reach from a state.
\<close>

section \<open>Programs that run alone\<close>

primrec goes :: "('a res \<Rightarrow> world \<Rightarrow> bool) \<Rightarrow> 'a action \<Rightarrow> world \<Rightarrow> bool" where
  "goes Q (Ret a) = Q (Inr a)"
| "goes Q (Raise e) = Q (Inl e)"
| "goes Q (Step f) = (\<lambda>w. \<forall>u. case map_option (map_prod id (goes Q)) (f (calm\<lparr>i_uuid := u\<rparr>) w) of
      None \<Rightarrow> False | Some (w', rest) \<Rightarrow> rest w')"

lemma goes_Step:
  "goes Q (Step f) w \<longleftrightarrow> (\<forall>u. \<exists>w' p. f (calm\<lparr>i_uuid := u\<rparr>) w = Some (w', p) \<and> goes Q p w')"
  unfolding goes.simps by (rule iff_allI) (auto split: option.split prod.split)

declare goes.simps(3) [simp del]

named_theorems calmly \<open>the undisturbed runs of programs\<close>

lemma goes_cong: "(\<And>r w. Q r w = Q' r w) \<Longrightarrow> goes Q p w = goes Q' p w"
  by (rule arg_cong [where f = "\<lambda>Q. goes Q p w"]) (intro ext)

lemma goes_mono:
  assumes "goes Q p w" and "\<And>r w. Q r w \<Longrightarrow> Q' r w"
  shows "goes Q' p w"
  using assms(1)
proof (induction p arbitrary: w)
  case (Step f)
  then show ?case unfolding goes_Step by (metis option.set_intros prod_set_simps(2) rangeI singletonI)
qed (use assms(2) in auto)

lemma goes_pbind [calmly]:
  "goes Q (pbind p k) w = goes (\<lambda>r. case r of Inl e \<Rightarrow> Q (Inl e) | Inr a \<Rightarrow> goes Q (k a)) p w"
proof (induction p arbitrary: w)
  case (Step f)
  have "goes Q (pbind q k) w' = goes (\<lambda>r. case r of Inl e \<Rightarrow> Q (Inl e) | Inr a \<Rightarrow> goes Q (k a)) q w'"
    if "f i w = Some (w', q)" for i w' q
    using Step.IH [of "f i" "f i w" "(w', q)" q w'] that rangeI [of "f i" w] by simp
  then show ?case unfolding pbind.simps goes_Step by (auto simp: map_prod_def split: prod.splits) blast+
qed simp_all

lemma goes_ptry [calmly]: "goes Q (ptry p) w = goes (\<lambda>r. Q (Inr r)) p w"
proof (induction p arbitrary: w)
  case (Step f)
  have "goes Q (ptry q) w' = goes (\<lambda>r. Q (Inr r)) q w'" if "f i w = Some (w', q)" for i w' q
    using Step.IH [of "f i" "f i w" "(w', q)" q w'] that rangeI [of "f i" w] by simp
  then show ?case unfolding ptry.simps goes_Step by (auto simp: map_prod_def split: prod.splits) blast+
qed simp_all

lemma goes_plift [calmly]: "goes Q (plift r) w = Q r w"
  by (simp add: plift_def split: sum.split)

lemma goes_pcatch [calmly]:
  "goes Q (pcatch p h) w = goes (\<lambda>r. case r of Inl e \<Rightarrow> goes Q (h e) | Inr a \<Rightarrow> Q (Inr a)) p w"
  unfolding pcatch_def goes_pbind goes_ptry by (intro goes_cong) (simp split: sum.split)

lemma goes_pfinally [calmly]:
  "goes Q (pfinally p q) w = goes (\<lambda>r. goes (\<lambda>r'. case r' of Inl e \<Rightarrow> Q (Inl e) | Inr _ \<Rightarrow> Q r) q) p w"
  unfolding pfinally_def goes_pbind goes_ptry 
  by (intro goes_cong) (auto simp: goes_pbind goes_plift intro!: goes_cong split: sum.split)

lemma goes_pskip [calmly]: "goes Q pskip w = Q (Inr ()) w"
  by (simp add: pskip_def goes_Step)

lemma goes_atomic:
  "goes Q (atomic f) w = (\<forall>u. Q (snd (f (calm\<lparr>i_uuid := u\<rparr>) w)) (fst (f (calm\<lparr>i_uuid := u\<rparr>) w)))"
  by (simp add: atomic_def goes_Step goes_plift)

lemma goes_effects [calmly]:
  "goes Q (transaction t) w = Q (snd (t (w_db w))) (w\<lparr>w_db := fst (t (w_db w))\<rparr>)"
  "goes Q1 (redis_cmd c) w = Q1 (Inr (snd (c (w_redis w)))) (w\<lparr>w_redis := fst (c (w_redis w))\<rparr>)"
  "goes Q2 (minio_put mp) w = (case mp (w_minio w) of Inl e \<Rightarrow> Q2 (Inl e) w | Inr s \<Rightarrow> Q2 (Inr ()) (w\<lparr>w_minio := s\<rparr>))"
  "goes Q3 (minio_get mg) w = Q3 (mg (w_minio w)) w"
  "goes Q4 (publish_event e key) w = (\<forall>u. Q4 (Inr ()) (w\<lparr>w_broker := publish (w_broker w) (e u) key\<rparr>))"
  "goes Q5 (local_step l) w = Q5 (Inr ()) (l w)"
  "goes Q6 (blocking bl) w = (case bl w of None \<Rightarrow> False | Some (w', a) \<Rightarrow> Q6 (Inr a) w')"
  "goes Q7 (do_cache_get ctx h) w = Q7 (Inr (cache_get (cache ctx) h (w_redis w))) w"
  unfolding transaction_def redis_cmd_def minio_put_def minio_get_def publish_event_def broker_put_def do_cache_get_def
  by (auto simp: goes_atomic split_beta Let_def local_step_def blocking_def goes_Step split: sum.split option.split)

lemma goes_read [calmly]: "goes Q (read_db rq) w = Q (rq (w_db w)) w"
  unfolding read_db_def by (simp add: goes_effects)

lemma goes_ask [calmly]: "goes Q (ask g) w = (\<forall>u. Q (Inr (g (calm\<lparr>i_uuid := u\<rparr>))) w)"
  by (simp add: ask_def goes_Step)

lemma goes_put [calmly]:
  "goes Q (broker_put c) w = (\<forall>u. case c (calm\<lparr>i_uuid := u\<rparr>) (w_broker w) of Inl e \<Rightarrow> Q (Inl e) w | Inr b \<Rightarrow> Q (Inr ()) (w\<lparr>w_broker := b\<rparr>))"
  unfolding broker_put_def by (auto simp: goes_atomic split: sum.split)

lemma goes_stop_heartbeat [calmly]:
  "goes Q (stop_heartbeat ctx token) w =
    Q (if \<exists>h \<in> set (w_heartbeats w). current_heartbeat ctx token h \<and> hb_failed h then Inl InfraError else Inr ())
      (w\<lparr>w_heartbeats := filter (\<lambda>h. \<not> current_heartbeat ctx token h) (w_heartbeats w)\<rparr>)"
  by (auto simp: stop_heartbeat_def goes_Step)

section \<open>As paths of the system\<close>

text \<open>A state in which nothing runs.\<close>

definition resting :: "world \<Rightarrow> string set \<Rightarrow> sys" where
  "resting w D = \<lparr>s_world = w, s_procs = [], s_tasks = [], s_drawn = D\<rparr>"

lemma fresh_uuid: "finite (D :: string set) \<Longrightarrow> \<exists>u. u \<notin> D"
  by (rule ex_new_if_finite [OF infinite_UNIV_listI])

lemma goes_handler:
  assumes "goes Q p w"
    and "sys_reach st esc P s0 \<lparr>s_world = w, s_procs = [\<lparr>p_worker = wid, p_queue = q, p_msg = m, p_prog = p\<rparr>], s_tasks = [], s_drawn = D\<rparr>"
    and "finite D" and "\<And>s x. s_procs s = [\<lparr>p_worker = wid, p_queue = q, p_msg = m, p_prog = x\<rparr>] \<Longrightarrow> P s"
  shows "\<exists>r w' D'. Q r w' \<and> finite D' \<and> sys_reach st esc P s0
    \<lparr>s_world = w', s_procs = [\<lparr>p_worker = wid, p_queue = q, p_msg = m, p_prog = plift r\<rparr>], s_tasks = [], s_drawn = D'\<rparr>"
  using assms(1-3)
proof (induction p arbitrary: w D)
  case (Ret a)
  then show ?case by (intro exI [of _ "Inr a"] exI [of _ w] exI [of _ D]) (simp add: plift_def)
next
  case (Raise e)
  then show ?case by (intro exI [of _ "Inl e"] exI [of _ w] exI [of _ D]) (simp add: plift_def)
next
  case (Step f)
  obtain u where u: "u \<notin> D" using fresh_uuid [OF Step.prems(3)] by blast
  let ?i = "calm\<lparr>i_uuid := u\<rparr>"
  let ?s = "\<lparr>s_world = w, s_procs = [\<lparr>p_worker = wid, p_queue = q, p_msg = m, p_prog = Step f\<rparr>], s_tasks = [], s_drawn = D\<rparr>"
  obtain w1 p1 where f: "f ?i w = Some (w1, p1)" "goes Q p1 w1" using Step.prems(1) unfolding goes_Step by blast
  have "sys_step st esc ?s (?s\<lparr>s_world := w1, s_procs := (s_procs ?s)[0 := (s_procs ?s ! 0)\<lparr>p_prog := p1\<rparr>],
      s_drawn := insert (i_uuid ?i) (s_drawn ?s)\<rparr>)"
    using f(1) u by (intro sys_step.handler [where f = f]) auto
  then have "sys_reach st esc P s0 \<lparr>s_world = w1, s_procs = [\<lparr>p_worker = wid, p_queue = q, p_msg = m, p_prog = p1\<rparr>], s_tasks = [],
      s_drawn = insert u D\<rparr>"
    using sys_reach.step [OF Step.prems(2)] assms(4) by simp
  then show ?case
    using Step.IH [of "f ?i" "f ?i w" "(w1, p1)" p1 w1 "insert u D"] f Step.prems(3) rangeI [of "f ?i" w] by simp
qed

lemma goes_task:
  assumes "goes Q p w" and "sys_reach st esc P s0 \<lparr>s_world = w, s_procs = [], s_tasks = [p], s_drawn = D\<rparr>"
    and "finite D" and "\<And>s. s_procs s = [] \<Longrightarrow> P s"
  shows "\<exists>r w' D'. Q r w' \<and> finite D' \<and> sys_reach st esc P s0
    \<lparr>s_world = w', s_procs = [], s_tasks = [plift r], s_drawn = D'\<rparr>"
  using assms(1-3)
proof (induction p arbitrary: w D)
  case (Ret a)
  then show ?case by (intro exI [of _ "Inr a"] exI [of _ w] exI [of _ D]) (simp add: plift_def)
next
  case (Raise e)
  then show ?case by (intro exI [of _ "Inl e"] exI [of _ w] exI [of _ D]) (simp add: plift_def)
next
  case (Step f)
  obtain u where u: "u \<notin> D" using fresh_uuid [OF Step.prems(3)] by blast
  let ?i = "calm\<lparr>i_uuid := u\<rparr>"
  let ?s = "\<lparr>s_world = w, s_procs = [], s_tasks = [Step f], s_drawn = D\<rparr>"
  obtain w1 p1 where f: "f ?i w = Some (w1, p1)" "goes Q p1 w1" using Step.prems(1) unfolding goes_Step by blast
  have "sys_step st esc ?s (?s\<lparr>s_world := w1, s_tasks := (s_tasks ?s)[0 := p1], s_drawn := insert (i_uuid ?i) (s_drawn ?s)\<rparr>)"
    using f(1) u by (intro sys_step.task [where f = f]) auto
  then have "sys_reach st esc P s0 \<lparr>s_world = w1, s_procs = [], s_tasks = [p1], s_drawn = insert u D\<rparr>"
    using sys_reach.step [OF Step.prems(2)] assms(4) by simp
  then show ?case
    using Step.IH [of "f ?i" "f ?i w" "(w1, p1)" p1 w1 "insert u D"] f Step.prems(3) rangeI [of "f ?i" w] by simp
qed

text \<open>A background task from its start to its end.\<close>

lemma calm_task:
  assumes "sys_reach st esc P s0 (resting w D)" and "finite D" and "background st t" and "goes (\<lambda>_. Q) t w"
    and "\<And>s. s_procs s = [] \<Longrightarrow> P s"
  shows "\<exists>w' D'. Q w' \<and> finite D' \<and> sys_reach st esc P s0 (resting w' D')"
proof -
  have "sys_reach st esc P s0 ((resting w D)\<lparr>s_tasks := s_tasks (resting w D) @ [t]\<rparr>)"
    by (rule sys_reach.step [OF assms(1) sys_step.start [OF assms(3)]]) (simp add: assms(5) resting_def)
  then have "sys_reach st esc P s0 \<lparr>s_world = w, s_procs = [], s_tasks = [t], s_drawn = D\<rparr>" by (simp add: resting_def)
  from goes_task [OF assms(4) this assms(2,5)] obtain r w' D' where r: "Q w'" "finite D'"
    "sys_reach st esc P s0 \<lparr>s_world = w', s_procs = [], s_tasks = [plift r], s_drawn = D'\<rparr>" by auto
  from sys_reach.step [OF r(3) sys_step.stop [where k = 0]] r(1,2) show ?thesis
    by (intro exI [of _ w'] exI [of _ D']) (simp add: remove_nth_def resting_def assms(5))
qed

text \<open>A delivery from the queue to its acknowledgement.\<close>

lemma calm_delivery:
  assumes "sys_reach st esc P s0 (resting w D)" and "finite D"
    and "take_msg q (w_broker w) = Some (m, b)" and "map_of (all_handlers (context_of st wid)) q = Some h"
    and "goes (\<lambda>r w'. r = Inr Acked \<and> Q w') (h m) (w\<lparr>w_broker := b\<rparr>)"
    and "\<And>s p. s_procs s = [] \<or> s_procs s = [\<lparr>p_worker = wid, p_queue = q, p_msg = m, p_prog = p\<rparr>] \<Longrightarrow> P s"
  shows "\<exists>w' D'. Q w' \<and> finite D' \<and> sys_reach st esc P s0 (resting w' D')"
proof -
  have "sys_step st esc (resting w D) ((resting w D)\<lparr>s_world := (s_world (resting w D))\<lparr>w_broker := b\<rparr>,
      s_procs := s_procs (resting w D) @ [\<lparr>p_worker = wid, p_queue = q, p_msg = m, p_prog = h m\<rparr>]\<rparr>)"
    by (rule sys_step.deliver) (simp_all add: resting_def assms(3,4))
  from sys_reach.step [OF assms(1) this]
  have "sys_reach st esc P s0 \<lparr>s_world = w\<lparr>w_broker := b\<rparr>,
      s_procs = [\<lparr>p_worker = wid, p_queue = q, p_msg = m, p_prog = h m\<rparr>], s_tasks = [], s_drawn = D\<rparr>"
    by (simp add: assms(6) resting_def)
  from goes_handler [OF assms(5) this assms(2)] assms(6) obtain w' D' where r: "Q w'" "finite D'"
    "sys_reach st esc P s0 \<lparr>s_world = w', s_procs = [\<lparr>p_worker = wid, p_queue = q, p_msg = m, p_prog = Ret Acked\<rparr>],
      s_tasks = [], s_drawn = D'\<rparr>" by (auto simp: plift_def)
  from sys_reach.step [OF r(3) sys_step.settle [where k = 0]] r(1,2) show ?thesis
    by (intro exI [of _ w'] exI [of _ D']) (simp add: remove_nth_def resting_def assms(6) give_back_def requeued_def)
qed

end
