(* ===== verification/Calm_Stages.thy ===== *)
theory Calm_Stages
  imports Calm_Runs
begin

text \<open>
  The handlers of the three stages, run alone.
\<close>

lemma goes_ack_last [calmly]:
  "goes Q (ack_last ctx q do_work m) w =
    goes (\<lambda>r. case r of
        Inl e \<Rightarrow> goes (\<lambda>r'. case r' of Inl e' \<Rightarrow> Q (Inl e') | Inr _ \<Rightarrow> Q (Inr Acked)) (route_failed ctx q m e)
      | Inr _ \<Rightarrow> Q (Inr Acked)) (do_work m) w"
  unfolding ack_last_def goes_pbind goes_ptry by (intro goes_cong) (auto simp: goes_pbind intro!: goes_cong split: sum.split)

section \<open>A block\<close>

lemma goes_load_block:
  assumes "get_task (w_db w) tid = Some t" and "get_job (w_db w) jid = Some j"
    and "get_text (w_minio w) (manuscript_key j) = Inr ms" and "block_index t < length (split_blocks ms)"
  shows "goes Q (load_block_text ctx jid tid) w = Q (Inr (split_blocks ms ! block_index t)) w"
  using assms by (simp add: load_block_text_def calmly load_task_def Let_def)

lemma goes_release:
  assumes "\<not> (\<exists>h \<in> set (w_heartbeats v). current_heartbeat ctx token h \<and> hb_failed h)"
  shows "goes Q (sem_release ctx token) v = Q (Inr ())
    (v\<lparr>w_heartbeats := filter (\<lambda>h. \<not> current_heartbeat ctx token h) (w_heartbeats v),
       w_redis := release_push (semaphore ctx) token (release_delete (semaphore ctx) token (w_redis v))\<rparr>)"
  unfolding sem_release_def goes_pbind goes_stop_heartbeat if_not_P [OF assms] by (simp add: goes_effects)

lemma goes_slot:
  assumes "r_list (w_redis w) (slots_key (semaphore ctx)) = token # rest"
    and "\<And>Q v. w_minio v = w_minio w \<Longrightarrow> goes Q work v = Q (Inr a) (v\<lparr>w_minio := s'\<rparr>)"
  shows "goes Q (slot ctx owner work) w = Q (Inr a)
    (w\<lparr>w_minio := s', w_heartbeats := demoted ctx token (w_heartbeats w),
       w_redis := release_push (semaphore ctx) token (release_delete (semaphore ctx) token
         (acquire_lease (semaphore ctx) token owner (popped ctx (w_redis w))))\<rparr>)"
proof -
  let ?h = "\<lparr>hb_worker = worker_id ctx, hb_token = token, hb_owner = owner, hb_current = True, hb_failed = False\<rparr>"
  have keep: "filter (\<lambda>h. \<not> current_heartbeat ctx token h) (demoted ctx token (w_heartbeats w) @ [?h]) =
      demoted ctx token (w_heartbeats w)"
    using demoted_current by (auto simp: filter_id_conv current_heartbeat_def)
  have none: "\<not> (\<exists>h \<in> set (demoted ctx token (w_heartbeats w) @ [?h]). current_heartbeat ctx token h \<and> hb_failed h)"
    using demoted_current by fastforce
  have pop: "acquire_pop (semaphore ctx) (w_redis w) = Some (popped ctx (w_redis w), token)"
    using assms(1) by (simp add: acquire_pop_def redis_lpop_def popped_def)
  let ?v = "start_heartbeat ctx token owner (w\<lparr>w_redis := acquire_lease (semaphore ctx) token owner (popped ctx (w_redis w))\<rparr>)"
  have v: "w_minio ?v = w_minio w" "w_heartbeats ?v = demoted ctx token (w_heartbeats w) @ [?h]"
    by (simp_all add: start_heartbeat_def demoted_def)
  have "goes Q (slot ctx owner work) w = goes Q (pfinally work (sem_release ctx token)) ?v"
    by (simp add: slot_def sem_acquire_def calmly pop)
  also have "\<dots> = goes (\<lambda>r'. case r' of Inl e \<Rightarrow> Q (Inl e) | Inr _ \<Rightarrow> Q (Inr a)) (sem_release ctx token) (?v\<lparr>w_minio := s'\<rparr>)"
    unfolding goes_pfinally by (rule assms(2)) (rule v(1))
  also have "\<dots> = Q (Inr a) (?v\<lparr>w_minio := s', w_heartbeats := demoted ctx token (w_heartbeats w),
      w_redis := release_push (semaphore ctx) token (release_delete (semaphore ctx) token (w_redis ?v))\<rparr>)"
    using goes_release [of "?v\<lparr>w_minio := s'\<rparr>" ctx token] none keep by (simp add: v(2))
  finally show ?thesis by (simp add: start_heartbeat_def)
qed

lemma goes_generate:
  assumes "content_hash block = Inr h" and "BUCKET \<in> set (buckets (w_minio v))"
  shows "goes Q (generate key block) v = Q (Inr ()) (v\<lparr>w_minio := stored key (audio_of h) (w_minio v)\<rparr>)"
  using assms by (simp add: generate_def calmly tts_fake_audio_def put_bytes_def stored_def audio_of_def)

lemma goes_synthesize:
  assumes "plain_keys ctx" and "content_hash block = Inr h" and "redis_get (w_redis w) (inflight_key h) = None"
    and "r_list (w_redis w) SLOTS_KEY = token # rest" and "BUCKET \<in> set (buckets (w_minio w))"
  shows "goes Q (synthesize ctx h key block owner) w = Q (Inr key)
    (w\<lparr>w_minio := stored key (audio_of h) (w_minio w),
       w_heartbeats := demoted ctx token (w_heartbeats w),
       w_redis := synthesized ctx h key owner token (w_redis w)\<rparr>)"
proof -
  let ?w = "w\<lparr>w_redis := fst (acquire_inflight (cache ctx) h owner (w_redis w))\<rparr>"
  have won: "snd (acquire_inflight (cache ctx) h owner (w_redis w))"
    using assms(3) by (simp add: acquire_inflight_def redis_set_nx_def)
  have pool: "r_list (w_redis ?w) (slots_key (semaphore ctx)) = token # rest"
    using assms(1,4) by (simp add: plain_keys_def acquire_inflight_def)
  have work: "goes Q' (generate key block) v = Q' (Inr ()) (v\<lparr>w_minio := stored key (audio_of h) (w_minio w)\<rparr>)"
    if "w_minio v = w_minio ?w" for v Q'
    using that goes_generate [OF assms(2), of v Q' key] assms(5) by simp
  note slot = goes_slot [OF pool work]
  have "goes Q (synthesize ctx h key block owner) w =
      goes (\<lambda>r. case r of Inl e \<Rightarrow> Q (Inl e) | Inr a \<Rightarrow> goes Q (Ret key))
        (pfinally (pbind (slot ctx owner (generate key block)) (\<lambda>_. redis_cmd (\<lambda>r. (cache_set (cache ctx) h key r, ()))))
          (redis_cmd (\<lambda>r. (release_inflight (cache ctx) h r, ())))) ?w"
    using won by (simp add: synthesize_def goes_pbind goes_effects)
  then show ?thesis
    by (simp add: goes_pfinally goes_pbind slot goes_effects synthesized_def)
qed

lemma goes_tts_hit:
  assumes "get_task (w_db w) tid = Some t" and "get_job (w_db w) jid = Some j"
    and "get_text (w_minio w) (manuscript_key j) = Inr ms" and "block_index t < length (split_blocks ms)"
    and "content_hash (split_blocks ms ! block_index t) = Inr h" and "cache_get (cache ctx) h (w_redis w) = Some key"
    and "complete_task_and_decrement (w_db w) jid tid key = (d, Inr remaining)"
  shows "goes Q (handle_tts ctx (TtsRequested e jid tid)) w = goes Q (after_decrement jid remaining) (w\<lparr>w_db := d\<rparr>)"
  using assms by (simp add: handle_tts_def Let_def goes_pbind goes_load_block [OF assms(1-4)] goes_plift goes_effects)

lemma goes_tts_miss:
  assumes "get_task (w_db w) tid = Some t" and "get_job (w_db w) jid = Some j"
    and "get_text (w_minio w) (manuscript_key j) = Inr ms" and "block_index t < length (split_blocks ms)"
    and "content_hash (split_blocks ms ! block_index t) = Inr h" and "cache_get (cache ctx) h (w_redis w) = None"
    and "plain_keys ctx" and "redis_get (w_redis w) (inflight_key h) = None"
    and "r_list (w_redis w) SLOTS_KEY = token # rest" and "BUCKET \<in> set (buckets (w_minio w))"
    and "complete_task_and_decrement (w_db w) jid tid (audio_key_of h) = (d, Inr remaining)"
  shows "goes Q (handle_tts ctx (TtsRequested e jid tid)) w = goes Q (after_decrement jid remaining)
    (w\<lparr>w_minio := stored (audio_key_of h) (audio_of h) (w_minio w),
       w_heartbeats := demoted ctx token (w_heartbeats w),
       w_redis := synthesized ctx h (audio_key_of h) tid token (w_redis w), w_db := d\<rparr>)"
  using assms(6,11)
  by (simp add: handle_tts_def Let_def goes_pbind goes_load_block [OF assms(1-4)] goes_plift goes_effects assms(5)
      goes_synthesize [OF assms(7,5,8-10)])

lemma goes_after_decrement:
  "goes Q (after_decrement jid remaining) w =
    (if emits (w_db w) jid remaining
     then \<forall>u. Q (Inr ()) (w\<lparr>w_broker := exchange_publish (w_broker w) (event_msg (StitchReady u jid)) Q_STITCH\<rparr>)
     else Q (Inr ()) w)"
  by (auto simp: after_decrement_def emits_def emit_stitch_def calmly publish_eq split: option.split)

section \<open>The manuscript and the drama\<close>

lemma goes_parse:
  assumes "get_job (w_db w) jid = Some j" and "get_text (w_minio w) (manuscript_key j) = Inr ms"
    and "simulate_parse ms (PARSE_FAILURE_RATE (settings ctx)) 1 = Inr bs"
    and "parse_transaction jid (capped (MAX_BLOCKS (settings ctx)) bs) (w_db w) = (d, Inr won)"
  shows "goes Q (handle_parse ctx (JobCreated e jid)) w =
    goes Q (fan_out jid (length (capped (MAX_BLOCKS (settings ctx)) bs))) (w\<lparr>w_db := fst (advance_status d jid GENERATING)\<rparr>)"
  using assms by (simp add: handle_parse_def Let_def calmly load_manuscript_key_def split_beta)

lemma goes_pfor_publish:
  assumes "\<And>us. length us = length xs \<Longrightarrow>
    Q (Inr ()) (w\<lparr>w_broker := fold (\<lambda>m b. exchange_publish b m key) (map2 (\<lambda>u x. event_msg (e u x)) us xs) (w_broker w)\<rparr>)"
  shows "goes Q (pfor xs (\<lambda>x. publish_event (\<lambda>u. e u x) key)) w"
  using assms
proof (induction xs arbitrary: w)
  case (Cons x xs)
  have "goes Q (pfor xs (\<lambda>x. publish_event (\<lambda>u. e u x) key)) (w\<lparr>w_broker := publish (w_broker w) (e u x) key\<rparr>)" for u
  proof (rule Cons.IH)
    fix us :: "string list" assume "length us = length xs"
    then show "Q (Inr ()) (w\<lparr>w_broker := publish (w_broker w) (e u x) key,
        w_broker := fold (\<lambda>m b. exchange_publish b m key) (map2 (\<lambda>u x. event_msg (e u x)) us xs)
          (w_broker (w\<lparr>w_broker := publish (w_broker w) (e u x) key\<rparr>))\<rparr>)"
      using Cons.prems [of "u # us"] by (simp add: publish_eq)
  qed
  then show ?case by (simp add: goes_pbind goes_effects)
qed simp

lemma goes_pmap_get:
  "(\<And>k. k \<in> set ks \<Longrightarrow> get_bytes (w_minio w) k = Inr (f k)) \<Longrightarrow>
    goes Q (pmap ks (\<lambda>key. minio_get (\<lambda>s. get_bytes s key))) w = Q (Inr (map f ks)) w"
  by (induction ks arbitrary: Q) (simp_all add: calmly)

lemma goes_stitch:
  assumes "wf_db (w_db w)" and "get_job (w_db w) jid = Some j"
    and "j_status j \<in> {GENERATING, STITCHING}" and "BUCKET \<in> set (buckets (w_minio w))"
    and "\<And>k. k \<in> set (chunk_keys (w_db w) jid) \<Longrightarrow> get_bytes (w_minio w) k = Inr (f k)"
  shows "goes Q (handle_stitch ctx (StitchReady e jid)) w =
    goes Q (notify ctx jid) (w\<lparr>
      w_minio := assembled jid (concat (map f (chunk_keys (w_db w) jid))) (w_minio w),
      w_db := stitched_db jid (w_db w)\<rparr>)"
proof -
  let ?d = "fst (advance_status (w_db w) jid STITCHING)"
  have row: "get_job ?d jid = Some (if j_status j = GENERATING
      then j\<lparr>j_status := STITCHING, j_updated_at := db_now (w_db w)\<rparr> else j)"
    using assms(2,3) by (auto simp: advance_job can_transition_iff)
  have won: "snd (finalize_job ?d jid (final_key_of jid))"
    using finalize_won [OF wf_advance [OF assms(1)] row] assms(3) by auto
  have put: "put_bytes (w_minio w) (final_key_of jid) data ''audio/mpeg'' = Inr (assembled jid data (w_minio w))" for data
    using assms(4) by (simp add: put_bytes_def assembled_def)
  have get: "goes Q' (pmap (chunk_keys (w_db w) jid) (\<lambda>key. minio_get (\<lambda>s. get_bytes s key))) (w\<lparr>w_db := ?d\<rparr>) =
      Q' (Inr (map f (chunk_keys (w_db w) jid))) (w\<lparr>w_db := ?d\<rparr>)" for Q'
    by (rule goes_pmap_get) (simp add: assms(5))
  have "j_status j \<noteq> COMPLETED" using assms(3) by auto
  then show ?thesis
    using assms(2) won put
    by (simp add: handle_stitch_def Let_def goes_pbind goes_read goes_effects split_beta get stitched_db_def)
qed

lemma goes_notify_silent:
  "get_job (w_db w) jid = Some j \<Longrightarrow> callback_url j = None \<Longrightarrow> goes Q (notify ctx jid) w = Q (Inr ()) w"
  by (simp add: notify_def calmly)

lemma goes_create_job:
  assumes "\<And>jid. \<exists>s d. put_text (w_minio w) (manuscript_key_of jid) (manuscript body) = Inr s
    \<and> insert_job (w_db w) jid (manuscript_key_of jid) (req_callback_url body) = Inr d
    \<and> (\<forall>u. Q (Inr (JobAccepted jid)) (w\<lparr>w_minio := s, w_db := d, w_broker := publish (w_broker w) (JobCreated u jid) Q_PARSE\<rparr>))"
  shows "goes Q (create_job body) w"
  unfolding create_job_def goes_pbind [where p = "ask i_uuid"] goes_ask
proof
  show "(case Inr (i_uuid (calm\<lparr>i_uuid := jid\<rparr>)) of Inl e \<Rightarrow> Q (Inl e)
     | Inr jid \<Rightarrow> goes Q (pbind (minio_put (\<lambda>s. put_text s (manuscript_key_of jid) (manuscript body))) (\<lambda>_.
         pbind (transaction (\<lambda>d. case insert_job d jid (manuscript_key_of jid) (req_callback_url body) of
             Inl e \<Rightarrow> (d, Inl e) | Inr d' \<Rightarrow> (d', Inr ()))) (\<lambda>_.
         pbind (publish_event (\<lambda>u. JobCreated u jid) Q_PARSE) (\<lambda>_. Ret (JobAccepted jid)))))) w" for jid
    using assms [of jid] by (auto simp: calmly)
qed

end
