(* ===== verification/Example_Run.thy ===== *)
theory Example_Run
  imports Calm_Stages
begin

text \<open>
  A run of the whole system: a manuscript of one block, from the request to the completed job.
\<close>

section \<open>The booted services\<close>

lemma booted_redis:
  assumes "booted st w" and "delays_ok st"
  shows "w_redis w = ensure_slots (semaphore (context_of st wid)) empty_redis"
proof -
  from assms(1) obtain i wid' w' ctx where r: "i_fault i = NoFault" "run i gateway_startup empty_world = (w', Done ())"
    "run i (build_context st wid') w' = (w, Done ctx)" by (auto simp: booted_def)
  from assms(2) obtain ds where ds: "retry_delays st = Inr ds" "\<forall>d \<in> set ds. 0 \<le> d" by (auto simp: delays_ok_def)
  have wf: "wf_broker (w_broker empty_world)" using wf_empty_broker by (simp add: empty_world_def)
  from run_gateway_startup [OF r(1) wf] r(2) have w': "wf_broker (w_broker w')" "w_redis w' = empty_redis"
    by (auto simp: empty_world_def)
  from run_build_context [OF r(1) w'(1) ds, of wid'] r(3) w'(2) show ?thesis by (auto simp: context_of_def)
qed

lemma ensure_slots_empty:
  assumes "slots_key self = SLOTS_KEY"
  shows "redis_get (ensure_slots self empty_redis) (cache_key h) = None"
    "redis_get (ensure_slots self empty_redis) (inflight_key h) = None"
    "r_list (ensure_slots self empty_redis) SLOTS_KEY = pool_tokens self"
proof -
  have get: "redis_get (fold (\<lambda>tok r. redis_rpush r k tok) toks r1) x = redis_get r1 x" for toks r1 k x
    by (induction toks arbitrary: r1) simp_all
  have lst: "r_list (fold (\<lambda>tok r. redis_rpush r k tok) toks r1) k = r_list r1 k @ toks" for toks r1 k
    by (induction toks arbitrary: r1) (simp_all add: redis_rpush_def)
  have none: "redis_get empty_redis x = None" for x by (simp add: redis_get_def empty_redis_def)
  have "init_marker self \<noteq> cache_key h" "init_marker self \<noteq> inflight_key h" "init_marker self \<noteq> SLOTS_KEY"
    using assms by (simp_all add: init_marker_def cache_key_def inflight_key_def SLOTS_KEY_def CACHE_PREFIX_def INFLIGHT_PREFIX_def)
  then show "redis_get (ensure_slots self empty_redis) (cache_key h) = None"
    "redis_get (ensure_slots self empty_redis) (inflight_key h) = None"
    "r_list (ensure_slots self empty_redis) SLOTS_KEY = pool_tokens self"
    using assms get none lst [of SLOTS_KEY]
    by (simp_all add: ensure_slots_def Let_def redis_get_put)
qed

section \<open>The stages\<close>

text \<open>The database of the run: one job with one block.\<close>

definition job_at :: "string \<Rightarrow> JobStatus \<Rightarrow> int \<Rightarrow> string option \<Rightarrow> Job" where
  "job_at jid status n fk = \<lparr>j_id = jid, j_status = status, pending_count = n, manuscript_key = manuscript_key_of jid,
     final_key = fk, callback_url = None, j_created_at = db_now empty_db, j_updated_at = db_now empty_db\<rparr>"

definition task_at :: "string \<Rightarrow> TaskStatus \<Rightarrow> string option \<Rightarrow> Task" where
  "task_at jid status key = \<lparr>t_id = task_id_of jid 0, t_job = jid, block_index = 0, block_hash = hash_of [97],
     t_status = status, audio_key = key, t_created_at = db_now empty_db, t_updated_at = db_now empty_db\<rparr>"

definition db_at :: "Job \<Rightarrow> Task list \<Rightarrow> db" where
  "db_at j ts = empty_db\<lparr>jobs := [j], tasks := ts\<rparr>"

lemma at_simps [simp]:
  "jobs (db_at j ts) = [j]" "tasks (db_at j ts) = ts" "db_now (db_at j ts) = db_now empty_db"
  "j_id (job_at jid status n fk) = jid" "j_status (job_at jid status n fk) = status" "pending_count (job_at jid status n fk) = n"
  "manuscript_key (job_at jid status n fk) = manuscript_key_of jid" "callback_url (job_at jid status n fk) = None"
  "t_id (task_at jid tst key) = task_id_of jid 0" "t_job (task_at jid tst key) = jid" "block_index (task_at jid tst key) = 0"
  "t_status (task_at jid tst key) = tst" "audio_key (task_at jid tst key) = key"
  by (simp_all add: db_at_def job_at_def task_at_def)

lemma a_block: "split_blocks [97] = [[97]]" "content_hash [97] = Inr (hash_of [97])"
proof -
  show "split_blocks [97] = [[97]]" 
    by (simp add: split_blocks_def splitlines_Cons is_linebreak_def strip_def lstrip_def rstrip_def is_space_def)
  obtain h where "content_hash [97] = Inr h" using content_hash_scalar [of "[97]"] by (auto simp: scalar_def)
  then show "content_hash [97] = Inr (hash_of [97])" by (simp add: hash_of_def)
qed

lemma db_stages:
  "insert_job empty_db jid (manuscript_key_of jid) None = Inr (db_at (job_at jid PENDING 0 None) [])"
  "parse_transaction jid [[97]] (db_at (job_at jid PENDING 0 None) []) =
    (db_at (job_at jid PARSING 1 None) [task_at jid T_PENDING None], Inr True)"
  "advance_status (db_at (job_at jid PARSING 1 None) [task_at jid T_PENDING None]) jid GENERATING =
    (db_at (job_at jid GENERATING 1 None) [task_at jid T_PENDING None], True)"
  "complete_task_and_decrement (db_at (job_at jid GENERATING 1 None) [task_at jid T_PENDING None]) jid (task_id_of jid 0) key =
    (db_at (job_at jid GENERATING 0 None) [task_at jid T_DONE (Some key)], Inr (Some 0))"
  "chunk_keys (db_at (job_at jid GENERATING 0 None) [task_at jid T_DONE (Some key)]) jid = [key]"
  "stitched_db jid (db_at (job_at jid GENERATING 0 None) [task_at jid T_DONE (Some key)]) =
    db_at (job_at jid COMPLETED 0 (Some (final_key_of jid))) [task_at jid T_DONE (Some key)]"
  "wf_db (db_at (job_at jid GENERATING 0 None) [task_at jid T_DONE (Some key)])"
proof -
  show "insert_job empty_db jid (manuscript_key_of jid) None = Inr (db_at (job_at jid PENDING 0 None) [])"
    by (simp add: insert_job_def empty_db_def db_at_def job_at_def)
  have rows: "task_rows n jid [[97]] = Inr [\<lparr>t_id = task_id_of jid 0, t_job = jid, block_index = 0, block_hash = hash_of [97],
     t_status = T_PENDING, audio_key = None, t_created_at = n, t_updated_at = n\<rparr>]" for n
    using task_rows_ok [of "[[97]]" n jid] a_block(2) by (simp add: rows_of_def scalar_def)
  show "parse_transaction jid [[97]] (db_at (job_at jid PENDING 0 None) []) =
    (db_at (job_at jid PARSING 1 None) [task_at jid T_PENDING None], Inr True)"
    by (simp add: parse_transaction_def rows begin_parse_def db_at_def job_at_def task_at_def bind_res_def)
  show "advance_status (db_at (job_at jid PARSING 1 None) [task_at jid T_PENDING None]) jid GENERATING =
    (db_at (job_at jid GENERATING 1 None) [task_at jid T_PENDING None], True)"
    by (simp add: advance_status_def expected_for_iff can_transition_iff db_at_def job_at_def task_at_def)
  show "complete_task_and_decrement (db_at (job_at jid GENERATING 1 None) [task_at jid T_PENDING None]) jid (task_id_of jid 0) key =
    (db_at (job_at jid GENERATING 0 None) [task_at jid T_DONE (Some key)], Inr (Some 0))"
    by (simp add: complete_task_and_decrement_def decrement_pending_def scalar_one_def db_at_def job_at_def task_at_def)
  show "chunk_keys (db_at (job_at jid GENERATING 0 None) [task_at jid T_DONE (Some key)]) jid = [key]"
    by (simp add: chunk_keys_def done_tasks_def)
  show "stitched_db jid (db_at (job_at jid GENERATING 0 None) [task_at jid T_DONE (Some key)]) =
    db_at (job_at jid COMPLETED 0 (Some (final_key_of jid))) [task_at jid T_DONE (Some key)]"
    by (simp add: stitched_db_def advance_status_def finalize_job_def expected_for_iff can_transition_iff db_at_def job_at_def task_at_def)
  show "wf_db (db_at (job_at jid GENERATING 0 None) [task_at jid T_DONE (Some key)])"
    by (simp add: wf_db_def) (simp add: db_at_def empty_db_def)
qed

text \<open>One message in the broker.\<close>

definition holding :: "broker \<Rightarrow> string \<Rightarrow> msg \<Rightarrow> bool" where
  "holding b q m \<longleftrightarrow> wf_broker b \<and> (\<forall>l \<in> set live_queues. bound b l) \<and> (\<forall>k. msgs_in b k = (if k = q then [m] else []))"

definition idle :: "broker \<Rightarrow> bool" where
  "idle b \<longleftrightarrow> wf_broker b \<and> (\<forall>l \<in> set live_queues. bound b l) \<and> (\<forall>k. msgs_in b k = [])"

lemma holding_take:
  assumes "holding b q m"
  obtains b' where "take_msg q b = Some (m, b')" "idle b'"
proof -
  have "wf_broker b" "msgs_in b q = m # []" using assms by (simp_all add: holding_def)
  from take_msg_ok [OF this] obtain b' where b': "take_msg q b = Some (m, b')" "wf_broker b'" "\<And>k. bound b' k = bound b k"
    "\<And>k. msgs_in b' k = (if k = q then [] else msgs_in b k)" by blast
  then have "idle b'" using assms by (simp add: holding_def idle_def)
  with b'(1) show ?thesis by (rule that)
qed

lemma idle_publish: "idle b \<Longrightarrow> q \<in> set live_queues \<Longrightarrow> holding (exchange_publish b m q) q m"
  by (simp add: idle_def holding_def amqp.wf_put amqp.bound_put amqp.contents_put)

section \<open>The run\<close>

definition served :: "string \<Rightarrow> world \<Rightarrow> bool" where
  "served jid w \<longleftrightarrow> BUCKET \<in> set (buckets (w_minio w)) \<and> get_text (w_minio w) (manuscript_key_of jid) = Inr [97]
    \<and> (\<forall>h. redis_get (w_redis w) (inflight_key h) = None) \<and> r_list (w_redis w) SLOTS_KEY \<noteq> []"

definition uncached :: "world \<Rightarrow> bool" where
  "uncached w \<longleftrightarrow> (\<forall>h. redis_get (w_redis w) (cache_key h) = None)"

lemma run_request:
  assumes "BUCKET \<in> set (buckets (w_minio w))" and "w_db w = empty_db" and "idle (w_broker w)"
    and "\<And>h. redis_get (w_redis w) (inflight_key h) = None" and "r_list (w_redis w) SLOTS_KEY \<noteq> []" and "uncached w"
  shows "goes (\<lambda>_ w'. \<exists>jid u. served jid w' \<and> uncached w' \<and> w_db w' = db_at (job_at jid PENDING 0 None) []
      \<and> holding (w_broker w') Q_PARSE (event_msg (JobCreated u jid)))
    (pbind (serve default_settings one_line) (\<lambda>_. Ret ())) w" (is "goes (\<lambda>_. ?Q) _ _")
proof -
  have "goes (\<lambda>_. ?Q) (create_job \<lparr>manuscript = [97], req_callback_url = None\<rparr>) w"
  proof (rule goes_create_job)
    fix jid
    obtain s where s: "put_text (w_minio w) (manuscript_key_of jid) [97] = Inr s"
      using assms(1) by (simp add: put_text_def put_bytes_def utf8_encode_def scalar_def)
    let ?w = "\<lambda>u. w\<lparr>w_minio := s, w_db := db_at (job_at jid PENDING 0 None) [],
      w_broker := publish (w_broker w) (JobCreated u jid) Q_PARSE\<rparr>"
    have b: "buckets s = buckets (w_minio w)"
      using s by (auto simp: put_text_def put_bytes_def bind_res_Inr_iff split: if_splits)
    have "served jid (?w u)" "uncached (?w u)" for u
      using assms(1,4,5,6) b get_text_put_text [OF s] by (simp_all add: served_def uncached_def)
    moreover have "holding (w_broker (?w u)) Q_PARSE (event_msg (JobCreated u jid))" for u
      using idle_publish [OF assms(3), of Q_PARSE] by (simp add: publish_eq live_queues_def)
    ultimately have "?Q (?w u)" for u by (intro exI [of _ jid] exI [of _ u]) simp
    then show "\<exists>s d. put_text (w_minio w) (manuscript_key_of jid) (manuscript \<lparr>manuscript = [97], req_callback_url = None\<rparr>) = Inr s
      \<and> insert_job (w_db w) jid (manuscript_key_of jid) (req_callback_url \<lparr>manuscript = [97], req_callback_url = None\<rparr>) = Inr d
      \<and> (\<forall>u. ?Q (w\<lparr>w_minio := s, w_db := d, w_broker := publish (w_broker w) (JobCreated u jid) Q_PARSE\<rparr>))"
      using s db_stages(1) assms(2) by (intro exI [of _ s] exI [of _ "db_at (job_at jid PENDING 0 None) []"]) simp
  qed
  then show ?thesis
    unfolding goes_pbind serve_def goes_pcatch one_line_def guard_manuscript_size_def by simp
qed

abbreviation the_context :: WorkerContext where
  "the_context \<equiv> context_of default_settings ''w''"

lemma run_parse:
  assumes "served jid w" and "uncached w" and "w_db w = db_at (job_at jid PENDING 0 None) []" and "idle (w_broker w)"
  shows "goes (\<lambda>r w'. r = Inr Acked \<and> (\<exists>u. served jid w' \<and> uncached w'
      \<and> w_db w' = db_at (job_at jid GENERATING 1 None) [task_at jid T_PENDING None]
      \<and> holding (w_broker w') Q_TTS (event_msg (TtsRequested u jid (task_id_of jid 0)))))
    (make_parse_handler the_context (event_msg (JobCreated e jid))) w"
proof -
  have sim: "simulate_parse [97] (PARSE_FAILURE_RATE (settings the_context)) 1 = Inr [[97]]"
  proof -
    have "\<not> contains POISON_MARKER [97]" by code_simp
    then show ?thesis by (simp add: simulate_parse_def default_settings_def context_of_def a_block)
  qed
  have cap: "capped (MAX_BLOCKS (settings the_context)) [[97]] = ([[97]] :: pystr list)"
    by (simp add: capped_def context_of_def default_settings_def)
  have job: "get_job (w_db w) jid = Some (job_at jid PENDING 0 None)" using assms(3) by simp
  have ms: "get_text (w_minio w) (manuscript_key (job_at jid PENDING 0 None)) = Inr [97]" using assms(1) by (simp add: served_def)
  have tx: "parse_transaction jid (capped (MAX_BLOCKS (settings the_context)) [[97]]) (w_db w) =
      (db_at (job_at jid PARSING 1 None) [task_at jid T_PENDING None], Inr True)" using assms(3) cap db_stages(2) by simp
  have pub: "holding (exchange_publish (w_broker w) m Q_TTS) Q_TTS m" for m
    using idle_publish [OF assms(4), of Q_TTS] by (simp add: live_queues_def)
  show ?thesis
    using assms(1,2) pub
    by (simp add: make_parse_handler_def goes_ack_last goes_pbind goes_ask goes_plift goes_parse [OF job ms sim tx] cap
        fan_out_def goes_effects db_stages(3) publish_eq served_def uncached_def)
      blast
qed

definition has_chunk :: "world \<Rightarrow> bool" where
  "has_chunk w \<longleftrightarrow> get_bytes (w_minio w) (audio_key_of (hash_of [97])) = Inr (audio_of (hash_of [97]))
    \<and> redis_get (w_redis w) (cache_key (hash_of [97])) = Some (audio_key_of (hash_of [97]))"

lemma run_tts:
  assumes "served jid w" and "uncached w" and "idle (w_broker w)"
    and "w_db w = db_at (job_at jid GENERATING 1 None) [task_at jid T_PENDING None]"
  shows "goes (\<lambda>r w'. r = Inr Acked \<and> (\<exists>u. served jid w' \<and> has_chunk w'
      \<and> w_db w' = db_at (job_at jid GENERATING 0 None) [task_at jid T_DONE (Some (audio_key_of (hash_of [97])))]
      \<and> holding (w_broker w') Q_STITCH (event_msg (StitchReady u jid))))
    (make_tts_handler the_context (event_msg (TtsRequested e jid (task_id_of jid 0)))) w"
proof -
  let ?h = "hash_of [97]" and ?j = "job_at jid GENERATING 1 None" and ?t = "task_at jid T_PENDING None"
  have plain: "plain_keys the_context" by (rule plain_keys_context) (simp add: default_settings_def)
  have row: "get_task (w_db w) (task_id_of jid 0) = Some ?t" "get_job (w_db w) jid = Some ?j" using assms(4) by simp_all
  have ms: "get_text (w_minio w) (manuscript_key ?j) = Inr [97]" "block_index ?t < length (split_blocks [97])"
    "content_hash (split_blocks [97] ! block_index ?t) = Inr ?h" using assms(1) a_block by (simp_all add: served_def)
  have r: "cache_get (cache the_context) ?h (w_redis w) = None" "redis_get (w_redis w) (inflight_key ?h) = None"
    using assms(1,2) by (simp_all add: cache_get_def uncached_def served_def)
  obtain token rest where pool: "r_list (w_redis w) SLOTS_KEY = token # rest"
    using assms(1) by (cases "r_list (w_redis w) SLOTS_KEY") (auto simp: served_def)
  have bk: "BUCKET \<in> set (buckets (w_minio w))" using assms(1) by (simp add: served_def)
  let ?s = "stored (audio_key_of ?h) (audio_of ?h) (w_minio w)"
  let ?r = "synthesized the_context ?h (audio_key_of ?h) (task_id_of jid 0) token (w_redis w)"
  have c: "complete_task_and_decrement (w_db w) jid (task_id_of jid 0) (audio_key_of ?h) =
      (db_at (job_at jid GENERATING 0 None) [task_at jid T_DONE (Some (audio_key_of ?h))], Inr (Some 0))"
    using assms(4) db_stages(4) by simp
  have pub: "holding (exchange_publish (w_broker w) m Q_STITCH) Q_STITCH m" for m
    using idle_publish [OF assms(3), of Q_STITCH] by (simp add: live_queues_def)
  have "get_text ?s (manuscript_key_of jid) = Inr [97]"
    using assms(1) get_bytes_stored [OF bk] by (simp add: served_def get_text_def)
  moreover have "get_bytes ?s (audio_key_of ?h) = Inr (audio_of ?h)" using get_bytes_stored [OF bk] by simp
  moreover have "redis_get ?r (cache_key ?h) = Some (audio_key_of ?h)"
    using synthesized_cache [OF plain, where c = "cache the_context"] by (simp add: cache_get_def)
  moreover have "redis_get ?r (inflight_key h) = None" for h
    using synthesized_inflight [OF plain] assms(1) by (simp add: served_def)
  moreover have "r_list ?r SLOTS_KEY \<noteq> []" using synthesized_pool [OF plain pool] by simp
  ultimately show ?thesis
    using bk pub
    by (simp add: make_tts_handler_def goes_ack_last goes_pbind goes_ask goes_plift
        goes_tts_miss [OF row ms r(1) plain r(2) pool bk c] goes_after_decrement emits_def served_def has_chunk_def)
      blast
qed

lemma run_stitch:
  assumes "served jid w" and "has_chunk w"
    and "w_db w = db_at (job_at jid GENERATING 0 None) [task_at jid T_DONE (Some (audio_key_of (hash_of [97])))]"
  shows "goes (\<lambda>r w'. r = Inr Acked \<and> has_chunk w'
      \<and> w_db w' = db_at (job_at jid COMPLETED 0 (Some (final_key_of jid))) [task_at jid T_DONE (Some (audio_key_of (hash_of [97])))])
    (make_stitch_handler the_context (event_msg (StitchReady e jid))) w"
proof -
  let ?j = "job_at jid GENERATING 0 None" and ?k = "audio_key_of (hash_of [97])"
  have d: "wf_db (w_db w)" "get_job (w_db w) jid = Some ?j" "j_status ?j \<in> {GENERATING, STITCHING}"
    using assms(3) db_stages(7) by simp_all
  have bk: "BUCKET \<in> set (buckets (w_minio w))" using assms(1) by (simp add: served_def)
  have get: "get_bytes (w_minio w) k = Inr (audio_of (hash_of [97]))" if "k \<in> set (chunk_keys (w_db w) jid)" for k
    using that assms(2,3) db_stages(5) by (simp add: has_chunk_def)
  have db: "stitched_db jid (w_db w) = db_at (job_at jid COMPLETED 0 (Some (final_key_of jid))) [task_at jid T_DONE (Some ?k)]"
    using assms(3) db_stages(6) by simp
  have kept: "get_bytes (assembled jid data (w_minio w)) ?k = get_bytes (w_minio w) ?k" for data
    by (simp add: assembled_def get_bytes_def update_conv)
  show ?thesis
    using assms(2) kept
    by (simp add: make_stitch_handler_def goes_ack_last goes_pbind goes_ask goes_plift goes_stitch [OF d bk get]
        goes_notify_silent [where j = "job_at jid COMPLETED 0 (Some (final_key_of jid))"] db has_chunk_def)
qed

lemma whole_run:
  assumes "booted default_settings w"
  shows "\<exists>s jid. sys_reach default_settings esc no_block_given_up (sys_of w) s
    \<and> get_job (w_db (s_world s)) jid = Some (job_at jid COMPLETED 0 (Some (final_key_of jid))) \<and> has_chunk (s_world s)"
proof -
  let ?reach = "sys_reach default_settings esc no_block_given_up (sys_of w)"
  have ds: "delays_ok default_settings" by (simp add: delays_ok_def default_retry_delays)
  note b = booted_facts [OF assms ds]
  note live = topo_ok_live [OF b(1)]
  have "slots_key (semaphore the_context) = SLOTS_KEY" by (simp add: context_of_def)
  note r = ensure_slots_empty [OF this, folded booted_redis [OF assms ds, where wid = "''w''"]]
  have "pool_tokens (semaphore the_context) \<noteq> []"
    by (simp add: pool_tokens_def context_of_def default_settings_def)
  then have pool: "r_list (w_redis w) SLOTS_KEY \<noteq> []" using r(3) by simp
  have "idle (w_broker w)" using live b(2) by (simp add: idle_def live_queues_def)
  note req = run_request [OF b(4,3) this r(2) pool]
  have calm: "no_block_given_up s" if "s_procs s = [] \<or> s_procs s = [\<lparr>p_worker = ''w'', p_queue = q, p_msg = m, p_prog = p\<rparr>]" "q \<noteq> Q_DLQ" for s p q m
    using that by (auto simp: no_block_given_up_def)
  have "sys_of w = resting w {}" by (simp add: sys_of_def resting_def)
  moreover have "?reach (sys_of w)" by (rule sys_reach.init) (simp add: no_block_given_up_def sys_of_def)
  ultimately have "?reach (resting w {})" by simp
  from calm_task [OF this _ background.request req] obtain w1 D1 jid u1 where 1: "served jid w1" "uncached w1"
    "w_db w1 = db_at (job_at jid PENDING 0 None) []" "holding (w_broker w1) Q_PARSE (event_msg (JobCreated u1 jid))"
    "finite D1" "?reach (resting w1 D1)"
    using r(1) calm by (fastforce simp: uncached_def)
  obtain b1 where b1: "take_msg Q_PARSE (w_broker w1) = Some (event_msg (JobCreated u1 jid), b1)" "idle b1"
    using holding_take [OF 1(4)] by blast
  have "served jid (w1\<lparr>w_broker := b1\<rparr>)" "uncached (w1\<lparr>w_broker := b1\<rparr>)" using 1(1,2) by (simp_all add: served_def uncached_def)
  from calm_delivery [OF 1(6,5) b1(1) handlers_table(1) run_parse [OF this]] obtain w2 D2 u2 where 2: "served jid w2" "uncached w2"
    "w_db w2 = db_at (job_at jid GENERATING 1 None) [task_at jid T_PENDING None]"
    "holding (w_broker w2) Q_TTS (event_msg (TtsRequested u2 jid (task_id_of jid 0)))" "finite D2" "?reach (resting w2 D2)"
    using 1(3) b1(2) calm by fastforce
  obtain b2 where b2: "take_msg Q_TTS (w_broker w2) = Some (event_msg (TtsRequested u2 jid (task_id_of jid 0)), b2)" "idle b2"
    using holding_take [OF 2(4)] by blast
  have "served jid (w2\<lparr>w_broker := b2\<rparr>)" "uncached (w2\<lparr>w_broker := b2\<rparr>)" using 2(1,2) by (simp_all add: served_def uncached_def)
  from calm_delivery [OF 2(6,5) b2(1) handlers_table(2) run_tts [OF this]] obtain w3 D3 u3 where 3: "served jid w3" "has_chunk w3"
    "w_db w3 = db_at (job_at jid GENERATING 0 None) [task_at jid T_DONE (Some (audio_key_of (hash_of [97])))]"
    "holding (w_broker w3) Q_STITCH (event_msg (StitchReady u3 jid))" "finite D3" "?reach (resting w3 D3)"
    using 2(3) b2(2) calm by fastforce
  obtain b3 where b3: "take_msg Q_STITCH (w_broker w3) = Some (event_msg (StitchReady u3 jid), b3)"
    using holding_take [OF 3(4)] by blast
  have "served jid (w3\<lparr>w_broker := b3\<rparr>)" "has_chunk (w3\<lparr>w_broker := b3\<rparr>)" using 3(1,2) by (simp_all add: served_def has_chunk_def)
  from calm_delivery [OF 3(6,5) b3(1) handlers_table(3) run_stitch [OF this]] obtain w4 D4 where 4: "has_chunk w4"
    "w_db w4 = db_at (job_at jid COMPLETED 0 (Some (final_key_of jid))) [task_at jid T_DONE (Some (audio_key_of (hash_of [97])))]"
    "?reach (resting w4 D4)"
    using 3(3) calm by fastforce
  then show ?thesis by (intro exI [of _ "resting w4 D4"] exI [of _ jid]) (simp add: resting_def)
qed

end
