(* ===== verification/Drama.thy ===== *)
theory Drama
  imports Audio Example_Run
begin

text \<open>
  The audio of the whole system: the invariant \<open>audio_ok\<close> holds in every reachable state. Each step of
  the system moves the database by \<open>history\<close> and leaves the manuscripts of existing jobs alone, so it is
  a step that the deliveries may rely on.
\<close>

section \<open>What a transaction leaves in place\<close>

definition history :: "db \<Rightarrow> db \<Rightarrow> bool" where
  "history d d' \<longleftrightarrow> (wf_db d \<longrightarrow> statuses_step d d' \<and> (\<forall>jid k. row_at d jid k \<longrightarrow> row_at d' jid k)
    \<and> (\<forall>tid. is_done d tid \<longrightarrow> is_done d' tid))"

lemma history_tasks:
  assumes "\<And>t. t \<in> set (tasks d) \<Longrightarrow> \<exists>t' \<in> set (tasks d'). t_id t' = t_id t \<and> t_job t' = t_job t \<and> block_index t' = block_index t
      \<and> (t_status t = T_DONE \<longrightarrow> t_status t' = T_DONE)"
    and "wf_db d \<Longrightarrow> statuses_step d d'"
  shows "history d d'"
  unfolding history_def row_at_def is_done_def using assms by (metis (no_types, lifting))

lemma history_same_tasks: "tasks d' = tasks d \<Longrightarrow> statuses_step d d' \<Longrightarrow> history d d'"
  by (rule history_tasks) auto

lemma insert_tasks_keep: "insert_tasks rows d = Inr d' \<Longrightarrow> set (tasks d) \<subseteq> set (tasks d')"
proof (induction rows arbitrary: d)
  case (Cons r rows)
  then consider "insert_tasks rows d = Inr d'"
    | "insert_tasks rows (d\<lparr>tasks := tasks d @ [r]\<rparr>) = Inr d'"
    by (auto split: if_splits)
  then show ?case using Cons.IH by cases fastforce+
qed simp

lemma history_parse: "history d (fst (parse_transaction jid blocks d))"
proof (cases "bind_res (task_rows (db_now d) jid blocks) (\<lambda>rows. insert_tasks rows d)")
  case (Inl e)
  then show ?thesis by (intro history_same_tasks) (simp_all add: parse_transaction_def)
next
  case (Inr d1)
  then obtain rows where rows: "insert_tasks rows d = Inr d1" by (auto simp: bind_res_Inr_iff)
  let ?d = "fst (begin_parse d1 jid (int (length blocks)))"
  have d: "fst (parse_transaction jid blocks d) = ?d" using Inr by (simp add: parse_transaction_def split_beta)
  have ts: "tasks ?d = tasks d1" by (simp add: begin_parse_def Let_def)
  have "statuses_step d ?d"
    using statuses_begin_parse [of d1 jid "int (length blocks)"] insert_tasks_jobs [OF rows] by (simp add: statuses_step_def)
  then show ?thesis
    unfolding d by (intro history_tasks) (use ts insert_tasks_keep [OF rows] in auto)
qed

lemma history_claims:
  "history d (fst (complete_task_and_decrement d jid tid key))" "history d (fst (fail_task_and_decrement d jid tid))"
proof -
  have keep: "\<exists>t' \<in> set (sql_update P f (tasks d)). t_id t' = t_id t \<and> t_job t' = t_job t \<and> block_index t' = block_index t
      \<and> (t_status t = T_DONE \<longrightarrow> t_status t' = T_DONE)"
    if "t \<in> set (tasks d)" "\<And>t. P t \<Longrightarrow> t_status t \<noteq> T_DONE"
      "\<And>t. t_id (f t) = t_id t \<and> t_job (f t) = t_job t \<and> block_index (f t) = block_index t" for t P f
  proof (rule bexI)
    show "(if P t then f t else t) \<in> set (sql_update P f (tasks d))" using that(1) by (simp add: sql_update_def)
  qed (use that(2,3) in auto)
  have dec: "tasks (fst (decrement_pending e jid)) = tasks e" for e by (simp add: decrement_pending_def Let_def)
  show "history d (fst (complete_task_and_decrement d jid tid key))"
  proof (rule history_tasks [OF _ statuses_complete])
    fix t assume t: "t \<in> set (tasks d)"
    let ?P = "\<lambda>t. t_id t = tid \<and> t_status t \<noteq> T_DONE"
    let ?ts = "sql_update ?P (\<lambda>t. t\<lparr>t_status := T_DONE, audio_key := Some key, t_updated_at := db_now d\<rparr>) (tasks d)"
    have "tasks (fst (complete_task_and_decrement d jid tid key)) \<in> {tasks d, ?ts}"
      using dec [of "d\<lparr>tasks := ?ts\<rparr>"] by (auto simp: complete_task_and_decrement_def Let_def split: prod.splits sum.splits)
    then show "\<exists>t' \<in> set (tasks (fst (complete_task_and_decrement d jid tid key))). t_id t' = t_id t \<and> t_job t' = t_job t
        \<and> block_index t' = block_index t \<and> (t_status t = T_DONE \<longrightarrow> t_status t' = T_DONE)"
      using keep [OF t, of ?P "\<lambda>t. t\<lparr>t_status := T_DONE, audio_key := Some key, t_updated_at := db_now d\<rparr>"] t by auto
  qed
  show "history d (fst (fail_task_and_decrement d jid tid))"
  proof (rule history_tasks [OF _ statuses_fail])
    fix t assume t: "t \<in> set (tasks d)"
    let ?P = "\<lambda>t. t_id t = tid \<and> t_status t \<notin> {T_DONE, T_FAILED}"
    let ?ts = "sql_update ?P (\<lambda>t. t\<lparr>t_status := T_FAILED, t_updated_at := db_now d\<rparr>) (tasks d)"
    have "tasks (fst (fail_task_and_decrement d jid tid)) \<in> {tasks d, ?ts}"
      using dec [of "d\<lparr>tasks := ?ts\<rparr>"] by (auto simp: fail_task_and_decrement_def Let_def split: prod.splits sum.splits)
    then show "\<exists>t' \<in> set (tasks (fst (fail_task_and_decrement d jid tid))). t_id t' = t_id t \<and> t_job t' = t_job t
        \<and> block_index t' = block_index t \<and> (t_status t = T_DONE \<longrightarrow> t_status t' = T_DONE)"
      using keep [OF t, of ?P "\<lambda>t. t\<lparr>t_status := T_FAILED, t_updated_at := db_now d\<rparr>"] t by auto
  qed
qed

interpretation history_rel: query_relation history
proof
  fix d d' jid tid key blocks target cb retention now
  show "history d d" by (rule history_same_tasks) simp_all
  show "history d (fst (complete_task_and_decrement d jid tid key))" "history d (fst (fail_task_and_decrement d jid tid))"
    by (rule history_claims)+
  show "history d (fst (parse_transaction jid blocks d))" by (rule history_parse)
  show "history d (fst (advance_status d jid target))"
    by (rule history_same_tasks [OF _ statuses_advance]) (simp add: advance_status_def Let_def)
  show "history d (fst (finalize_job d jid key))"
    by (rule history_same_tasks [OF _ statuses_finalize]) (simp add: finalize_job_def Let_def)
  show "history d d'" if "insert_job d jid key cb = Inr d'"
    by (rule history_same_tasks [OF _ statuses_insert_job [OF that]]) (use that in \<open>auto simp: insert_job_def split: if_splits\<close>)
  show "history d (fst (purge_processed_events d retention))"
    by (rule history_same_tasks) (auto simp: purge_processed_events_def Let_def statuses_step_def status_step_def)
  show "history d (d\<lparr>db_now := now\<rparr>)"
    by (rule history_same_tasks) (auto simp: statuses_step_def status_step_def)
qed

text \<open>Between two good worlds that is all the invariant of a delivery needs.\<close>

lemma history_evolves:
  assumes h: "history (w_db w) (w_db w')" and ok: "db_ok st w" "db_ok st w'"
    and mss: "\<And>jid ms. get_job (w_db w) jid \<noteq> None \<Longrightarrow> get_text (w_minio w) (manuscript_key_of jid) = Inr ms \<Longrightarrow>
      get_text (w_minio w') (manuscript_key_of jid) = Inr ms"
  shows "evolves w w'"
proof -
  let ?d = "w_db w" and ?d' = "w_db w'"
  have s: "statuses_step ?d ?d'" "\<And>jid k. row_at ?d jid k \<Longrightarrow> row_at ?d' jid k" "\<And>tid. is_done ?d tid \<Longrightarrow> is_done ?d' tid"
    using h db_ok_D(1) [OF ok(1)] by (simp_all add: history_def)
  have "settled ?d' jid" if set: "settled ?d jid" for jid
  proof (cases "status_in ?d jid {FAILED}")
    case True
    then have "status_in ?d' jid {FAILED}" by (rule status_in_step [OF s(1)]) (auto simp: can_transition_iff)
    then show ?thesis by (simp add: settled_def)
  next
    case False
    then have l: "launched ?d jid" "all_done ?d jid" using set by (auto simp: settled_def)
    from l(1) False obtain j where j: "get_job ?d jid = Some j" "j_status j \<notin> {PENDING, FAILED}" by (auto simp: status_in_def)
    have "launched ?d' jid" using l(1) by (rule status_in_step [OF s(1)]) (auto simp: can_transition_iff)
    moreover have "all_done ?d' jid"
      unfolding all_done_def
    proof (intro ballI impI)
      fix t' assume t': "t' \<in> set (tasks ?d')" "t_job t' = jid"
      obtain ms where ms: "get_text (w_minio w) (manuscript_key_of jid) = Inr ms" using db_ok_D(7) [OF ok(1) j(1)] by blast
      have "blks st w' jid = blks st w jid" using mss [of jid ms] ms j(1) by (simp add: blks_def)
      then have "block_index t' < length (blks st w jid)" using db_ok_D(5) [OF ok(2) t'(1)] t'(2) by simp
      then have "row_at ?d jid (block_index t')" by (rule db_ok_D(8) [OF ok(1) j])
      then obtain t where t: "t \<in> set (tasks ?d)" "t_job t = jid" "block_index t = block_index t'" by (auto simp: row_at_def)
      then have "t_status t = T_DONE" using l(2) by (simp add: all_done_def)
      with t(1) have "is_done ?d (t_id t)" by (auto simp: is_done_def)
      then obtain u where u: "u \<in> set (tasks ?d')" "t_id u = t_id t" "t_status u = T_DONE" using s(3) by (auto simp: is_done_def)
      have "t_id t = t_id t'"
        using db_ok_D(2) [OF ok(1)] db_ok_D(2) [OF ok(2)] t t' by (simp add: task_ids_ok_def)
      then have "u = t'"
        using u(1,2) t'(1) get_task_row [OF db_ok_D(1) [OF ok(2)]] by (metis option.inject)
      then show "t_status t' = T_DONE" using u(3) by simp
    qed
    ultimately show ?thesis by (simp add: settled_def)
  qed
  then show ?thesis using s mss by (auto simp: evolves_def kept_def)
qed

section \<open>A step of the system\<close>

lemma ptrans_texts:
  "ptrans st q m S w w' S' \<Longrightarrow> get_text (w_minio w') (manuscript_key_of jid) = get_text (w_minio w) (manuscript_key_of jid)"
  by (induction rule: ptrans.induct) (simp_all add: quiet_def)

lemma btrans_texts:
  assumes "btrans st i S w w' S'" and "gs_ok w G D" and "S \<in> set G" and "get_job (w_db w) jid \<noteq> None"
    and "get_text (w_minio w) (manuscript_key_of jid) = Inr ms"
  shows "get_text (w_minio w') (manuscript_key_of jid) = Inr ms"
  using assms(1)
proof (cases rule: btrans.cases)
  case free
  then show ?thesis using assms(5) by (simp add: beside_def texts_kept_def)
next
  case (put u x s)
  then have "u \<noteq> jid" using gs_ok_D(2) [OF assms(2,3), of u] assms(4) by auto
  then show ?thesis using get_text_put_other [OF put(3)] assms(5) put by simp
qed (use assms(5) in simp_all)

lemma beat_minio [simp]: "w_minio (beat ctx k f w) = w_minio w"
  by (simp add: beat_def Let_def split: fault.split)

lemma give_back_minio [simp]: "w_minio (give_back again p w) = w_minio w" "w_redis (give_back again p w) = w_redis w"
  by (simp_all add: give_back_def)

lemma fold_give_back_minio [simp]:
  "w_minio (fold (give_back again) ps w) = w_minio w" "w_redis (fold (give_back again) ps w) = w_redis w"
  by (induction ps arbitrary: w) simp_all

lemma step_texts:
  assumes step: "sys_step st esc s s'" and ok: "sys_ok st esc s" and "get_job (w_db (s_world s)) jid \<noteq> None"
    and "get_text (w_minio (s_world s)) (manuscript_key_of jid) = Inr ms"
  shows "get_text (w_minio (s_world s')) (manuscript_key_of jid) = Inr ms"
proof -
  from ok obtain H G where H: "list_all2 (plays st esc) (s_procs s) H" and G: "list_all2 (runs_beside st) (s_tasks s) G"
    and inv: "choreo st (s_world s) H G (s_drawn s)" by (auto simp: sys_ok_def)
  from step show ?thesis
  proof (cases rule: sys_step.cases)
    case (handler k f i w' p')
    have "plays st esc (s_procs s ! k) (H ! k)" using list_all2_nthD [OF H handler(2)] .
    then obtain S where "follows st (p_queue (s_procs s ! k)) (p_msg (s_procs s ! k)) (handler_end esc) (Step f) S"
      by (auto simp: plays_def handler(3))
    then obtain S' where "ptrans st (p_queue (s_procs s ! k)) (p_msg (s_procs s ! k)) S (s_world s) w' S'"
      using handler(5) unfolding sim_Step by blast
    then show ?thesis using ptrans_texts assms(4) handler(1) by simp
  next
    case (task k f i w' t')
    have "runs_beside st (Step f) (G ! k)" using list_all2_nthD [OF G task(2)] task(3) by simp
    then obtain S' where b: "btrans st i (G ! k) (s_world s) w' S'" using task(5) unfolding sim_Step by blast
    have "G ! k \<in> set G" using task(2) list_all2_lengthD [OF G] by simp
    moreover have "gs_ok (s_world s) G (s_drawn s)" using inv by (simp add: choreo_def)
    ultimately show ?thesis using btrans_texts [OF b _ _ assms(3,4)] task(1) by simp
  qed (use assms(4) in \<open>simp_all add: crash_worker_def\<close>)
qed

lemma step_joint:
  assumes "sys_step st esc s s'" and "sys_ok st esc s" and "sys_ok st esc s'" and "programs_ok (on_db history) s"
  shows "joint st (s_world s) (s_world s')"
proof -
  have ok: "db_ok st (s_world s)" "db_ok st (s_world s')" using assms(2,3) by (auto simp: sys_ok_def choreo_def)
  have "history (w_db (s_world s)) (w_db (s_world s'))" using history_rel.system_step [OF assms(1,4)] by blast
  then have "evolves (s_world s) (s_world s')"
    by (rule history_evolves [OF _ ok]) (rule step_texts [OF assms(1,2)])
  with ok show ?thesis by (simp add: joint_def)
qed

section \<open>The invariant of the system\<close>

definition audio_sys :: "Settings \<Rightarrow> sys \<Rightarrow> bool" where
  "audio_sys st s \<longleftrightarrow> audio_ok st (s_world s)
    \<and> (\<forall>p \<in> set (s_procs s). keeps_audio st (\<lambda>_ _. True) (p_prog p) (s_world s))
    \<and> (\<forall>t \<in> set (s_tasks s). all_steps inert t)"

lemma cache_kept_wiped [simp]: "cache_kept r (empty_redis\<lparr>r_now := now\<rparr>)"
  by (simp add: cache_kept_def empty_redis_def redis_get_def)

lemma inert_environment:
  "inert w (beat (context_of st wid) k f w)"
  "inert w (w\<lparr>w_redis := redis_tick (w_redis w) dt, w_db := (w_db w)\<lparr>db_now := now\<rparr>\<rparr>)"
  "inert w (w\<lparr>w_redis := empty_redis\<lparr>r_now := now'\<rparr>\<rparr>)"
proof -
  show "inert w (beat (context_of st wid) k f w)"
    by (auto simp: beat_def Let_def inert_def cache_kept_semaphore split: fault.split)
  have "no_new (w_db w) ((w_db w)\<lparr>db_now := now\<rparr>)" by (rule no_new_same) simp_all
  then show "inert w (w\<lparr>w_redis := redis_tick (w_redis w) dt, w_db := (w_db w)\<lparr>db_now := now\<rparr>\<rparr>)"
    by (simp add: inert_def cache_kept_tick)
  show "inert w (w\<lparr>w_redis := empty_redis\<lparr>r_now := now'\<rparr>\<rparr>)" by simp
qed

lemma inert_give_back: "inert w (give_back again p w)"
  by (simp add: inert_def)

lemma audio_step:
  assumes step: "sys_step st esc s s'" and ok: "sys_ok st esc s" "sys_ok st esc s'" and "programs_ok (on_db history) s"
    and inv: "audio_sys st s"
  shows "audio_sys st s'"
proof -
  let ?w = "s_world s" and ?w' = "s_world s'"
  have j: "joint st ?w ?w'" by (rule step_joint [OF step ok assms(4)])
  have db: "db_ok st ?w" using ok(1) by (auto simp: sys_ok_def choreo_def)
  have good: "rely st ?w ?w" using db inv by (simp add: rely_def audio_sys_def)
  have msgs: "msg_ok (w_db ?w) q m" if "m \<in> set (msgs_in (w_broker ?w) q)" for q m
    using ok(1) that by (auto simp: sys_ok_def choreo_def)
  have procs: "keeps_audio st (\<lambda>_ _. True) (p_prog p) ?w" if "p \<in> set (s_procs s)" for p using inv that by (simp add: audio_sys_def)
  have tasks: "all_steps inert t" if "t \<in> set (s_tasks s)" for t using inv that by (simp add: audio_sys_def)
  have conclude: "audio_sys st s'" if g: "guar st ?w ?w'"
    and p: "\<And>p. p \<in> set (s_procs s') \<Longrightarrow> p \<in> set (s_procs s) \<or> keeps_audio st (\<lambda>_ _. True) (p_prog p) ?w \<or> keeps_audio st (\<lambda>_ _. True) (p_prog p) ?w'"
    and t: "\<And>t. t \<in> set (s_tasks s') \<Longrightarrow> t \<in> set (s_tasks s) \<or> all_steps inert t"
  proof -
    have r: "rely st ?w ?w'" by (rule audio.R_step [OF good g j])
    then have "audio_ok st ?w'" by (simp add: rely_def)
    moreover have "keeps_audio st (\<lambda>_ _. True) (p_prog q) ?w'" if "q \<in> set (s_procs s')" for q
      using p [OF that] procs audio.sound_later [OF _ r] by blast
    moreover have "all_steps inert q" if "q \<in> set (s_tasks s')" for q using t [OF that] tasks by blast
    ultimately show ?thesis by (simp add: audio_sys_def)
  qed
  from step show ?thesis
  proof (cases rule: sys_step.cases)
    case (deliver q m b wid h)
    have "wf_broker (w_broker ?w)" using ok(1) by (auto simp: sys_ok_def choreo_def topo_ok_def)
    then have "msgs_in (w_broker ?w) q = m # msgs_in b q" using take_msg_D(3) [OF _ deliver(2)] by blast
    then have "keeps_audio st (\<lambda>_ _. True) (h m) ?w" using keeps_handler [OF deliver(3) msgs] by simp
    then show ?thesis by (intro conclude inert_guar [OF good]) (auto simp: deliver(1))
  next
    case (handler k f i w' p')
    have "s_procs s ! k \<in> set (s_procs s)" using handler(2) by simp
    then have "keeps_audio st (\<lambda>_ _. True) (Step f) ?w" using procs handler(3) by fastforce
    then have g: "guar st ?w w'" "joint st ?w w' \<Longrightarrow> keeps_audio st (\<lambda>_ _. True) p' w'"
      using handler(5) good unfolding sound_Step by blast+
    moreover have "s_world s' = w'" by (simp add: handler(1))
    ultimately show ?thesis
      using j by (intro conclude) (auto simp: handler(1) dest!: set_update_subset_insert [THEN subsetD])
  next
    case (settle k r)
    then show ?thesis
      by (intro conclude inert_guar [OF good]) (auto simp: inert_give_back dest: set_remove_nth [THEN subsetD])
  next
    case (escape k e)
    then show ?thesis
      by (intro conclude inert_guar [OF good]) (auto simp: inert_give_back dest: set_remove_nth [THEN subsetD])
  next
    case (start t)
    then show ?thesis by (intro conclude inert_guar [OF good]) (auto simp: inert_background)
  next
    case (task k f i w' t')
    have "s_tasks s ! k \<in> set (s_tasks s)" using task(2) by simp
    then have "all_steps inert (Step f)" using tasks task(3) by metis
    then have "inert ?w w'" "all_steps inert t'" using task(5) by (auto simp: all_steps_Step)
    then show ?thesis
      by (intro conclude inert_guar [OF good]) (auto simp: task(1) dest!: set_update_subset_insert [THEN subsetD])
  next
    case (stop k)
    then show ?thesis by (intro conclude inert_guar [OF good]) (auto dest: set_remove_nth [THEN subsetD])
  next
    case (crash wid)
    then show ?thesis by (intro conclude inert_guar [OF good]) (auto simp: crash_worker_def inert_def)
  qed (intro conclude inert_guar [OF good]; simp add: inert_environment)+
qed

section \<open>Every reachable state\<close>

lemma booted_cache: "booted st w \<Longrightarrow> delays_ok st \<Longrightarrow> redis_get (w_redis w) (cache_key h) = None"
  using booted_redis [where wid = "''w''"] ensure_slots_empty(1) by (simp add: context_of_def)

lemma audio_reach:
  assumes "booted st w" and "delays_ok st" and "esc InfraError"
    and "sys_reach st esc no_block_given_up (sys_of w) s"
  shows "audio_sys st s"
  using assms(4)
proof induction
  case init
  note b = booted_facts [OF assms(1,2)]
  have "audio_ok st w"
    using booted_cache [OF assms(1,2)] b(3)
    by (simp add: audio_ok_def cache_points_def tasks_have_audio_def completed_whole_def empty_db_def)
  then show ?case by (simp add: audio_sys_def sys_of_def)
next
  case (step s s')
  have ok: "sys_ok st esc s" by (rule sys_ok_reach [OF step.hyps(1) booted_ok [OF assms(1,2)] assms(2,3)])
  have "sys_ok st esc s'"
    by (rule sys_ok_reach [OF sys_reach.step [OF step.hyps] booted_ok [OF assms(1,2)] assms(2,3)])
  then show ?case by (rule audio_step [OF step.hyps(2) ok _ history_rel.system_reach [OF step.hyps(1)] step.IH])
qed





end
