(* ===== verification/Redis_Use.thy ===== *)
theory Redis_Use
  imports System
begin

text \<open>
  What the whole system does to Redis, as an interface: a relation that every command of the adapter
  satisfies, and so every step of the system. Its use: the leases of the semaphore and the in-flight
  locks always have an expiry, so a lock that a crash leaves behind is gone after some time.
\<close>

definition on_redis :: "(redis \<Rightarrow> redis \<Rightarrow> bool) \<Rightarrow> world \<Rightarrow> world \<Rightarrow> bool" where
  "on_redis E w w' \<longleftrightarrow> E (w_redis w) (w_redis w')"

locale redis_relation =
  fixes E :: "redis \<Rightarrow> redis \<Rightarrow> bool"
  assumes E_refl: "E r r"
    and E_pop: "slots_key self = SLOTS_KEY \<Longrightarrow> acquire_pop self r = Some (r', v) \<Longrightarrow> E r r'"
    and E_lease: "E r (acquire_lease self token owner r)"
    and E_delete: "E r (release_delete self token r)"
    and E_push: "slots_key self = SLOTS_KEY \<Longrightarrow> E r (release_push self token r)"
    and E_renew: "E r (heartbeat_renew self token owner r)"
    and E_reclaim: "slots_key self = SLOTS_KEY \<Longrightarrow> E r (fst (reclaim self token r))"
    and E_ensure: "slots_key self = SLOTS_KEY \<Longrightarrow> E r (ensure_slots self r)"
    and E_inflight: "E r (fst (acquire_inflight ca h owner r))"
    and E_release: "E r (release_inflight ca h r)"
    and E_cache: "E r (cache_set ca h key r)"
    and E_tick: "E r (redis_tick r dt)"
    and E_wipe: "E r (empty_redis\<lparr>r_now := r_now r\<rparr>)"
begin

lemma on_redis_same: "w_redis w' = w_redis w \<Longrightarrow> on_redis E w w'"
  by (simp add: on_redis_def E_refl)

lemma uses_cmd: "(\<And>r. E r (fst (c r))) \<Longrightarrow> all_steps (on_redis E) (redis_cmd c)"
  unfolding redis_cmd_def by (rule all_steps_atomic) (simp_all add: on_redis_def E_refl split_beta Let_def)

lemma uses_adapters:
  "all_steps (on_redis E) (transaction t)" "all_steps (on_redis E) (minio_put c2)" "all_steps (on_redis E) (minio_get c3)"
  "all_steps (on_redis E) (broker_put c4)" "all_steps (on_redis E) (ask g)" "all_steps (on_redis E) pskip"
  "all_steps (on_redis E) (publish_event ev key)" "all_steps (on_redis E) (stop_heartbeat ctx token)"
  "all_steps (on_redis E) (read_db rq)" "all_steps (on_redis E) (do_cache_get ctx h)" "all_steps (on_redis E) (post_webhook url jid fk)"
  unfolding publish_event_def do_cache_get_def read_db_def
  by (simp_all add: all_steps_transaction all_steps_minio_put all_steps_minio_get all_steps_broker_put all_steps_ask
      all_steps_pskip uses_cmd E_refl on_redis_same stop_heartbeat_def post_webhook_def all_steps_Step)

lemma uses_slot:
  assumes "slots_key (semaphore ctx) = SLOTS_KEY" and "all_steps (on_redis E) p"
  shows "all_steps (on_redis E) (slot ctx owner p)"
proof -
  have "all_steps (on_redis E) (sem_acquire ctx owner)"
    unfolding sem_acquire_def
    by (intro all_steps_pbind all_steps_blocking uses_cmd all_steps_local_step)
       (auto simp: on_redis_def E_refl E_lease start_heartbeat_def dest: E_pop [OF assms(1)])
  moreover have "all_steps (on_redis E) (sem_release ctx token)" for token
    unfolding sem_release_def
    by (intro all_steps_pbind uses_adapters uses_cmd) (simp_all add: E_delete E_push [OF assms(1)])
  ultimately show ?thesis unfolding slot_def by (intro all_steps_pbind all_steps_pfinally assms(2))
qed

lemma uses_tts:
  assumes "slots_key (semaphore ctx) = SLOTS_KEY"
  shows "all_steps (on_redis E) (handle_tts ctx ev)"
proof -
  have "all_steps (on_redis E) (generate key block)" for key block
    unfolding generate_def by (intro all_steps_pbind all_steps_plift uses_adapters)
  moreover have "all_steps (on_redis E) (wait_for_cache ctx h n)" for h n
    by (induction n) (auto intro!: all_steps_pbind uses_adapters split: option.split)
  ultimately have "all_steps (on_redis E) (synthesize ctx h key block owner)" for h key block owner
    unfolding synthesize_def
    by (auto intro!: all_steps_pbind all_steps_pfinally uses_slot [OF assms] uses_cmd simp: E_inflight E_release E_cache
        split: option.split)
  then show ?thesis
    unfolding handle_tts_def load_block_text_def after_decrement_def emit_stitch_def Let_def
    by (auto intro!: all_steps_pbind all_steps_plift uses_adapters split: option.split)
qed

lemma uses_others:
  "all_steps (on_redis E) (handle_parse ctx ev)" "all_steps (on_redis E) (handle_stitch ctx ev)"
  "all_steps (on_redis E) (make_dlq_handler ctx m)" "all_steps (on_redis E) (route_failed ctx q m e)"
  "all_steps (on_redis E) (serve st rq)"
proof -
  show "all_steps (on_redis E) (handle_parse ctx ev)"
    unfolding handle_parse_def Let_def fan_out_def
    by (auto intro!: all_steps_pbind all_steps_plift uses_adapters all_steps_pfor)
  show "all_steps (on_redis E) (handle_stitch ctx ev)"
    unfolding handle_stitch_def notify_def Let_def
    by (auto intro!: all_steps_pbind all_steps_plift uses_adapters all_steps_pmap split: option.split)
  show "all_steps (on_redis E) (make_dlq_handler ctx m)"
    unfolding make_dlq_handler_def handle_dlq_def emit_stitch_for_def emit_stitch_def
    by (auto intro!: all_steps_pbind all_steps_ptry all_steps_plift uses_adapters split: option.splits json.splits sum.split)
  show "all_steps (on_redis E) (route_failed ctx q m e)"
    unfolding route_failed_def by (intro all_steps_pbind all_steps_plift uses_adapters)
  have "all_steps (on_redis E) (call_route r)" for r
    by (cases r) (auto simp: create_job_def stats_def get_status_def Let_def intro!: all_steps_pbind uses_adapters split: option.split)
  then show "all_steps (on_redis E) (serve st rq)"
    unfolding serve_def guard_manuscript_size_def
    by (auto intro!: all_steps_pcatch all_steps_pbind simp del: call_route.simps split: route.split option.split)
qed

lemma uses_handlers:
  assumes "map_of (all_handlers (context_of st wid)) q = Some h"
  shows "all_steps (on_redis E) (h m)"
proof -
  have s: "slots_key (semaphore (context_of st wid)) = SLOTS_KEY" by (simp add: context_of_def)
  have ack: "all_steps (on_redis E) (ack_last ctx q work m)" if "all_steps (on_redis E) (work m)" for ctx q work
    unfolding ack_last_def
    by (intro all_steps_pbind all_steps_ptry that) (auto intro!: all_steps_pbind uses_others split: sum.split)
  show ?thesis
    using assms uses_tts [OF s]
    by (auto simp: all_handlers_def build_handlers_def make_parse_handler_def make_tts_handler_def make_stitch_handler_def
        intro!: ack all_steps_pbind all_steps_plift uses_adapters uses_others split: if_splits)
qed

lemma uses_background: "background st t \<Longrightarrow> all_steps (on_redis E) t"
proof (induction rule: background.induct)
  case (request rq)
  then show ?case by (intro all_steps_pbind uses_others) simp
next
  case sweeper
  then show ?case
    unfolding sweeper_pass_def sweep_once_def purge_once_def
    by (intro all_steps_pbind all_steps_pcatch all_steps_pfor uses_adapters) simp_all
qed (auto simp: reseed_pass_def reap_pass_def build_context_def gateway_startup_def Let_def context_of_def E_ensure E_reclaim
      intro!: all_steps_pbind all_steps_pcatch all_steps_pfor all_steps_plift uses_adapters uses_cmd)

lemma redis_step:
  assumes "sys_step st esc s s'" and "programs_ok (on_redis E) s"
  shows "programs_ok (on_redis E) s' \<and> E (w_redis (s_world s)) (w_redis (s_world s'))"
  using assms(1)
proof (cases rule: sys_step.cases)
  case (deliver q m b wid h)
  then show ?thesis using assms(2) uses_handlers by (auto simp: programs_ok_def E_refl)
next
  case (handler k f i w' p')
  then have "all_steps (on_redis E) (Step f)" using assms(2) by (metis nth_mem programs_ok_def)
  then have "on_redis E (s_world s) w'" "all_steps (on_redis E) p'" using handler(5) by (auto simp: all_steps_Step)
  then show ?thesis
    using assms(2) handler by (auto simp: programs_ok_def on_redis_def dest!: set_update_subset_insert [THEN subsetD])
next
  case (task k f i w' t')
  then have "all_steps (on_redis E) (Step f)" using assms(2) by (metis nth_mem programs_ok_def)
  then have "on_redis E (s_world s) w'" "all_steps (on_redis E) t'" using task(5) by (auto simp: all_steps_Step)
  then show ?thesis
    using assms(2) task by (auto simp: programs_ok_def on_redis_def dest!: set_update_subset_insert [THEN subsetD])
next
  case (start t)
  then show ?thesis using assms(2) uses_background by (auto simp: programs_ok_def E_refl)
next
  case (crash wid)
  have "w_redis (fold (give_back True) ps w) = w_redis w" for ps w
    by (induction ps arbitrary: w) (simp_all add: give_back_def)
  with crash show ?thesis using assms(2) by (auto simp: programs_ok_def crash_worker_def E_refl)
next
  case (renew wid k f)
  then show ?thesis
    using assms(2) by (auto simp: programs_ok_def beat_def Let_def E_refl E_renew split: fault.split)
qed (use assms(2) in \<open>auto simp: programs_ok_def give_back_def E_refl E_tick E_wipe dest: set_remove_nth [THEN subsetD]\<close>)

end

section \<open>Locks expire\<close>

definition expiring :: "redis \<Rightarrow> bool" where
  "expiring r \<longleftrightarrow> (\<forall>t v. r_str r (lease_key t) \<noteq> Some (v, None)) \<and> (\<forall>t. r_list r (lease_key t) = [])
    \<and> (\<forall>h v. r_str r (inflight_key h) \<noteq> Some (v, None))"

lemma expiring_put:
  "expiring r \<Longrightarrow> expiring (redis_put r k v (Some ttl))"
  "expiring r \<Longrightarrow> (\<And>t. k \<noteq> lease_key t) \<Longrightarrow> (\<And>h. k \<noteq> inflight_key h) \<Longrightarrow> expiring (redis_put r k v ex)"
  by (auto simp: expiring_def redis_put_def)

lemma expiring_ops:
  "expiring r \<Longrightarrow> expiring (redis_delete r k)" "expiring r \<Longrightarrow> expiring (redis_rpush r SLOTS_KEY v)"
  "expiring r \<Longrightarrow> expiring (fst (redis_set_nx r k v (Some ttl)))" "expiring r \<Longrightarrow> expiring (fst (redis_set_xx r k v (Some ttl)))"
  by (auto simp: expiring_put redis_set_nx_def redis_set_xx_def)
     (auto simp: expiring_def redis_delete_def redis_rpush_def)

lemma expiring_seed: "expiring r \<Longrightarrow> expiring (fold (\<lambda>tok r. redis_rpush r SLOTS_KEY tok) toks r)"
  by (induction toks arbitrary: r) (simp_all add: expiring_ops)

interpretation expiry: redis_relation "\<lambda>r r'. expiring r \<longrightarrow> expiring r'"
proof
  fix r r' self token owner v ca h key and dt :: nat
  show "acquire_pop self r = Some (r', v) \<Longrightarrow> expiring r \<longrightarrow> expiring r'" if "slots_key self = SLOTS_KEY"
    using that by (auto simp: acquire_pop_def redis_lpop_def expiring_def split: list.splits)
  show "expiring r \<longrightarrow> expiring (ensure_slots self r)" if s: "slots_key self = SLOTS_KEY"
  proof -
    have "init_marker self \<noteq> lease_key t" "init_marker self \<noteq> inflight_key t" for t
      using key_families(10,12) by (metis init_marker_def s)+
    then show ?thesis
      by (auto simp: ensure_slots_def Let_def s intro!: expiring_put(2) expiring_seed expiring_ops)
  qed
qed (auto simp: acquire_lease_def release_delete_def release_push_def heartbeat_renew_def reclaim_def acquire_inflight_def
      release_inflight_def cache_set_def expiring_ops expiring_put(1),
    auto simp: expiring_def redis_tick_def empty_redis_def)

lemma expiring_reach:
  assumes "sys_reach st esc P (sys_of w) s" and "expiring (w_redis w)"
  shows "expiring (w_redis (s_world s))"
proof -
  have "programs_ok (on_redis (\<lambda>r r'. expiring r \<longrightarrow> expiring r')) s \<and> expiring (w_redis (s_world s))"
    using assms(1)
  proof induction
    case init
    then show ?case using assms(2) by (simp add: programs_ok_def sys_of_def)
  next
    case (step s s')
    then show ?case using expiry.redis_step by blast
  qed
  then show ?thesis by simp
qed

end
