(* ===== verification/Quiescence.thy ===== *)
theory Quiescence
  imports Drama Redis_Use
begin

text \<open>
  Bringing the system to rest. From every reachable state the deliveries in flight can be given back
  (their workers crash) and the other programs stopped; then only the messages in the queues, the
  database, the objects and what is left in Redis matter.
\<close>

section \<open>Finitely many queues hold messages\<close>

definition support :: "broker \<Rightarrow> string set" where
  "support b = {q. msgs_in b q \<noteq> []}"

lemma in_support: "q \<in> support b \<longleftrightarrow> (\<exists>m. m \<in> set (msgs_in b q))"
  by (cases "msgs_in b q") (auto simp: support_def)

lemma support_put: "wf_broker b \<Longrightarrow> support (exchange_publish b m k) \<subseteq> insert k (support b)"
  by (auto simp: support_def amqp.contents_put split: if_splits)

lemma support_take: "wf_broker b \<Longrightarrow> take_msg q b = Some (m, b') \<Longrightarrow> support b' \<subseteq> support b"
  using take_msg_D(3,4) [of b q m b'] unfolding support_def
  by (intro subsetI CollectI, elim CollectE) (metis list.distinct(1))

lemma msgs_requeue: "set (msgs_in (requeue m q b) k) \<subseteq> set (msgs_in b k) \<union> (if k = q then {m} else {})"
  by (auto simp: requeue_def msgs_in_def split: option.splits)

lemma support_requeue: "support (requeue m q b) \<subseteq> insert q (support b)"
proof
  fix x assume "x \<in> support (requeue m q b)"
  then show "x \<in> insert q (support b)" using msgs_requeue [of m q b x] by (cases "x = q") (auto simp: in_support)
qed

lemma finite_support_put: "wf_broker b \<Longrightarrow> finite (support b) \<Longrightarrow> finite (support (exchange_publish b m k))"
  by (meson finite_insert finite_subset support_put)

lemma finite_support_give_back:
  "finite (support (w_broker w)) \<Longrightarrow> finite (support (w_broker (give_back again p w)))"
  using finite_subset [OF support_requeue [of "p_msg p" "p_queue p" "w_broker w"]] by (simp add: give_back_def)

lemma ptrans_support:
  "ptrans st q m S w w' S' \<Longrightarrow> wf_broker (w_broker w) \<Longrightarrow> finite (support (w_broker w)) \<Longrightarrow> finite (support (w_broker w'))"
  by (induction rule: ptrans.induct) (simp_all add: quiet_def publish_eq finite_support_put)

lemma btrans_support:
  assumes "btrans st i S w w' S'" and "topo_ok st (w_broker w)" and "delays_ok st" and "finite (support (w_broker w))"
  shows "finite (support (w_broker w'))"
  using assms(1)
proof (cases rule: btrans.cases)
  case free
  then have "harmless st (known S) (w_broker w) (w_broker w')" by (simp add: beside_def)
  from harmless_effect(3) [OF this assms(2,3)] have "support (w_broker w') \<subseteq> insert Q_PARSE (support (w_broker w))"
    unfolding subset_iff insert_iff in_support by blast
  then show ?thesis using assms(4) by (meson finite_insert finite_subset)
qed (use assms(4) in simp_all)

lemma support_step:
  assumes step: "sys_step st esc s s'" and ok: "sys_ok st esc s" and "delays_ok st" and fin: "finite (support (w_broker (s_world s)))"
  shows "finite (support (w_broker (s_world s')))"
proof -
  from ok obtain H G where H: "list_all2 (plays st esc) (s_procs s) H" and G: "list_all2 (runs_beside st) (s_tasks s) G"
    and inv: "choreo st (s_world s) H G (s_drawn s)" by (auto simp: sys_ok_def)
  have topo: "topo_ok st (w_broker (s_world s))" using inv by (simp add: choreo_def)
  then have wf: "wf_broker (w_broker (s_world s))" by (simp add: topo_ok_def)
  from step show ?thesis
  proof (cases rule: sys_step.cases)
    case (deliver q m b wid h)
    then show ?thesis using support_take [OF wf deliver(2)] fin by (simp add: finite_subset)
  next
    case (handler k f i w' p')
    have "plays st esc (s_procs s ! k) (H ! k)" using list_all2_nthD [OF H handler(2)] .
    then obtain S where "follows st (p_queue (s_procs s ! k)) (p_msg (s_procs s ! k)) (handler_end esc) (Step f) S"
      by (auto simp: plays_def handler(3))
    then obtain S' where "ptrans st (p_queue (s_procs s ! k)) (p_msg (s_procs s ! k)) S (s_world s) w' S'"
      using handler(5) unfolding sim_Step by blast
    then show ?thesis using ptrans_support wf fin handler(1) by simp
  next
    case (task k f i w' t')
    have "runs_beside st (Step f) (G ! k)" using list_all2_nthD [OF G task(2)] task(3) by simp
    then obtain S' where "btrans st i (G ! k) (s_world s) w' S'" using task(5) unfolding sim_Step by blast
    then show ?thesis using btrans_support topo assms(3) fin task(1) by simp
  next
    case (crash wid)
    have "finite (support (w_broker (fold (give_back True) ps w)))" if "finite (support (w_broker w))" for ps w
      using that by (induction ps arbitrary: w) (simp_all add: finite_support_give_back)
    then show ?thesis using crash fin by (simp add: crash_worker_def)
  next
    case (expire q b)
    from expire_head_put [OF wf expire(2)] obtain m l b1 where e: "take_msg q (w_broker (s_world s)) = Some (m, b1)"
      "b = exchange_publish b1 m l" by blast
    have "wf_broker b1" "finite (support b1)" using take_msg_D(1) [OF wf e(1)] support_take [OF wf e(1)] fin by (auto intro: finite_subset)
    then show ?thesis using expire(1) e(2) finite_support_put by simp
  next
    case (renew wid k f)
    then show ?thesis using fin by (simp add: beat_def Let_def split: fault.split)
  qed (use fin in \<open>simp_all add: finite_support_give_back\<close>)
qed

lemma reach_finite:
  assumes "booted st w" and "delays_ok st" and "esc InfraError" and "sys_reach st esc no_block_given_up (sys_of w) s"
  shows "finite (support (w_broker (s_world s))) \<and> finite (s_drawn s)"
  using assms(4)
proof induction
  case init
  have "support (w_broker w) = {}" using booted_facts(2) [OF assms(1,2)] by (simp add: support_def)
  then show ?case by (simp add: sys_of_def)
next
  case (step s s')
  have "sys_ok st esc s" by (rule sys_ok_reach [OF step.hyps(1) booted_ok [OF assms(1,2)] assms(2,3)])
  then have "finite (support (w_broker (s_world s')))" using support_step [OF step.hyps(2) _ assms(2)] step.IH by blast
  moreover have "finite (s_drawn s')"
    using step.hyps(2) step.IH by (cases rule: sys_step.cases) (auto simp: crash_worker_def)
  ultimately show ?case by blast
qed

section \<open>Nothing runs\<close>

text \<open>The dead letters, those in the hands of their resolver included; none is of a block.\<close>

definition dead_letters :: "sys \<Rightarrow> msg set" where
  "dead_letters s = set (msgs_in (w_broker (s_world s)) Q_DLQ) \<union> {p_msg p | p. p \<in> set (s_procs s) \<and> p_queue p = Q_DLQ}"

definition tts_body :: "msg \<Rightarrow> bool" where
  "tts_body m \<longleftrightarrow> (\<exists>e jid tid. m_body m = model_dump_json (TtsRequested e jid tid))"

definition same_data :: "world \<Rightarrow> world \<Rightarrow> bool" where
  "same_data w w' \<longleftrightarrow> w_db w' = w_db w \<and> w_redis w' = w_redis w \<and> w_minio w' = w_minio w"

lemma stop_tasks_reach:
  assumes "sys_reach st esc P s0 s" and "\<And>s s'. s_procs s' = s_procs s \<Longrightarrow> P s \<Longrightarrow> P s'" and "P s"
  shows "sys_reach st esc P s0 (s\<lparr>s_tasks := []\<rparr>)"
  using assms(1,3)
proof (induction "s_tasks s" arbitrary: s)
  case Nil
  then have "s\<lparr>s_tasks := []\<rparr> = s" by simp
  then show ?case using Nil.prems(1) by simp
next
  case (Cons t ts)
  let ?s = "s\<lparr>s_tasks := ts\<rparr>"
  have ts: "s_tasks s = t # ts" using Cons.hyps(2) by simp
  have "sys_step st esc s (s\<lparr>s_tasks := remove_nth 0 (s_tasks s)\<rparr>)" by (rule sys_step.stop) (simp add: ts)
  then have step: "sys_step st esc s ?s" by (simp add: ts remove_nth_def)
  have P: "P ?s" by (rule assms(2) [OF _ Cons.prems(2)]) simp
  have "sys_reach st esc P s0 (?s\<lparr>s_tasks := []\<rparr>)"
    by (rule Cons.hyps(1) [OF _ sys_reach.step [OF Cons.prems(1) step P] P]) simp
  then show ?case by simp
qed

lemma fold_give_back_dead:
  "set (msgs_in (w_broker (fold (give_back True) ps w)) Q_DLQ) \<subseteq>
    set (msgs_in (w_broker w) Q_DLQ) \<union> {p_msg p | p. p \<in> set ps \<and> p_queue p = Q_DLQ}"
proof (induction ps arbitrary: w)
  case (Cons p ps)
  have "set (msgs_in (w_broker (give_back True p w)) Q_DLQ) \<subseteq>
      set (msgs_in (w_broker w) Q_DLQ) \<union> (if p_queue p = Q_DLQ then {p_msg p} else {})"
    using msgs_requeue [of "p_msg p" "p_queue p" "w_broker w" Q_DLQ] by (auto simp: give_back_def split: if_splits)
  then show ?case using Cons.IH [of "give_back True p w"] by (auto split: if_splits)
qed simp

lemma crash_reach:
  assumes "sys_reach st esc no_block_given_up s0 s"
  shows "\<exists>s'. sys_reach st esc no_block_given_up s0 s' \<and> s_procs s' = [] \<and> s_tasks s' = s_tasks s \<and> s_drawn s' = s_drawn s
    \<and> dead_letters s' \<subseteq> dead_letters s \<and> same_data (s_world s) (s_world s')"
  using assms
proof (induction "length (s_procs s)" arbitrary: s rule: less_induct)
  case less
  show ?case
  proof (cases "s_procs s")
    case Nil
    then show ?thesis using less.prems by (intro exI [of _ s]) (simp add: same_data_def)
  next
    case (Cons p ps)
    let ?s = "crash_worker (p_worker p) s"
    have P: "no_block_given_up s" using less.prems(1) by (cases rule: sys_reach.cases) auto
    then have "no_block_given_up ?s" by (auto simp: no_block_given_up_def crash_worker_def)
    then have r: "sys_reach st esc no_block_given_up s0 ?s" by (rule sys_reach.step [OF less.prems(1) sys_step.crash])
    have dead: "dead_letters ?s \<subseteq> dead_letters s"
      using fold_give_back_dead [of "filter (\<lambda>p'. p_worker p' = p_worker p) (s_procs s)" "s_world s"]
      by (auto simp: crash_worker_def dead_letters_def)
    have "length (filter (\<lambda>q. p_worker q \<noteq> p_worker p) (p # ps)) < length (p # ps)"
      by (simp add: le_imp_less_Suc)
    then have "length (s_procs ?s) < length (s_procs s)" by (simp add: crash_worker_def Cons)
    from less.hyps [OF this r] obtain s' where "sys_reach st esc no_block_given_up s0 s'" "s_procs s' = []"
      "s_tasks s' = s_tasks ?s" "s_drawn s' = s_drawn ?s" "dead_letters s' \<subseteq> dead_letters ?s" "same_data (s_world ?s) (s_world s')" by blast
    then show ?thesis using dead by (intro exI [of _ s']) (simp add: crash_worker_def same_data_def subset_trans)
  qed
qed

lemma rest_reach:
  assumes "sys_reach st esc no_block_given_up s0 s"
  shows "\<exists>w. sys_reach st esc no_block_given_up s0 (resting w (s_drawn s))
    \<and> set (msgs_in (w_broker w) Q_DLQ) \<subseteq> dead_letters s \<and> same_data (s_world s) w"
proof -
  from crash_reach [OF assms] obtain s' where s': "sys_reach st esc no_block_given_up s0 s'" "s_procs s' = []" "s_drawn s' = s_drawn s"
    "dead_letters s' \<subseteq> dead_letters s" "same_data (s_world s) (s_world s')" by blast
  have "sys_reach st esc no_block_given_up s0 (s'\<lparr>s_tasks := []\<rparr>)"
    by (rule stop_tasks_reach [OF s'(1)]) (simp_all add: no_block_given_up_def s'(2))
  moreover have "s'\<lparr>s_tasks := []\<rparr> = resting (s_world s') (s_drawn s)" using s'(2,3) by (simp add: resting_def)
  ultimately show ?thesis using s'(4,5) by (auto simp: dead_letters_def)
qed

end
