(* ===== verification/Repair.thy ===== *)
theory Repair
  imports Quiescence
begin

text \<open>
  Repairing a system at rest: after enough time the locks and leases that crashes left behind have
  expired; a pass of the reaper then returns every token to the pool, and a pass of the sweeper
  publishes \<open>JobCreated\<close> for every job that is still \<open>PENDING\<close>.
\<close>

section \<open>Time\<close>

lemma eventually_expired:
  assumes "expiring r"
  shows "eventually (\<lambda>dt. redis_get (redis_tick r dt) (lease_key t) = None) sequentially"
    and "eventually (\<lambda>dt. redis_get (redis_tick r dt) (inflight_key h) = None) sequentially"
proof -
  have gone: "eventually (\<lambda>dt. redis_get (redis_tick r dt) k = None) sequentially" if "\<And>v. r_str r k \<noteq> Some (v, None)" for k
  proof (cases "r_str r k")
    case None
    then show ?thesis by (simp add: redis_get_def redis_tick_def)
  next
    case (Some x)
    with that obtain v e where "r_str r k = Some (v, Some e)" by (cases x; cases "snd x") auto
    then show ?thesis
      unfolding eventually_sequentially by (intro exI [of _ "nat (e - r_now r)"]) (auto simp: redis_get_def redis_tick_def)
  qed
  show "eventually (\<lambda>dt. redis_get (redis_tick r dt) (lease_key t) = None) sequentially"
    "eventually (\<lambda>dt. redis_get (redis_tick r dt) (inflight_key h) = None) sequentially"
    using assms by (auto intro!: gone simp: expiring_def)
qed

lemma enough_time:
  assumes "expiring r" and "finite Hs"
  shows "\<exists>dt. (\<forall>t \<in> set tokens. redis_get (redis_tick r dt) (lease_key t) = None)
    \<and> (\<forall>h \<in> Hs. redis_get (redis_tick r dt) (inflight_key h) = None)
    \<and> (\<forall>j \<in> set js. j_created_at j < now + int dt - timeout)"
proof -
  have "eventually (\<lambda>dt. \<forall>t \<in> set tokens. redis_get (redis_tick r dt) (lease_key t) = None) sequentially"
    by (rule eventually_ball_finite) (simp_all add: eventually_expired [OF assms(1)])
  moreover have "eventually (\<lambda>dt. \<forall>h \<in> Hs. redis_get (redis_tick r dt) (inflight_key h) = None) sequentially"
    by (rule eventually_ball_finite [OF assms(2)]) (simp add: eventually_expired [OF assms(1)])
  moreover have "eventually (\<lambda>dt. \<forall>j \<in> set js. j_created_at j < now + int dt - timeout) sequentially"
  proof (rule eventually_ball_finite)
    show "\<forall>j \<in> set js. eventually (\<lambda>dt. j_created_at j < now + int dt - timeout) sequentially"
    proof
      fix j
      show "eventually (\<lambda>dt. j_created_at j < now + int dt - timeout) sequentially"
        unfolding eventually_sequentially by (intro exI [of _ "nat (j_created_at j - now + timeout + 1)"]) auto
    qed
  qed simp
  ultimately have "eventually (\<lambda>dt. (\<forall>t \<in> set tokens. redis_get (redis_tick r dt) (lease_key t) = None)
    \<and> (\<forall>h \<in> Hs. redis_get (redis_tick r dt) (inflight_key h) = None)
    \<and> (\<forall>j \<in> set js. j_created_at j < now + int dt - timeout)) sequentially"
    by (simp add: eventually_conj_iff)
  then show ?thesis unfolding eventually_sequentially by blast
qed

section \<open>The reaper\<close>

definition reaped :: "Semaphore \<Rightarrow> string list \<Rightarrow> redis \<Rightarrow> redis" where
  "reaped self tokens r = fold (\<lambda>t r. fst (reclaim self t r)) tokens r"

lemma goes_reap_pass:
  "goes Q (reap_pass ctx) w = Q (Inr ()) (w\<lparr>w_redis := reaped (semaphore ctx) (pool_tokens (semaphore ctx)) (w_redis w)\<rparr>)"
proof -
  have "goes Q (pfor ts (\<lambda>token. redis_cmd (\<lambda>r. (fst (reclaim (semaphore ctx) token r), ())))) w =
      Q (Inr ()) (w\<lparr>w_redis := reaped (semaphore ctx) ts (w_redis w)\<rparr>)" for ts Q w
    by (induction ts arbitrary: w) (simp_all add: goes_pbind goes_effects reaped_def)
  then show ?thesis by (simp add: reap_pass_def goes_pcatch)
qed

lemma reclaim_get [simp]: "redis_get (fst (reclaim self t r)) k = redis_get r k"
  by (simp add: reclaim_def)

lemma reaped_get [simp]: "redis_get (reaped self ts r) k = redis_get r k"
  unfolding reaped_def by (induction ts arbitrary: r) simp_all

lemma reclaim_grows: "set (r_list r (slots_key self)) \<subseteq> set (r_list (fst (reclaim self t r)) (slots_key self))"
  by (auto simp: reclaim_def)

lemma reaped_pool: "set (r_list r (slots_key self)) \<subseteq> set (r_list (reaped self ts r) (slots_key self))"
  unfolding reaped_def
proof (induction ts arbitrary: r)
  case (Cons t ts)
  then show ?case using reclaim_grows [of r self t] by (simp add: subset_trans)
qed simp

lemma reaped_nonempty:
  assumes "redis_get r (lease_key t) = None" and "r_list r (lease_key t) = []"
  shows "r_list (reaped self (t # ts) r) (slots_key self) \<noteq> []"
proof -
  have "t \<in> set (r_list (fst (reclaim self t r)) (slots_key self))"
    using assms by (simp add: reclaim_def redis_exists_def)
  moreover have "reaped self (t # ts) r = reaped self ts (fst (reclaim self t r))" by (simp add: reaped_def)
  ultimately show ?thesis using reaped_pool [of "fst (reclaim self t r)" self ts] by auto
qed

section \<open>The sweeper\<close>

lemma goes_sweeper_pass:
  assumes "\<And>us. length us = length (stale_pending (w_db w) timeout) \<Longrightarrow>
    Q (w\<lparr>w_broker := fold (\<lambda>m b. exchange_publish b m Q_PARSE)
          (map2 (\<lambda>u jid. event_msg (JobCreated u jid)) us (stale_pending (w_db w) timeout)) (w_broker w),
        w_db := fst (purge_processed_events (w_db w) retention)\<rparr>)"
  shows "goes (\<lambda>_. Q) (sweeper_pass timeout retention) w"
proof -
  let ?P = "\<lambda>w. Q (w\<lparr>w_db := fst (purge_processed_events (w_db w) retention)\<rparr>)"
  have purge: "goes (\<lambda>_. Q) (pcatch (pbind (purge_once retention) (\<lambda>_. Ret ())) (\<lambda>_. Ret ())) v = ?P v" for v
    by (simp add: purge_once_def goes_pcatch goes_pbind goes_effects split_beta split: sum.split)
  have "goes (\<lambda>r v. r = Inr () \<and> ?P v) (pfor (stale_pending (w_db w) timeout) (\<lambda>jid. publish_event (\<lambda>u. JobCreated u jid) Q_PARSE)) w"
    by (rule goes_pfor_publish) (use assms in simp)
  then have "goes (\<lambda>r v. r = Inr () \<and> ?P v) (pcatch (pbind (sweep_once timeout) (\<lambda>_. Ret ())) (\<lambda>_. Ret ())) w"
    unfolding goes_pcatch goes_pbind sweep_once_def goes_read by simp (erule goes_mono, simp split: sum.split)
  then show ?thesis
    unfolding sweeper_pass_def goes_pbind by (rule goes_mono) (simp add: purge)
qed

end
