(* ===== verification/Drain.thy ===== *)
theory Drain
  imports Repair
begin

text \<open>
  Draining the queues of a system at rest. Each undisturbed delivery makes the messages in the broker
  lighter: what a handler publishes weighs less together than the message it consumes, because the
  stages follow each other and the retry ladder is finite.
\<close>

section \<open>The weight of a message\<close>

definition family :: "string \<Rightarrow> string \<Rightarrow> bool" where
  "family l q \<longleftrightarrow> q = l \<or> (\<exists>d. q = retry_q_name l d)"

definition left :: "Settings \<Rightarrow> msg \<Rightarrow> nat" where
  "left st m = (case get_retry_count m of Inr c \<Rightarrow> nat (MAX_RETRIES st + 1 - c) | Inl _ \<Rightarrow> 0)"

definition job_in :: "msg \<Rightarrow> string" where
  "job_in m = (case json_fields (m_body m) of
      Inr es \<Rightarrow> (case map_of es ''job_id'' of Some (JStr jid) \<Rightarrow> jid | _ \<Rightarrow> []) | Inl _ \<Rightarrow> [])"

text \<open>A fresh \<open>StitchReady\<close>; a fresh \<open>TtsRequested\<close> weighs twice as much.\<close>

definition unit_weight :: "Settings \<Rightarrow> nat" where
  "unit_weight st = 3 * nat (MAX_RETRIES st + 1) + 2"

definition follow_up :: "Settings \<Rightarrow> (string \<Rightarrow> nat) \<Rightarrow> string \<Rightarrow> msg \<Rightarrow> nat" where
  "follow_up st nb q m =
    (if family Q_PARSE q then Suc (nb (job_in m)) * (2 * unit_weight st)
     else if family Q_TTS q then unit_weight st else 0)"

definition weight :: "Settings \<Rightarrow> (string \<Rightarrow> nat) \<Rightarrow> string \<Rightarrow> msg \<Rightarrow> nat" where
  "weight st nb q m =
    (if q = Q_DLQ then 1 else follow_up st nb q m + 3 * left st m + (if q \<in> set live_queues then 2 else 3))"

lemma live_family: "l \<in> set live_queues \<Longrightarrow> l' \<in> set live_queues \<Longrightarrow> family l l' \<longleftrightarrow> l = l'"
  using live_not_retry(2) by (auto simp: family_def)

lemma retry_family: "l \<in> set live_queues \<Longrightarrow> l' \<in> set live_queues \<Longrightarrow> family l (retry_q_name l' d) \<longleftrightarrow> l = l'"
  using live_not_retry(1) retry_q_name_inj by (auto simp: family_def)

lemma live_names [simp]: "Q_PARSE \<in> set live_queues" "Q_TTS \<in> set live_queues" "Q_STITCH \<in> set live_queues" "Q_DLQ \<notin> set live_queues"
  by (simp_all add: live_queues_def)

lemma live_not_dlq: "l \<in> set live_queues \<Longrightarrow> l \<noteq> Q_DLQ"
  by (auto simp: live_queues_def)

lemma follow_up_family:
  "l \<in> set live_queues \<Longrightarrow> m_body m' = m_body m \<Longrightarrow> follow_up st nb (retry_q_name l d) m' = follow_up st nb l m"
  by (simp add: follow_up_def retry_family live_family job_in_def)

lemma weight_retry:
  assumes "l \<in> set live_queues" and "get_retry_count m = Inr c" and "c + 1 \<le> MAX_RETRIES st"
  shows "weight st nb (retry_q_name l d) (retried_msg m (c + 1)) < weight st nb l m"
proof -
  have "left st m = Suc (left st (retried_msg m (c + 1)))" using assms(2,3) by (simp add: left_def)
  moreover have "retry_q_name l d \<noteq> Q_DLQ" "retry_q_name l d \<notin> set live_queues"
    using live_not_retry(1) by (auto simp: live_queues_def)
  ultimately show ?thesis
    using assms(1) live_not_dlq follow_up_family [OF assms(1), of "retried_msg m (c + 1)" m]
    by (simp add: weight_def)
qed

lemma weight_dlq: "l \<in> set live_queues \<Longrightarrow> weight st nb Q_DLQ m' < weight st nb l m"
  using live_not_dlq by (simp add: weight_def)

lemma weight_expire: "l \<in> set live_queues \<Longrightarrow> weight st nb l m < weight st nb (retry_q_name l d) m"
  using live_not_dlq live_not_retry(1) follow_up_family [of l m m] by (auto simp: weight_def live_queues_def)

lemma weight_fresh:
  "weight st nb Q_STITCH (event_msg ev) = unit_weight st" "weight st nb Q_TTS (event_msg ev) = 2 * unit_weight st"
  using live_family [of Q_PARSE Q_STITCH] live_family [of Q_TTS Q_STITCH] live_family [of Q_PARSE Q_TTS] live_family [of Q_TTS Q_TTS]
  by (simp_all add: weight_def follow_up_def left_def get_retry_count_def event_msg_def unit_weight_def)

lemma weight_live:
  "weight st nb Q_TTS m > unit_weight st"
  "weight st nb Q_PARSE m > Suc (nb (job_in m)) * (2 * unit_weight st)"
  using live_family [of Q_PARSE Q_PARSE] live_family [of Q_PARSE Q_TTS] live_family [of Q_TTS Q_TTS]
  by (simp_all add: weight_def follow_up_def)

lemma job_in_dump: "m_body m = model_dump_json ev \<Longrightarrow> job_in m = job_id ev"
  by (cases ev) (simp_all add: job_in_def json_fields_dump)

section \<open>What a delivery leaves\<close>

definition sent :: "(string \<times> msg) list \<Rightarrow> broker \<Rightarrow> broker" where
  "sent pubs b = fold (\<lambda>(k, m) b. exchange_publish b m k) pubs b"

definition targets :: "Settings \<Rightarrow> string set" where
  "targets st = set (Q_DLQ # live_queues)
    \<union> {retry_q_name l d | l d ds. l \<in> set live_queues \<and> retry_delays st = Inr ds \<and> d \<in> set ds}"

definition lighter :: "Settings \<Rightarrow> (string \<Rightarrow> nat) \<Rightarrow> string \<Rightarrow> msg \<Rightarrow> (string \<times> msg) list \<Rightarrow> bool" where
  "lighter st nb q m pubs \<longleftrightarrow> sum_list (map (\<lambda>(k, m'). weight st nb k m') pubs) < weight st nb q m
    \<and> (\<forall>(k, m') \<in> set pubs. k \<in> targets st)"

text \<open>
  No job appears or is lost, none becomes \<open>PENDING\<close>, only those in \<open>X\<close> become \<open>FAILED\<close>, and what is
  completed stays so.
\<close>

definition milder :: "string set \<Rightarrow> string \<Rightarrow> JobStatus \<Rightarrow> JobStatus \<Rightarrow> bool" where
  "milder X jid a b \<longleftrightarrow> (b = PENDING \<longrightarrow> a = PENDING) \<and> (b = FAILED \<longrightarrow> a = FAILED \<or> jid \<in> X) \<and> (a = COMPLETED \<longrightarrow> b = COMPLETED)"

definition calm_change :: "string set \<Rightarrow> db \<Rightarrow> db \<Rightarrow> bool" where
  "calm_change X d d' \<longleftrightarrow> (\<forall>jid. rel_option (\<lambda>j j'. milder X jid (j_status j) (j_status j')) (get_job d jid) (get_job d' jid))"

text \<open>The jobs and blocks that a run was started with, and the state of the locks.\<close>

definition fits :: "Settings \<Rightarrow> (string \<Rightarrow> nat) \<Rightarrow> string set \<Rightarrow> string set \<Rightarrow> world \<Rightarrow> bool" where
  "fits st nb Hs X w \<longleftrightarrow> (\<forall>jid j. get_job (w_db w) jid = Some j \<longrightarrow>
    length (blks st w jid) \<le> nb jid \<and> hash_of ` set (blks st w jid) \<subseteq> Hs
    \<and> (j_status j = FAILED \<longrightarrow> jid \<in> X)
    \<and> (\<forall>ms. get_text (w_minio w) (manuscript_key_of jid) = Inr ms \<longrightarrow> contains POISON_MARKER ms \<longrightarrow> jid \<in> X))"

definition unlocked :: "string set \<Rightarrow> world \<Rightarrow> bool" where
  "unlocked Hs w \<longleftrightarrow> r_list (w_redis w) SLOTS_KEY \<noteq> [] \<and> (\<forall>h \<in> Hs. redis_get (w_redis w) (inflight_key h) = None)"

text \<open>A dead letter: not of a block, and of a job in \<open>X\<close> unless that is completed.\<close>

definition dead_ok :: "string set \<Rightarrow> db \<Rightarrow> msg \<Rightarrow> bool" where
  "dead_ok X d m \<longleftrightarrow> \<not> tts_body m \<and> (job_in m \<in> X \<or> status_in d (job_in m) {COMPLETED})"

definition outcome :: "Settings \<Rightarrow> (string \<Rightarrow> nat) \<Rightarrow> string set \<Rightarrow> string set \<Rightarrow> world \<Rightarrow> string \<Rightarrow> msg \<Rightarrow> world \<Rightarrow> bool" where
  "outcome st nb Hs X w q m w' \<longleftrightarrow> (\<exists>pubs. w_broker w' = sent pubs (w_broker w) \<and> lighter st nb q m pubs
    \<and> fits st nb Hs X w' \<and> unlocked Hs w' \<and> calm_change X (w_db w) (w_db w')
    \<and> (\<forall>(k, m') \<in> set pubs. k = Q_DLQ \<longrightarrow> dead_ok X (w_db w') m')
    \<and> (\<forall>jid. has q m (NCreated jid) \<longrightarrow> status_in (w_db w') jid {PENDING} \<longrightarrow> (\<exists>(k, m') \<in> set pubs. has k m' (NCreated jid))))"

lemma milder_refl [simp]: "milder X jid a a"
  by (simp add: milder_def)

lemma milder_trans: "milder X jid a b \<Longrightarrow> milder X jid b c \<Longrightarrow> milder X jid a c"
  unfolding milder_def by blast

lemma calm_change_refl [simp]: "calm_change X d d"
  by (simp add: calm_change_def option.rel_refl)

lemma calm_change_D:
  assumes "calm_change X d d'"
  shows "get_job d jid = Some j \<Longrightarrow> \<exists>j'. get_job d' jid = Some j' \<and> milder X jid (j_status j) (j_status j')"
    and "get_job d' jid = Some j' \<Longrightarrow> \<exists>j. get_job d jid = Some j \<and> milder X jid (j_status j) (j_status j')"
proof -
  have "rel_option (\<lambda>j j'. milder X jid (j_status j) (j_status j')) (get_job d jid) (get_job d' jid)"
    using assms by (simp add: calm_change_def)
  then show "get_job d jid = Some j \<Longrightarrow> \<exists>j'. get_job d' jid = Some j' \<and> milder X jid (j_status j) (j_status j')"
    "get_job d' jid = Some j' \<Longrightarrow> \<exists>j. get_job d jid = Some j \<and> milder X jid (j_status j) (j_status j')"
    by (simp_all add: option_rel_Some1 option_rel_Some2)
qed

lemma calm_change_trans:
  assumes "calm_change X d d1" and "calm_change X d1 d2"
  shows "calm_change X d d2"
  unfolding calm_change_def
proof
  fix jid
  have "rel_option (\<lambda>j j'. milder X jid (j_status j) (j_status j')) (get_job d jid) (get_job d1 jid)"
    "rel_option (\<lambda>j j'. milder X jid (j_status j) (j_status j')) (get_job d1 jid) (get_job d2 jid)"
    using assms by (simp_all add: calm_change_def)
  then show "rel_option (\<lambda>j j'. milder X jid (j_status j) (j_status j')) (get_job d jid) (get_job d2 jid)"
    by (cases "get_job d jid") (auto simp: option_rel_Some1, erule (1) milder_trans)
qed

lemma calm_change_map:
  assumes "\<And>i. get_job d' i = map_option (f i) (get_job d i)"
    and "\<And>i j. get_job d i = Some j \<Longrightarrow> milder X i (j_status j) (j_status (f i j))"
  shows "calm_change X d d'"
  using assms by (auto simp: calm_change_def option.rel_map option.rel_sel)

lemma calm_advance: "s \<noteq> PENDING \<Longrightarrow> s = FAILED \<longrightarrow> jid \<in> X \<or> status_in d jid {COMPLETED} \<Longrightarrow> calm_change X d (fst (advance_status d jid s))"
  by (rule calm_change_map [OF advance_job]) (auto simp: milder_def can_transition_iff status_in_def)

lemma calm_finalize: "calm_change X d (fst (finalize_job d jid key))"
  by (rule calm_change_map [OF finalize_job_row]) (auto simp: milder_def)

lemma calm_begin_parse: "calm_change X d (fst (begin_parse d jid n))"
  by (rule calm_change_map [OF begin_parse_job]) (auto simp: milder_def)

lemma calm_change_jobs: "jobs d1 = jobs d \<Longrightarrow> calm_change X d1 d2 \<Longrightarrow> calm_change X d d2"
  by (simp add: calm_change_def)

lemma calm_complete:
  assumes "wf_db d" and "complete_task_and_decrement d jid tid key = (d', Inr r)"
  shows "calm_change X d d'"
proof -
  have "calm_change X d (d\<lparr>tasks := ts, jobs := decremented d jid\<rparr>)" for ts
    by (rule calm_change_map [OF get_job_decremented_any]) simp
  then show ?thesis
    using assms by (auto simp: complete_cases split: option.splits if_splits)
qed

lemma dead_ok_kept: "dead_ok X d m \<Longrightarrow> calm_change X d d' \<Longrightarrow> dead_ok X d' m"
  by (auto simp: dead_ok_def status_in_def milder_def dest: calm_change_D(1))

lemma fits_change:
  assumes "fits st nb Hs X w" and "calm_change X (w_db w) (w_db w')"
    and "\<And>jid. get_text (w_minio w') (manuscript_key_of jid) = get_text (w_minio w) (manuscript_key_of jid)"
  shows "fits st nb Hs X w'"
  unfolding fits_def
proof (intro allI impI)
  fix jid j' assume "get_job (w_db w') jid = Some j'"
  from calm_change_D(2) [OF assms(2) this] obtain j where j: "get_job (w_db w) jid = Some j" "milder X jid (j_status j) (j_status j')" by blast
  have "blks st w' jid = blks st w jid" using assms(3) by (simp add: blks_def)
  moreover note assms(1) [unfolded fits_def, rule_format, OF j(1)]
  ultimately show "length (blks st w' jid) \<le> nb jid \<and> hash_of ` set (blks st w' jid) \<subseteq> Hs \<and> (j_status j' = FAILED \<longrightarrow> jid \<in> X)
      \<and> (\<forall>ms. get_text (w_minio w') (manuscript_key_of jid) = Inr ms \<longrightarrow> contains POISON_MARKER ms \<longrightarrow> jid \<in> X)"
    using j(2) assms(3) by (simp add: milder_def) blast
qed

lemma outcome_send:
  assumes "fits st nb Hs X w" and "unlocked Hs w'" and "calm_change X (w_db w) (w_db w')"
    and "\<And>jid. get_text (w_minio w') (manuscript_key_of jid) = get_text (w_minio w) (manuscript_key_of jid)"
    and "w_broker w' = sent pubs (w_broker w)" and "lighter st nb q m pubs"
    and "\<And>jid. has q m (NCreated jid) \<Longrightarrow> status_in (w_db w') jid {PENDING} \<Longrightarrow> \<exists>(k, m') \<in> set pubs. has k m' (NCreated jid)"
    and "\<And>m'. (Q_DLQ, m') \<in> set pubs \<Longrightarrow> dead_ok X (w_db w') m'"
  shows "outcome st nb Hs X w q m w'"
  unfolding outcome_def using assms(2,3,5-8) fits_change [OF assms(1,3,4)]
  by (intro exI [of _ pubs] conjI ballI allI impI) auto

end
