(* ===== verification/Drain_Stages.thy ===== *)
theory Drain_Stages
  imports Drain
begin

text \<open>
  The undisturbed deliveries of each queue: all of them end with an acknowledgement and leave lighter
  messages behind.
\<close>

section \<open>The retry ladder\<close>

lemma retry_target: "l \<in> set live_queues \<Longrightarrow> k \<in> retry_targets st l \<Longrightarrow> k \<in> targets st"
  by (auto simp: retry_targets_def targets_def)

lemma tts_target: "Q_TTS \<in> targets st \<and> Q_TTS \<noteq> Q_DLQ"
  using live_not_dlq [OF live_names(2)] by (simp add: targets_def)

lemma goes_route_failed:
  assumes "q \<in> set live_queues" and "get_retry_count m = Inr c" and "0 \<le> c" and "delays_ok st" and "settings ctx = st"
    and "\<And>k. k \<in> retry_targets st q \<Longrightarrow> weight st nb k (retried_msg m (c + 1)) < weight st nb q m \<Longrightarrow>
      Q (Inr ()) (w\<lparr>w_broker := exchange_publish (w_broker w) (retried_msg m (c + 1)) k\<rparr>)"
  shows "goes Q (route_failed ctx q m e) w"
proof -
  from assms(4) obtain ds where ds: "retry_delays st = Inr ds" "ds \<noteq> []" by (auto simp: delays_ok_def)
  let ?max = "if is_poison e then 0 else MAX_RETRIES st"
  have "\<exists>k \<in> retry_targets st q. weight st nb k (retried_msg m (c + 1)) < weight st nb q m
      \<and> route_retry_or_dlq (w_broker w) m q ?max ds = Inr (exchange_publish (w_broker w) (retried_msg m (c + 1)) k)"
  proof (cases "?max \<le> c")
    case True
    then show ?thesis
      using route_dlq [OF assms(2) True] weight_dlq [OF assms(1)] assms(1) by (auto simp: retry_targets_def)
  next
    case False
    then have lt: "c < ?max" "\<not> is_poison e" using assms(3) by (auto split: if_splits)
    let ?d = "ds ! min (nat c) (length ds - 1)"
    have "?d \<in> set ds" using ds(2) by (intro nth_mem min.strict_coboundedI2) simp
    then have "retry_q_name q ?d \<in> retry_targets st q" using assms(1) ds(1) by (auto simp: retry_targets_def)
    moreover have "weight st nb (retry_q_name q ?d) (retried_msg m (c + 1)) < weight st nb q m"
      using weight_retry [OF assms(1,2)] lt by simp
    ultimately show ?thesis using route_retry [OF assms(2,3) lt(1) ds(2)] by blast
  qed
  then show ?thesis
    using assms(5,6) ds(1) by (auto simp: route_failed_def goes_pbind goes_plift goes_put)
qed

text \<open>A failed delivery whose world is \<open>v\<close> by then.\<close>

lemma routed_outcome:
  assumes "q \<in> set live_queues" and "get_retry_count m = Inr c" and "0 \<le> c" and "delays_ok st" and "settings ctx = st"
    and "dead_ok X (w_db v) m" and "fits st nb Hs X w" and "unlocked Hs v" and "calm_change X (w_db w) (w_db v)"
    and "\<And>jid. get_text (w_minio v) (manuscript_key_of jid) = get_text (w_minio w) (manuscript_key_of jid)"
    and "w_broker v = w_broker w"
  shows "goes (\<lambda>r w'. r = Inr () \<and> outcome st nb Hs X w q m w') (route_failed ctx q m e) v"
proof (rule goes_route_failed [OF assms(1-5)])
  fix k assume k: "k \<in> retry_targets st q" "weight st nb k (retried_msg m (c + 1)) < weight st nb q m"
  let ?m = "retried_msg m (c + 1)"
  have "outcome st nb Hs X w q m (v\<lparr>w_broker := exchange_publish (w_broker v) ?m k\<rparr>)"
  proof (rule outcome_send [OF assms(7)])
    show "unlocked Hs (v\<lparr>w_broker := exchange_publish (w_broker v) ?m k\<rparr>)" using assms(8) by (simp add: unlocked_def)
    show "w_broker (v\<lparr>w_broker := exchange_publish (w_broker v) ?m k\<rparr>) = sent [(k, ?m)] (w_broker w)"
      using assms(11) by (simp add: sent_def)
    show "lighter st nb q m [(k, ?m)]" using k retry_target [OF assms(1)] by (simp add: lighter_def)
    show "dead_ok X (w_db (v\<lparr>w_broker := exchange_publish (w_broker v) ?m k\<rparr>)) m'" if "(Q_DLQ, m') \<in> set [(k, ?m)]" for m'
      using that assms(6) by (auto simp: dead_ok_def tts_body_def job_in_def retried_msg_def)
    show "\<exists>(k', m') \<in> set [(k, ?m)]. has k' m' (NCreated jid)" if "has q m (NCreated jid)" for jid
      using has_target [OF that assms(1) k(1)] by simp
  qed (use assms(9,10) in simp_all)
  then show "Inr () = Inr () \<and> outcome st nb Hs X w q m (v\<lparr>w_broker := exchange_publish (w_broker v) ?m k\<rparr>)" by simp
qed

lemma has_route: "m_body m = model_dump_json ev \<Longrightarrow> has (route_of ev) m n \<longleftrightarrow> n = duty_of ev"
proof
  assume b: "m_body m = model_dump_json ev"
  then have h: "has (route_of ev) m (duty_of ev)" unfolding has_def queue_for_def by blast
  then show "n = duty_of ev" if "has (route_of ev) m n"
    using has_unique [OF that h] live_not_dlq [OF route_of_live] by blast
  show "n = duty_of ev \<Longrightarrow> has (route_of ev) m n" using h by simp
qed

lemma goes_ack_outcome:
  assumes "goes (\<lambda>r. case r of Inl x \<Rightarrow> goes (\<lambda>r' w'. r' = Inr () \<and> O' w') (route_failed ctx q m x) | Inr _ \<Rightarrow> O') (work m) w"
  shows "goes (\<lambda>r w'. r = Inr Acked \<and> O' w') (ack_last ctx q work m) w"
  unfolding goes_ack_last
proof (rule goes_mono [OF assms])
  fix r :: "unit res" and v
  assume a: "(case r of Inl x \<Rightarrow> goes (\<lambda>r' w'. r' = Inr () \<and> O' w') (route_failed ctx q m x) | Inr _ \<Rightarrow> O') v"
  show "(case r of Inl e \<Rightarrow> goes (\<lambda>r'. case r' of Inl e' \<Rightarrow> (\<lambda>w'. Inl e' = Inr Acked \<and> O' w') | Inr _ \<Rightarrow> (\<lambda>w'. Inr Acked = Inr Acked \<and> O' w')) (route_failed ctx q m e)
      | Inr _ \<Rightarrow> (\<lambda>w'. Inr Acked = Inr Acked \<and> O' w')) v"
  proof (cases r)
    case (Inl e)
    then have "goes (\<lambda>r' w'. r' = Inr () \<and> O' w') (route_failed ctx q m e) v" using a by simp
    then have "goes (\<lambda>r'. case r' of Inl e' \<Rightarrow> (\<lambda>w'. Inl e' = Inr Acked \<and> O' w') | Inr _ \<Rightarrow> (\<lambda>w'. Inr Acked = Inr Acked \<and> O' w')) (route_failed ctx q m e) v"
      by (rule goes_mono) simp
    then show ?thesis by (simp only: Inl sum.case)
  qed (use a in simp)
qed

section \<open>A block\<close>

text \<open>What a message of a block finds.\<close>

lemma block_found:
  assumes ok: "db_ok st w" and fit: "duty_fits (w_db w) (NTts jid tid)" and f: "fits st nb Hs X w"
  obtains t j ms h where "get_task (w_db w) tid = Some t" "get_job (w_db w) jid = Some j"
    "get_text (w_minio w) (manuscript_key j) = Inr ms" "block_index t < length (split_blocks ms)"
    "content_hash (split_blocks ms ! block_index t) = Inr h" "h \<in> Hs" "BUCKET \<in> set (buckets (w_minio w))"
proof -
  from fit obtain k j where j: "get_job (w_db w) jid = Some j" and tid: "tid = task_id_of jid k" "row_at (w_db w) jid k"
    by (auto simp: status_in_def)
  then obtain t where t: "t \<in> set (tasks (w_db w))" "t_job t = jid" "block_index t = k" by (auto simp: row_at_def)
  have id: "t_id t = tid" using db_ok_D(2) [OF ok] t tid(1) by (auto simp: task_ids_ok_def)
  have task: "get_task (w_db w) tid = Some t" using get_task_row [OF db_ok_D(1) [OF ok] t(1)] id by simp
  obtain ms where ms: "get_text (w_minio w) (manuscript_key_of jid) = Inr ms" using db_ok_D(7) [OF ok j] by blast
  have bl: "blks st w jid = capped (MAX_BLOCKS st) (split_blocks ms)" using ms by (simp add: blks_def)
  have key: "get_text (w_minio w) (manuscript_key j) = Inr ms" using ms db_ok_D(6) [OF ok j] by simp
  have len: "block_index t < length (blks st w jid)" using db_ok_D(5) [OF ok t(1)] t(2) by simp
  then have len': "block_index t < length (split_blocks ms)" using capped_prefix(1) bl order_less_le_trans by metis
  let ?b = "split_blocks ms ! block_index t"
  have nth: "blks st w jid ! block_index t = ?b" using len bl capped_nth by simp
  have "list_all scalar ?b" using split_blocks_scalar [OF get_text_scalar [OF ms]] len' nth_mem by blast
  then obtain h where h: "content_hash ?b = Inr h" using content_hash_scalar by blast
  then have "h = hash_of (blks st w jid ! block_index t)" using nth by (simp add: hash_of_def)
  moreover have "hash_of ` set (blks st w jid) \<subseteq> Hs" using f j by (simp add: fits_def)
  ultimately have hs: "h \<in> Hs" using nth_mem [OF len] by blast
  have "BUCKET \<in> set (buckets (w_minio w))"
    using ms by (auto simp: get_text_def get_bytes_def bind_res_Inr_iff split: if_splits)
  with that [OF task j key len' h hs] show ?thesis by blast
qed

text \<open>After its task has been completed.\<close>

lemma counted_outcome:
  assumes ok: "db_ok st w" and body: "m_body m = model_dump_json (TtsRequested e jid tid)" and f: "fits st nb Hs X w"
    and c: "complete_task_and_decrement (w_db w) jid tid key = (w_db v, Inr remaining)"
    and v: "w_broker v = w_broker w" "unlocked Hs v"
      "\<And>i. get_text (w_minio v) (manuscript_key_of i) = get_text (w_minio w) (manuscript_key_of i)"
  shows "goes (\<lambda>r w'. r = Inr () \<and> outcome st nb Hs X w Q_TTS m w') (after_decrement jid remaining) v"
proof -
  have out: "outcome st nb Hs X w Q_TTS m (v\<lparr>w_broker := sent pubs (w_broker w)\<rparr>)"
    if "lighter st nb Q_TTS m pubs" "\<And>m'. (Q_DLQ, m') \<notin> set pubs" for pubs
  proof (rule outcome_send [OF f])
    show "calm_change X (w_db w) (w_db (v\<lparr>w_broker := sent pubs (w_broker w)\<rparr>))"
      using calm_complete [OF db_ok_D(1) [OF ok] c] by simp
    show "\<exists>(k, m') \<in> set pubs. has k m' (NCreated i)" if "has Q_TTS m (NCreated i)" for i
      using has_route [OF body, of "NCreated i"] that by simp
    show "dead_ok X (w_db (v\<lparr>w_broker := sent pubs (w_broker w)\<rparr>)) m'" if "(Q_DLQ, m') \<in> set pubs" for m'
      using that \<open>\<And>m'. (Q_DLQ, m') \<notin> set pubs\<close> by blast
  qed (use that(1) v in \<open>simp_all add: unlocked_def\<close>)
  have "v\<lparr>w_broker := sent [] (w_broker w)\<rparr> = v" using v(1) by (simp add: sent_def)
  moreover have "outcome st nb Hs X w Q_TTS m (v\<lparr>w_broker := sent [] (w_broker w)\<rparr>)"
    by (rule out) (use weight_live(1) [of st nb m] in \<open>simp_all add: lighter_def\<close>)
  ultimately have "outcome st nb Hs X w Q_TTS m v" by (rule subst)
  moreover have "outcome st nb Hs X w Q_TTS m (v\<lparr>w_broker := sent [(Q_STITCH, event_msg (StitchReady x jid))] (w_broker w)\<rparr>)" for x
    by (rule out) (use weight_live(1) [of st nb m] live_not_dlq [OF live_names(3)] in \<open>simp_all add: lighter_def weight_fresh targets_def\<close>)
  ultimately show ?thesis using v(1) by (simp add: goes_after_decrement sent_def)
qed

lemma calm_tts:
  assumes ok: "db_ok st w" and body: "m_body m = model_dump_json (TtsRequested e jid tid)"
    and fit: "duty_fits (w_db w) (NTts jid tid)" and f: "fits st nb Hs X w" and u: "unlocked Hs w" and ttl: "0 < CACHE_TTL_S st"
  shows "goes (\<lambda>r w'. r = Inr Acked \<and> outcome st nb Hs X w Q_TTS m w') (make_tts_handler (context_of st wid) m) w"
proof -
  let ?ctx = "context_of st wid"
  from block_found [OF ok fit f] obtain t j ms h where
    b: "get_task (w_db w) tid = Some t" "get_job (w_db w) jid = Some j" "get_text (w_minio w) (manuscript_key j) = Inr ms"
      "block_index t < length (split_blocks ms)" "content_hash (split_blocks ms ! block_index t) = Inr h"
    and hs: "h \<in> Hs" and bk: "BUCKET \<in> set (buckets (w_minio w))" by metis
  have plain: "plain_keys ?ctx" using ttl by (rule plain_keys_context)
  note complete = complete_total [OF db_ok_D(1) [OF ok] b(1,2)]
  have "goes (\<lambda>r w'. r = Inr () \<and> outcome st nb Hs X w Q_TTS m w') (handle_tts ?ctx (TtsRequested e jid tid)) w"
  proof (cases "cache_get (cache ?ctx) h (w_redis w)")
    case (Some key')
    obtain d remaining where c: "complete_task_and_decrement (w_db w) jid tid key' = (d, Inr remaining)" using complete by blast
    show ?thesis
      unfolding goes_tts_hit [OF b Some c] by (rule counted_outcome [OF ok body f]) (use c u in \<open>simp_all add: unlocked_def\<close>)
  next
    case None
    obtain d remaining where c: "complete_task_and_decrement (w_db w) jid tid (audio_key_of h) = (d, Inr remaining)" using complete by blast
    obtain token toks where pool: "r_list (w_redis w) SLOTS_KEY = token # toks"
      using u by (cases "r_list (w_redis w) SLOTS_KEY") (auto simp: unlocked_def)
    have free: "redis_get (w_redis w) (inflight_key h) = None" using u hs by (simp add: unlocked_def)
    show ?thesis
      unfolding goes_tts_miss [OF b None plain free pool bk c]
    proof (rule counted_outcome [OF ok body f])
      let ?r = "synthesized ?ctx h (audio_key_of h) tid token (w_redis w)"
      let ?v = "w\<lparr>w_minio := stored (audio_key_of h) (audio_of h) (w_minio w),
          w_heartbeats := demoted ?ctx token (w_heartbeats w), w_redis := ?r, w_db := d\<rparr>"
      have "redis_get ?r (inflight_key h') = None" if "h' \<in> Hs" for h'
        using synthesized_inflight [OF plain] u that by (simp add: unlocked_def)
      moreover have "r_list ?r SLOTS_KEY \<noteq> []" using synthesized_pool [OF plain pool] by simp
      ultimately show "unlocked Hs ?v" by (simp add: unlocked_def)
      show "get_text (w_minio ?v) (manuscript_key_of i) = get_text (w_minio w) (manuscript_key_of i)" for i
        using get_bytes_stored [OF bk] by (simp add: get_text_def)
    qed (use c in simp_all)
  qed
  then show ?thesis
    using body by (simp add: make_tts_handler_def goes_ack_last goes_pbind goes_ask goes_plift) (erule goes_mono, auto)
qed

section \<open>A manuscript\<close>

lemma sent_map: "sent (map (Pair k) ms) b = fold (\<lambda>m b. exchange_publish b m k) ms b"
  unfolding sent_def by (induction ms arbitrary: b) simp_all

text \<open>The messages of the blocks weigh less than the message of their manuscript.\<close>

lemma blocks_lighter:
  assumes "m_body m = model_dump_json (JobCreated e jid)" and "n \<le> nb jid" and "length us = n"
  shows "lighter st nb Q_PARSE m (map (Pair Q_TTS) (map2 (\<lambda>x i. event_msg (TtsRequested x jid (task_id_of jid i))) us [0..<n]))"
    (is "lighter _ _ _ _ (map _ ?ms)")
proof -
  have W: "Suc (nb jid) * (2 * unit_weight st) < weight st nb Q_PARSE m"
    using weight_live(2) [of nb m st] job_in_dump [OF assms(1)] by simp
  have "sum_list (map (\<lambda>(k, m'). weight st nb k m') (map (Pair Q_TTS) ?ms)) = n * (2 * unit_weight st)"
    using assms(3) by (simp add: comp_def split_beta weight_fresh sum_list_triv)
  moreover have "n * (2 * unit_weight st) \<le> nb jid * (2 * unit_weight st)" using assms(2) by (rule mult_le_mono1)
  ultimately have "sum_list (map (\<lambda>(k, m'). weight st nb k m') (map (Pair Q_TTS) ?ms)) < weight st nb Q_PARSE m"
    using W unfolding mult_Suc by linarith
  then show ?thesis unfolding lighter_def using tts_target by (intro conjI ballI) auto
qed

lemma goes_fan_out:
  assumes "m_body m = model_dump_json (JobCreated e jid)" and "n \<le> nb jid" and "w_broker v = b"
    and out: "\<And>pubs. lighter st nb Q_PARSE m pubs \<Longrightarrow> (\<And>m'. (Q_DLQ, m') \<notin> set pubs) \<Longrightarrow> Q (Inr ()) (v\<lparr>w_broker := sent pubs b\<rparr>)"
  shows "goes Q (fan_out jid n) v"
proof (cases "n = 0")
  case True
  have "lighter st nb Q_PARSE m [(Q_STITCH, event_msg (StitchReady x jid))]" for x
    using weight_live(2) [of nb m st] by (simp add: lighter_def weight_fresh targets_def)
  from out [OF this] show ?thesis
    using True assms(3) live_not_dlq [OF live_names(3)] by (simp add: fan_out_def goes_effects publish_eq sent_def)
next
  case False
  have "goes Q (pfor [0..<n] (\<lambda>i. publish_event (\<lambda>x. TtsRequested x jid (task_id_of jid i)) Q_TTS)) v"
  proof (rule goes_pfor_publish)
    fix us :: "string list" assume us: "length us = length [0..<n]"
    let ?ms = "map2 (\<lambda>x i. event_msg (TtsRequested x jid (task_id_of jid i))) us [0..<n]"
    have "lighter st nb Q_PARSE m (map (Pair Q_TTS) ?ms)" by (rule blocks_lighter [where nb = nb, OF assms(1,2)]) (use us in simp)
    moreover have "(Q_DLQ, m') \<notin> set (map (Pair Q_TTS) ?ms)" for m' using tts_target by auto
    ultimately have "Q (Inr ()) (v\<lparr>w_broker := sent (map (Pair Q_TTS) ?ms) b\<rparr>)" by (rule out)
    then show "Q (Inr ()) (v\<lparr>w_broker := fold (\<lambda>m b. exchange_publish b m Q_TTS) ?ms (w_broker v)\<rparr>)"
      unfolding sent_map assms(3) .
  qed
  then show ?thesis using False by (simp add: fan_out_def)
qed

text \<open>The database after the two transactions of the handler.\<close>

lemma parsed_outcome:
  assumes ok: "db_ok st w" and body: "m_body m = model_dump_json (JobCreated e jid)" and job: "get_job (w_db w) jid = Some j"
    and f: "fits st nb Hs X w" and u: "unlocked Hs w" and tx: "parse_transaction jid (blks st w jid) (w_db w) = (d, r)"
    and pubs: "lighter st nb Q_PARSE m pubs" "\<And>m'. (Q_DLQ, m') \<notin> set pubs"
  shows "outcome st nb Hs X w Q_PARSE m (w\<lparr>w_db := fst (advance_status d jid GENERATING), w_broker := sent pubs (w_broker w)\<rparr>)"
    (is "outcome _ _ _ _ _ _ _ ?w")
proof (rule outcome_send [OF f])
  have "calm_change X (w_db w) d"
    by (rule calm_change_map [OF parse_tables(2) [OF ok job tx]]) (auto simp: parsed_job_def milder_def)
  then have "calm_change X (w_db w) (fst (advance_status d jid GENERATING))"
    by (rule calm_change_trans [OF _ calm_advance]) simp_all
  then show "calm_change X (w_db w) (w_db ?w)" by simp
  show "\<exists>(k, m') \<in> set pubs. has k m' (NCreated i)" if "has Q_PARSE m (NCreated i)" "status_in (w_db ?w) i {PENDING}" for i
  proof -
    have "i = jid" using has_route [OF body, of "NCreated i"] that(1) by simp
    then show ?thesis using that(2) job by (auto simp: status_in_def advance_job parse_tables(2) [OF ok job tx] parsed_job_def split: if_splits)
  qed
qed (use pubs u in \<open>simp_all add: unlocked_def\<close>)

lemma calm_parse:
  assumes ok: "db_ok st w" and body: "m_body m = model_dump_json (JobCreated e jid)" and job: "get_job (w_db w) jid = Some j"
    and c: "get_retry_count m = Inr c" "0 \<le> c" and ds: "delays_ok st" and f: "fits st nb Hs X w" and u: "unlocked Hs w"
    and rate: "PARSE_FAILURE_RATE st \<le> 1"
  shows "goes (\<lambda>r w'. r = Inr Acked \<and> outcome st nb Hs X w Q_PARSE m w') (make_parse_handler (context_of st wid) m) w"
proof -
  let ?ctx = "context_of st wid" and ?O = "\<lambda>r w'. r = Inr () \<and> outcome st nb Hs X w Q_PARSE m w'"
  have st: "settings ?ctx = st" by (simp add: context_of_def)
  obtain ms where ms: "get_text (w_minio w) (manuscript_key_of jid) = Inr ms" using db_ok_D(7) [OF ok job] by blast
  have key: "get_text (w_minio w) (manuscript_key j) = Inr ms" using ms db_ok_D(6) [OF ok job] by simp
  have handler: "goes (\<lambda>r. case r of Inl x \<Rightarrow> goes ?O (route_failed ?ctx Q_PARSE m x) | Inr _ \<Rightarrow> outcome st nb Hs X w Q_PARSE m)
      (handle_parse ?ctx (JobCreated e jid)) w" (is "goes ?R _ _")
  proof (cases "simulate_parse ms (PARSE_FAILURE_RATE (settings ?ctx)) 1")
    case (Inl x)
    then have "contains POISON_MARKER ms" using rate st by (auto simp: simulate_parse_def split: if_splits)
    then have "jid \<in> X" using f job ms by (auto simp: fits_def)
    then have "dead_ok X (w_db w) m"
      using body job_in_dump [OF body] by (auto simp: dead_ok_def tts_body_def model_dump_json_def)
    then have "goes ?O (route_failed ?ctx Q_PARSE m y) w" for y
      by (rule routed_outcome [OF live_names(1) c ds st _ f u]) simp_all
    then show ?thesis
      using job key Inl by (simp add: handle_parse_def Let_def calmly load_manuscript_key_def)
  next
    case (Inr bs)
    then have bl: "capped (MAX_BLOCKS (settings ?ctx)) bs = blks st w jid"
      using ms st by (auto simp: blks_def simulate_parse_def split: if_splits)
    obtain d won where tx: "parse_transaction jid (blks st w jid) (w_db w) = (d, Inr won)"
      using parse_transaction_shape [OF ok job HOL.refl] by blast
    have n: "length (blks st w jid) \<le> nb jid" using f job by (simp add: fits_def)
    have "goes ?R (fan_out jid (length (blks st w jid))) (w\<lparr>w_db := fst (advance_status d jid GENERATING)\<rparr>)"
      by (rule goes_fan_out [where st = st and nb = nb and b = "w_broker w", OF body n]) (simp_all add: parsed_outcome [OF ok body job f u tx])
    then show ?thesis using goes_parse [OF job key Inr] bl tx by simp
  qed
  show ?thesis
    unfolding make_parse_handler_def
    by (rule goes_ack_outcome) (use body handler in \<open>simp add: goes_pbind goes_ask goes_plift\<close>)
qed

section \<open>The drama\<close>

lemma goes_notify: "(\<And>r hooks. Q r (w\<lparr>w_webhooks := hooks\<rparr>)) \<Longrightarrow> goes Q (notify ctx jid) w"
proof -
  assume Q: "\<And>r hooks. Q r (w\<lparr>w_webhooks := hooks\<rparr>)"
  have same: "Q r w" for r using Q [of r "w_webhooks w"] by simp
  have "goes Q (post_webhook url jid k) w" for url k using Q [of "Inr ()"] by (simp add: post_webhook_def goes_Step calm_def)
  with same show ?thesis
    unfolding notify_def Let_def by (auto simp: goes_pbind goes_read goes_ask goes_plift split: option.split sum.split)
qed

lemma finalize_completes:
  "wf_db d \<Longrightarrow> get_job d jid = Some j \<Longrightarrow> snd (finalize_job d jid key) \<Longrightarrow> status_in (fst (finalize_job d jid key)) jid {COMPLETED}"
  by (simp add: finalize_won finalize_job_row status_in_def)

text \<open>The chunks are stored.\<close>

lemma chunks_found:
  assumes "tasks_have_audio st w" and "k \<in> set (chunk_keys (w_db w) jid)"
  shows "get_bytes (w_minio w) k = Inr (case get_bytes (w_minio w) k of Inr x \<Rightarrow> x | Inl _ \<Rightarrow> [])"
proof -
  from assms(2) obtain t where "t \<in> set (tasks (w_db w))" "t_status t = T_DONE" "audio_key t = Some k"
    by (auto simp: chunk_keys_def done_tasks_def List.map_filter_def)
  then have "\<exists>x. get_bytes (w_minio w) k = Inr x" using assms(1) by (auto simp: tasks_have_audio_def in_store_def Let_def)
  then show ?thesis by auto
qed

text \<open>A delivery of \<open>StitchReady\<close> publishes nothing, unless its webhook is refused after the job was completed.\<close>

lemma silent_outcome:
  assumes body: "m_body m = model_dump_json (StitchReady e jid)" and f: "fits st nb Hs X w" and "unlocked Hs v"
    and "calm_change X (w_db w) (w_db v)" and "w_broker v = w_broker w"
    and "\<And>i. get_text (w_minio v) (manuscript_key_of i) = get_text (w_minio w) (manuscript_key_of i)"
  shows "outcome st nb Hs X w Q_STITCH m v"
proof (rule outcome_send [OF f assms(3,4,6), where pubs = "[]"])
  show "lighter st nb Q_STITCH m []" using live_not_dlq [OF live_names(3)] by (simp add: lighter_def weight_def)
  show "\<exists>(k, m') \<in> set []. has k m' (NCreated i)" if "has Q_STITCH m (NCreated i)" for i
    using has_route [OF body, of "NCreated i"] that by simp
qed (use assms(5) in \<open>simp_all add: sent_def\<close>)

lemma notified_outcome:
  assumes body: "m_body m = model_dump_json (StitchReady e jid)" and c: "get_retry_count m = Inr c" "0 \<le> c"
    and ds: "delays_ok st" and f: "fits st nb Hs X w" and v: "unlocked Hs v" "calm_change X (w_db w) (w_db v)"
      "w_broker v = w_broker w" "\<And>i. get_text (w_minio v) (manuscript_key_of i) = get_text (w_minio w) (manuscript_key_of i)"
    and compl: "won \<Longrightarrow> status_in (w_db v) jid {COMPLETED}"
  shows "goes (\<lambda>r. case r of
        Inl x \<Rightarrow> goes (\<lambda>r' w'. r' = Inr () \<and> outcome st nb Hs X w Q_STITCH m w') (route_failed (context_of st wid) Q_STITCH m x)
      | Inr _ \<Rightarrow> outcome st nb Hs X w Q_STITCH m) (if won then notify (context_of st wid) jid else Ret ()) v"
    (is "goes ?R _ _")
proof -
  have ret: "?R (Inr x) (v\<lparr>w_webhooks := hooks\<rparr>)" for x hooks
    using silent_outcome [OF body f, of "v\<lparr>w_webhooks := hooks\<rparr>"] v by (simp add: unlocked_def)
  have "?R r (v\<lparr>w_webhooks := hooks\<rparr>)" if won for r hooks
  proof (cases r)
    case (Inl x)
    have dead: "dead_ok X (w_db (v\<lparr>w_webhooks := hooks\<rparr>)) m"
      using compl [OF that] job_in_dump [OF body] body by (auto simp: dead_ok_def tts_body_def model_dump_json_def)
    have "goes (\<lambda>r' w'. r' = Inr () \<and> outcome st nb Hs X w Q_STITCH m w')
        (route_failed (context_of st wid) Q_STITCH m x) (v\<lparr>w_webhooks := hooks\<rparr>)"
      by (rule routed_outcome [OF live_names(3) c ds _ dead f]) (use v in \<open>simp_all add: unlocked_def context_of_def\<close>)
    then show ?thesis by (simp only: Inl sum.case)
  qed (use ret in simp)
  then show ?thesis using ret [of "()" "w_webhooks v"] by (auto intro: goes_notify)
qed

lemma calm_stitch:
  assumes ok: "db_ok st w" and aud: "tasks_have_audio st w" and body: "m_body m = model_dump_json (StitchReady e jid)"
    and job: "get_job (w_db w) jid = Some j" and c: "get_retry_count m = Inr c" "0 \<le> c" and ds: "delays_ok st"
    and f: "fits st nb Hs X w" and u: "unlocked Hs w"
  shows "goes (\<lambda>r w'. r = Inr Acked \<and> outcome st nb Hs X w Q_STITCH m w') (make_stitch_handler (context_of st wid) m) w"
proof -
  let ?ctx = "context_of st wid" and ?O = "\<lambda>r w'. r = Inr () \<and> outcome st nb Hs X w Q_STITCH m w'"
  have bk: "BUCKET \<in> set (buckets (w_minio w))"
    using db_ok_D(7) [OF ok job] by (auto simp: get_text_def get_bytes_def bind_res_Inr_iff split: if_splits)
  have handler: "goes (\<lambda>r. case r of Inl x \<Rightarrow> goes ?O (route_failed ?ctx Q_STITCH m x) | Inr _ \<Rightarrow> outcome st nb Hs X w Q_STITCH m)
      (handle_stitch ?ctx (StitchReady e jid)) w" (is "goes ?R _ _")
  proof (cases "j_status j = COMPLETED")
    case True
    have "outcome st nb Hs X w Q_STITCH m w" by (rule silent_outcome [OF body f u]) simp_all
    then show ?thesis using job True by (simp add: handle_stitch_def Let_def goes_pbind goes_read)
  next
    case False
    let ?d1 = "fst (advance_status (w_db w) jid STITCHING)"
    let ?fin = "finalize_job ?d1 jid (final_key_of jid)"
    let ?f = "\<lambda>k. case get_bytes (w_minio w) k of Inr x \<Rightarrow> x | Inl _ \<Rightarrow> []"
    let ?data = "concat (map ?f (chunk_keys (w_db w) jid))"
    let ?v = "w\<lparr>w_minio := assembled jid ?data (w_minio w), w_db := fst ?fin\<rparr>"
    obtain j1 where j1: "get_job ?d1 jid = Some j1" using job by (auto simp: advance_job)
    have get: "goes Q (pmap (chunk_keys (w_db w) jid) (\<lambda>key. minio_get (\<lambda>s. get_bytes s key))) (w\<lparr>w_db := ?d1\<rparr>) =
        Q (Inr (map ?f (chunk_keys (w_db w) jid))) (w\<lparr>w_db := ?d1\<rparr>)" for Q
      using chunks_found [OF aud] by (intro goes_pmap_get) simp
    have put: "put_bytes (w_minio w) (final_key_of jid) data ''audio/mpeg'' = Inr (assembled jid data (w_minio w))" for data
      using bk by (simp add: put_bytes_def assembled_def)
    have "goes ?R (if snd ?fin then notify ?ctx jid else Ret ()) ?v"
    proof (rule notified_outcome [OF body c ds f])
      show "snd ?fin \<Longrightarrow> status_in (w_db ?v) jid {COMPLETED}"
        using finalize_completes [OF wf_advance [OF db_ok_D(1) [OF ok]] j1] by simp
      have "calm_change X (w_db w) (fst ?fin)" by (rule calm_change_trans [OF calm_advance calm_finalize]) simp_all
      then show "calm_change X (w_db w) (w_db ?v)" by simp
      show "get_text (w_minio ?v) (manuscript_key_of i) = get_text (w_minio w) (manuscript_key_of i)" for i
        by (simp add: get_text_def get_bytes_def assembled_def update_conv)
    qed (use u in \<open>simp_all add: unlocked_def\<close>)
    with False job put show ?thesis
      by (simp add: handle_stitch_def Let_def goes_pbind goes_read goes_effects split_beta get)
  qed
  show ?thesis
    unfolding make_stitch_handler_def
    by (rule goes_ack_outcome) (use body handler in \<open>simp add: goes_pbind goes_ask goes_plift\<close>)
qed

section \<open>A dead letter\<close>

lemma calm_dlq:
  assumes "m_body m = model_dump_json ev" and "dead_ok X (w_db w) m" and f: "fits st nb Hs X w" and u: "unlocked Hs w"
  shows "goes (\<lambda>r w'. r = Inr Acked \<and> outcome st nb Hs X w Q_DLQ m w') (make_dlq_handler (context_of st wid) m) w"
proof -
  let ?jid = "job_id ev" and ?d = "fst (advance_status (w_db w) (job_id ev) FAILED)"
  have jid: "job_in m = ?jid" by (rule job_in_dump [OF assms(1)])
  have "\<exists>e. m_body m = model_dump_json (JobCreated e ?jid) \<or> m_body m = model_dump_json (StitchReady e ?jid)"
    using assms(1,2) by (cases ev) (auto simp: dead_ok_def tts_body_def)
  then obtain e where "handle_dlq (context_of st wid) m = pbind (transaction (dlq_fail_job (JStr ?jid))) (\<lambda>_. Ret ())"
    using handle_dlq_job by metis
  moreover have "outcome st nb Hs X w Q_DLQ m (w\<lparr>w_db := ?d\<rparr>)"
  proof (rule outcome_send [OF f, where pubs = "[]"])
    have "calm_change X (w_db w) ?d" by (rule calm_advance) (use assms(2) jid in \<open>auto simp: dead_ok_def\<close>)
    then show "calm_change X (w_db w) (w_db (w\<lparr>w_db := ?d\<rparr>))" by simp
    show "lighter st nb Q_DLQ m []" by (simp add: lighter_def weight_def)
    show "\<exists>(k, m') \<in> set []. has k m' (NCreated i)" if "has Q_DLQ m (NCreated i)" "status_in (w_db (w\<lparr>w_db := ?d\<rparr>)) i {PENDING}" for i
    proof -
      from that(1) have "job_in m = i" by (auto simp: has_def dest!: job_in_dump elim: duty_of.elims)
      then have "i = ?jid" using jid by simp
      then have "\<not> status_in ?d i {PENDING}" by (auto simp: status_in_def advance_job can_transition_iff split: if_splits)
      with that(2) show ?thesis by simp
    qed
  qed (use u in \<open>simp_all add: unlocked_def sent_def\<close>)
  ultimately show ?thesis
    by (simp add: make_dlq_handler_def goes_pbind goes_ptry goes_effects dlq_fail_job_def split_beta)
qed

end
