(* ===== verification/Recovery.thy ===== *)
theory Recovery
  imports Drain_Stages
begin

text \<open>
  The system can always finish: from every reachable state in which no block lies in the dead-letter
  queue there is a continuation, without a fault, after which all queues are empty and every job has
  ended. The continuation: the workers crash, time passes, one pass of the reaper and one of the
  sweeper, and then the messages one by one.
\<close>

section \<open>The weight of all messages\<close>

definition total :: "Settings \<Rightarrow> (string \<Rightarrow> nat) \<Rightarrow> string set \<Rightarrow> broker \<Rightarrow> nat" where
  "total st nb K b = (\<Sum>q\<in>K. sum_list (map (weight st nb q) (msgs_in b q)))"

lemma total_take:
  assumes "finite K" and "q \<in> K" and "wf_broker b" and "take_msg q b = Some (m, b')"
  shows "total st nb K b = weight st nb q m + total st nb K b'"
proof -
  have "(\<Sum>k\<in>K - {q}. sum_list (map (weight st nb k) (msgs_in b k))) = (\<Sum>k\<in>K - {q}. sum_list (map (weight st nb k) (msgs_in b' k)))"
    by (rule sum.cong) (simp_all add: take_msg_D(4) [OF assms(3,4)])
  then show ?thesis
    unfolding total_def sum.remove [OF assms(1,2)] by (simp add: take_msg_D(3) [OF assms(3,4)])
qed

lemma total_put:
  assumes "finite K" and "k \<in> K" and "wf_broker b"
  shows "total st nb K (exchange_publish b m k) \<le> weight st nb k m + total st nb K b"
proof -
  have "(\<Sum>q\<in>K - {k}. sum_list (map (weight st nb q) (msgs_in (exchange_publish b m k) q))) =
      (\<Sum>q\<in>K - {k}. sum_list (map (weight st nb q) (msgs_in b q)))"
    by (rule sum.cong) (simp_all add: amqp.contents_put [OF assms(3)])
  then show ?thesis
    unfolding total_def sum.remove [OF assms(1,2)] by (simp add: amqp.contents_put [OF assms(3)])
qed

lemma sent_Cons: "sent ((k, m) # pubs) b = sent pubs (exchange_publish b m k)"
  by (simp add: sent_def)

lemma total_sent:
  assumes "finite K" and "wf_broker b" and "\<And>k m. (k, m) \<in> set pubs \<Longrightarrow> k \<in> K"
  shows "total st nb K (sent pubs b) \<le> sum_list (map (\<lambda>(k, m). weight st nb k m) pubs) + total st nb K b"
  using assms(2,3)
proof (induction pubs arbitrary: b)
  case Nil
  then show ?case by (simp add: sent_def)
next
  case (Cons p pubs)
  obtain k m where p: "p = (k, m)" by (cases p)
  have "k \<in> K" using Cons.prems(2) [of k m] p by simp
  from total_put [OF assms(1) this Cons.prems(1)] have "total st nb K (exchange_publish b m k) \<le> weight st nb k m + total st nb K b" .
  moreover have "total st nb K (sent pubs (exchange_publish b m k)) \<le>
      sum_list (map (\<lambda>(k, m). weight st nb k m) pubs) + total st nb K (exchange_publish b m k)"
    using Cons.prems by (intro Cons.IH) (auto simp: amqp.wf_put)
  ultimately show ?case by (simp add: p sent_Cons)
qed

text \<open>What the queues hold afterwards.\<close>

lemma topo_target: "topo_ok st b \<Longrightarrow> k \<in> targets st \<Longrightarrow> bound b k"
  by (auto simp: topo_ok_def targets_def)

lemma msgs_sent:
  assumes "topo_ok st b" and "\<And>k m. (k, m) \<in> set pubs \<Longrightarrow> k \<in> targets st"
  shows "topo_ok st (sent pubs b) \<and> set (msgs_in (sent pubs b) q) = set (msgs_in b q) \<union> {m. (q, m) \<in> set pubs}"
  using assms
proof (induction pubs arbitrary: b)
  case Nil
  then show ?case by (simp add: sent_def)
next
  case (Cons p pubs)
  obtain k m where p: "p = (k, m)" by (cases p)
  then have "bound b k" using topo_target [OF Cons.prems(1)] Cons.prems(2) [of k m] by simp
  from msgs_put [OF Cons.prems(1) this] have put: "set (msgs_in (exchange_publish b m k) q) = set (msgs_in b q) \<union> (if q = k then {m} else {})" .
  have "topo_ok st (sent pubs (exchange_publish b m k)) \<and>
      set (msgs_in (sent pubs (exchange_publish b m k)) q) = set (msgs_in (exchange_publish b m k) q) \<union> {m. (q, m) \<in> set pubs}"
    using Cons.prems topo_ok_put by (intro Cons.IH) auto
  then show ?case by (auto simp: p sent_Cons put)
qed

lemma finite_targets: "delays_ok st \<Longrightarrow> finite (targets st)"
proof -
  assume "delays_ok st"
  then obtain ds where "retry_delays st = Inr ds" by (auto simp: delays_ok_def)
  then have "targets st \<subseteq> set (Q_DLQ # live_queues) \<union> (\<lambda>(l, d). retry_q_name l d) ` (set live_queues \<times> set ds)"
    by (auto simp: targets_def)
  then show ?thesis by (rule finite_subset) simp
qed

section \<open>One message\<close>

text \<open>A state at rest whose queues can be drained.\<close>

definition drainable :: "Settings \<Rightarrow> (exn \<Rightarrow> bool) \<Rightarrow> sys \<Rightarrow> (string \<Rightarrow> nat) \<Rightarrow> string set \<Rightarrow> string set \<Rightarrow> string set \<Rightarrow> world \<Rightarrow> string set \<Rightarrow> bool" where
  "drainable st esc s0 nb Hs X K w D \<longleftrightarrow> sys_reach st esc no_block_given_up s0 (resting w D) \<and> finite D
    \<and> fits st nb Hs X w \<and> unlocked Hs w \<and> support (w_broker w) \<subseteq> K
    \<and> (\<forall>m \<in> set (msgs_in (w_broker w) Q_DLQ). dead_ok X (w_db w) m)
    \<and> (\<forall>jid. status_in (w_db w) jid {PENDING} \<longrightarrow> NCreated jid \<in> in_queues (w_broker w))"

text \<open>After a delivery that left its outcome.\<close>

lemma drainable_outcome:
  assumes dr: "drainable st esc s0 nb Hs X K w D" and K: "finite K" "targets st \<subseteq> K" and topo: "topo_ok st (w_broker w)"
    and tk: "take_msg q (w_broker w) = Some (m, b)" and out: "outcome st nb Hs X (w\<lparr>w_broker := b\<rparr>) q m w'"
    and reach: "sys_reach st esc no_block_given_up s0 (resting w' D')" "finite D'"
  shows "drainable st esc s0 nb Hs X K w' D' \<and> total st nb K (w_broker w') < total st nb K (w_broker w)
    \<and> calm_change X (w_db w) (w_db w')"
proof -
  have wf: "wf_broker (w_broker w)" using topo by (simp add: topo_ok_def)
  note t = take_msg_D [OF wf tk]
  from out obtain pubs where pubs: "w_broker w' = sent pubs b" "lighter st nb q m pubs" "fits st nb Hs X w'" "unlocked Hs w'"
    "calm_change X (w_db w) (w_db w')" "\<And>m'. (Q_DLQ, m') \<in> set pubs \<Longrightarrow> dead_ok X (w_db w') m'"
    "\<And>jid. has q m (NCreated jid) \<Longrightarrow> status_in (w_db w') jid {PENDING} \<Longrightarrow> \<exists>(k, m') \<in> set pubs. has k m' (NCreated jid)"
    by (auto simp: outcome_def)
  have tg: "k \<in> targets st" if "(k, m') \<in> set pubs" for k m' using pubs(2) that by (auto simp: lighter_def)
  have topo': "topo_ok st b" using topo t(1,2) by (simp add: topo_ok_def)
  have ms: "set (msgs_in (sent pubs b) k) = set (msgs_in b k) \<union> {m. (k, m) \<in> set pubs}" for k
    by (rule conjunct2 [OF msgs_sent [OF topo' tg]])
  have "q \<in> support (w_broker w)" using t(3) by (simp add: support_def)
  then have q: "q \<in> K" using dr by (auto simp: drainable_def)
  have "total st nb K (sent pubs b) \<le> sum_list (map (\<lambda>(k, m). weight st nb k m) pubs) + total st nb K b"
    using K tg t(1) by (intro total_sent) auto
  then have less: "total st nb K (w_broker w') < total st nb K (w_broker w)"
    using pubs(1,2) total_take [OF K(1) q wf tk] by (simp add: lighter_def)
  have old: "set (msgs_in b k) \<subseteq> set (msgs_in (w_broker w) k)" for k using t(3) t(4) [of k] by (cases "k = q") auto
  have "support (w_broker w') \<subseteq> K"
  proof
    fix k assume "k \<in> support (w_broker w')"
    then obtain m' where "m' \<in> set (msgs_in b k) \<or> (k, m') \<in> set pubs" using ms [of k] by (auto simp: in_support pubs(1))
    then have "k \<in> support (w_broker w) \<or> k \<in> targets st" using old [of k] tg by (auto simp: in_support)
    then show "k \<in> K" using dr K(2) by (auto simp: drainable_def)
  qed
  moreover have "dead_ok X (w_db w') m'" if "m' \<in> set (msgs_in (w_broker w') Q_DLQ)" for m'
    using that old [of Q_DLQ] ms [of Q_DLQ] dr pubs(6) dead_ok_kept [OF _ pubs(5)] by (auto simp: pubs(1) drainable_def)
  moreover have "NCreated jid \<in> in_queues (w_broker w')" if "status_in (w_db w') jid {PENDING}" for jid
  proof -
    from that pubs(5) have "status_in (w_db w) jid {PENDING}"
      by (auto simp: status_in_def milder_def dest: calm_change_D(2))
    then obtain k m0 where m0: "m0 \<in> set (msgs_in (w_broker w) k)" "has k m0 (NCreated jid)"
      using dr by (auto simp: drainable_def in_queues_def)
    show ?thesis
    proof (cases "m0 \<in> set (msgs_in b k)")
      case True
      then show ?thesis using m0(2) ms [of k] by (auto simp: in_queues_def pubs(1))
    next
      case False
      then have k: "k = q" using m0(1) t(4) [of k] by (cases "k = q") simp_all
      moreover from this False have "m0 = m" using m0(1) t(3) by simp
      ultimately have "has q m (NCreated jid)" using m0(2) by simp
      from pubs(7) [OF this that] obtain k' m' where "(k', m') \<in> set pubs" "has k' m' (NCreated jid)" by blast
      then show ?thesis using ms [of k'] by (auto simp: in_queues_def pubs(1))
    qed
  qed
  ultimately show ?thesis using reach pubs(3-5) less by (simp add: drainable_def)
qed

lemma sys_reach_trans: "sys_reach st esc P s0 s1 \<Longrightarrow> sys_reach st esc P s1 s2 \<Longrightarrow> sys_reach st esc P s0 s2"
  by (rotate_tac, induction rule: sys_reach.induct) (auto intro: sys_reach.step)

lemma at_rest:
  assumes "booted st w0" and "delays_ok st" and "esc InfraError" and "sys_reach st esc no_block_given_up (sys_of w0) (resting w D)"
  shows "db_ok st w" "topo_ok st (w_broker w)" "m \<in> set (msgs_in (w_broker w) q) \<Longrightarrow> msg_ok (w_db w) q m"
    "driven (w_db w) (in_queues (w_broker w))" "tasks_have_audio st w"
proof -
  have "sys_ok st esc (resting w D)" by (rule sys_ok_reach [OF assms(4) booted_ok [OF assms(1,2)] assms(2,3)])
  then have "choreo st w [] [] D" by (simp add: sys_ok_def resting_def)
  then show "db_ok st w" "topo_ok st (w_broker w)" "m \<in> set (msgs_in (w_broker w) q) \<Longrightarrow> msg_ok (w_db w) q m"
    "driven (w_db w) (in_queues (w_broker w))"
    by (simp_all add: choreo_def carried_def)
  show "tasks_have_audio st w" using audio_reach [OF assms] by (simp add: audio_sys_def audio_ok_def resting_def)
qed

lemma aside_broker [simp]:
  "fits st nb Hs X (w\<lparr>w_broker := b\<rparr>) = fits st nb Hs X w" "unlocked Hs (w\<lparr>w_broker := b\<rparr>) = unlocked Hs w"
  "db_ok st (w\<lparr>w_broker := b\<rparr>) = db_ok st w" "tasks_have_audio st (w\<lparr>w_broker := b\<rparr>) = tasks_have_audio st w"
  by (simp_all add: fits_def unlocked_def db_ok_def tasks_have_audio_def blks_def in_store_def)

text \<open>A message whose delay has passed.\<close>

lemma expire_outcome:
  assumes "wf_broker b0" and "take_msg q b0 = Some (m, b)" and "q \<notin> set (Q_DLQ # live_queues)"
    and "fits st nb Hs X w" and "unlocked Hs w"
  shows "\<exists>l. expire_head b0 q = Some (exchange_publish b m l)
    \<and> outcome st nb Hs X (w\<lparr>w_broker := b\<rparr>) q m (w\<lparr>w_broker := exchange_publish b m l\<rparr>)"
proof -
  from assms(2) obtain qu ms where qu: "b_queues b0 q = Some qu" "q_msgs qu = m # ms"
    "b = b0\<lparr>b_queues := (b_queues b0)(q := Some (qu\<lparr>q_msgs := ms\<rparr>))\<rparr>"
    by (auto simp: take_msg_def split: option.splits list.splits)
  have "queue_args_ok q qu" using assms(1) qu(1) by (simp add: wf_broker_def)
  then obtain l d where l: "l \<in> set live_queues" "q = retry_q_name l d" "q_dlx qu = Some (EXCHANGE, l)"
    using assms(3) unfolding queue_args_ok_def by auto
  have "expire_head b0 q = Some (exchange_publish b m l)" using qu l(3) by (simp add: expire_head_def)
  moreover have "outcome st nb Hs X (w\<lparr>w_broker := b\<rparr>) q m (w\<lparr>w_broker := exchange_publish b m l\<rparr>)"
  proof (rule outcome_send [where pubs = "[(l, m)]"])
    show "lighter st nb q m [(l, m)]" using weight_expire [OF l(1)] l(1,2) by (simp add: lighter_def targets_def)
    show "\<exists>(k, m') \<in> set [(l, m)]. has k m' (NCreated i)" if "has q m (NCreated i)" for i
      using has_expired [OF l(1), of d] that l(2) by simp
    show "dead_ok X (w_db (w\<lparr>w_broker := exchange_publish b m l\<rparr>)) m'" if "(Q_DLQ, m') \<in> set [(l, m)]" for m'
      using that live_not_dlq [OF l(1)] by simp
  qed (use assms(4,5) in \<open>simp_all add: sent_def\<close>)
  ultimately show ?thesis by blast
qed

text \<open>A delivery.\<close>

lemma delivery_outcome:
  assumes ok: "db_ok st w" "tasks_have_audio st w" and m: "msg_ok (w_db w) q m" and q: "q \<in> set (Q_DLQ # live_queues)"
    and dead: "q = Q_DLQ \<Longrightarrow> dead_ok X (w_db w) m" and f: "fits st nb Hs X w" and u: "unlocked Hs w"
    and set: "delays_ok st" "0 < CACHE_TTL_S st" "PARSE_FAILURE_RATE st \<le> 1"
  shows "\<exists>h. map_of (all_handlers (context_of st wid)) q = Some h
    \<and> goes (\<lambda>r w'. r = Inr Acked \<and> outcome st nb Hs X w q m w') (h m) w"
proof (cases "q = Q_DLQ")
  case True
  then obtain ev where "m_body m = model_dump_json ev" using m by (auto simp: msg_ok_def)
  from calm_dlq [OF this dead [OF True] f u] show ?thesis using True by simp
next
  case False
  with m obtain ev c where ev: "m_body m = model_dump_json ev" "get_retry_count m = Inr c" "0 \<le> c" "queue_for q ev" "duty_fits (w_db w) (duty_of ev)"
    by (auto simp: msg_ok_def)
  from q False have "q \<in> set live_queues" by simp
  with ev(4) have route: "q = route_of ev" using live_not_retry(2) by (auto simp: queue_for_def)
  show ?thesis
  proof (cases ev)
    case (JobCreated e jid)
    with ev(5) obtain j where "get_job (w_db w) jid = Some j" by auto
    from calm_parse [OF ok(1) _ this ev(2,3) set(1) f u set(3)] ev(1) show ?thesis
      using JobCreated route by simp
  next
    case (TtsRequested e jid tid)
    with calm_tts [OF ok(1) _ _ f u set(2)] ev(1,5) show ?thesis using route by simp
  next
    case (StitchReady e jid)
    then obtain j where "get_job (w_db w) jid = Some j" using duty_fits_exists [OF ev(5)] by auto
    from calm_stitch [OF ok _ this ev(2,3) set(1) f u] ev(1) show ?thesis
      using StitchReady route by simp
  qed
qed

lemma alone_given_up:
  "\<not> (q = Q_DLQ \<and> tts_body m) \<Longrightarrow> s_procs s = [] \<or> s_procs s = [\<lparr>p_worker = wid, p_queue = q, p_msg = m, p_prog = p\<rparr>] \<Longrightarrow>
    no_block_given_up s"
  by (auto simp: no_block_given_up_def tts_body_def)

text \<open>One message is taken, by a worker or because its delay has passed.\<close>

lemma drain_step:
  assumes boot: "booted st w0" and set: "delays_ok st" "0 < CACHE_TTL_S st" "PARSE_FAILURE_RATE st \<le> 1" and esc: "esc InfraError"
    and s0: "sys_reach st esc no_block_given_up (sys_of w0) s0"
    and dr: "drainable st esc s0 nb Hs X K w D" and K: "finite K" "targets st \<subseteq> K" and q: "q \<in> support (w_broker w)"
  shows "\<exists>w' D'. drainable st esc s0 nb Hs X K w' D' \<and> total st nb K (w_broker w') < total st nb K (w_broker w)
    \<and> calm_change X (w_db w) (w_db w')"
proof -
  have r: "sys_reach st esc no_block_given_up s0 (resting w D)" "finite D" using dr by (simp_all add: drainable_def)
  note rest = at_rest [OF boot set(1) esc sys_reach_trans [OF s0 r(1)]]
  have wf: "wf_broker (w_broker w)" using rest(2) by (simp add: topo_ok_def)
  from q obtain m ms where "msgs_in (w_broker w) q = m # ms" by (auto simp: support_def neq_Nil_conv)
  then obtain b where tk: "take_msg q (w_broker w) = Some (m, b)" by (rule take_msg_ok [OF wf])
  have f: "fits st nb Hs X w" "unlocked Hs w" using dr by (simp_all add: drainable_def)
  note t = take_msg_D [OF wf tk]
  note next_state = drainable_outcome [OF dr K rest(2) tk]
  show ?thesis
  proof (cases "q \<in> set (Q_DLQ # live_queues)")
    case True
    have m: "msg_ok (w_db w) q m" using rest(3) t(3) by simp
    have dead: "dead_ok X (w_db w) m" if "q = Q_DLQ" using dr t(3) that by (simp add: drainable_def)
    have sane: "\<not> (q = Q_DLQ \<and> tts_body m)" using dead by (auto simp: dead_ok_def)
    have "\<exists>h. map_of (all_handlers (context_of st ''w'')) q = Some h
        \<and> goes (\<lambda>r w'. r = Inr Acked \<and> outcome st nb Hs X (w\<lparr>w_broker := b\<rparr>) q m w') (h m) (w\<lparr>w_broker := b\<rparr>)"
      by (rule delivery_outcome [OF _ _ _ True _ _ _ set]) (use rest(1,5) m dead f in simp_all)
    then obtain h where h: "map_of (all_handlers (context_of st ''w'')) q = Some h"
      "goes (\<lambda>r w'. r = Inr Acked \<and> outcome st nb Hs X (w\<lparr>w_broker := b\<rparr>) q m w') (h m) (w\<lparr>w_broker := b\<rparr>)" by blast
    have "\<exists>w' D'. outcome st nb Hs X (w\<lparr>w_broker := b\<rparr>) q m w' \<and> finite D' \<and> sys_reach st esc no_block_given_up s0 (resting w' D')"
      by (rule calm_delivery [OF r tk h]) (rule alone_given_up [OF sane])
    then obtain w' D' where w': "outcome st nb Hs X (w\<lparr>w_broker := b\<rparr>) q m w'" "finite D'"
      "sys_reach st esc no_block_given_up s0 (resting w' D')" by blast
    from next_state [OF w'(1,3,2)] show ?thesis by blast
  next
    case False
    from expire_outcome [OF wf tk False f] obtain l where l: "expire_head (w_broker w) q = Some (exchange_publish b m l)"
      "outcome st nb Hs X (w\<lparr>w_broker := b\<rparr>) q m (w\<lparr>w_broker := exchange_publish b m l\<rparr>)" by blast
    have "sys_step st esc (resting w D) ((resting w D)\<lparr>s_world := (s_world (resting w D))\<lparr>w_broker := exchange_publish b m l\<rparr>\<rparr>)"
      by (rule sys_step.expire [where q = q]) (simp add: resting_def l(1))
    then have "sys_reach st esc no_block_given_up s0 (resting (w\<lparr>w_broker := exchange_publish b m l\<rparr>) D)"
      using sys_reach.step [OF r(1)] by (simp add: resting_def no_block_given_up_def)
    from next_state [OF l(2) this r(2)] show ?thesis by blast
  qed
qed

lemma drain:
  assumes boot: "booted st w0" and set: "delays_ok st" "0 < CACHE_TTL_S st" "PARSE_FAILURE_RATE st \<le> 1" and esc: "esc InfraError"
    and s0: "sys_reach st esc no_block_given_up (sys_of w0) s0"
    and dr: "drainable st esc s0 nb Hs X K w D" and K: "finite K" "targets st \<subseteq> K"
  shows "\<exists>w' D'. drainable st esc s0 nb Hs X K w' D' \<and> support (w_broker w') = {} \<and> calm_change X (w_db w) (w_db w')"
  using dr
proof (induction "total st nb K (w_broker w)" arbitrary: w D rule: less_induct)
  case less
  show ?case
  proof (cases "support (w_broker w) = {}")
    case True
    then show ?thesis using less.prems calm_change_refl by blast
  next
    case False
    then obtain q where "q \<in> support (w_broker w)" by blast
    from drain_step [OF boot set esc s0 less.prems K this] obtain w1 D1 where w1: "drainable st esc s0 nb Hs X K w1 D1"
      "total st nb K (w_broker w1) < total st nb K (w_broker w)" "calm_change X (w_db w) (w_db w1)" by blast
    from less.hyps [OF w1(2,1)] obtain w' D' where "drainable st esc s0 nb Hs X K w' D'" "support (w_broker w') = {}"
      "calm_change X (w_db w1) (w_db w')" by blast
    then show ?thesis using calm_change_trans [OF w1(3)] by blast
  qed
qed

section \<open>Before the messages\<close>

text \<open>The jobs that cannot be completed any more.\<close>

definition doomed :: "sys \<Rightarrow> string set" where
  "doomed s = {jid. status_in (w_db (s_world s)) jid {FAILED}} \<union> job_in ` dead_letters s
    \<union> {jid. \<exists>ms. get_text (w_minio (s_world s)) (manuscript_key_of jid) = Inr ms \<and> contains POISON_MARKER ms}"

lemma fits_start:
  "fits st (\<lambda>jid. length (blks st (s_world s) jid)) (\<Union>j \<in> set (jobs (w_db (s_world s))). hash_of ` set (blks st (s_world s) (j_id j)))
    (doomed s) (s_world s)"
  unfolding fits_def
proof (intro allI impI)
  fix jid j assume j: "get_job (w_db (s_world s)) jid = Some j"
  then have "j \<in> set (jobs (w_db (s_world s)))" "j_id j = jid" using row_get_SomeD by fast+
  then show "length (blks st (s_world s) jid) \<le> length (blks st (s_world s) jid)
    \<and> hash_of ` set (blks st (s_world s) jid) \<subseteq> (\<Union>j \<in> set (jobs (w_db (s_world s))). hash_of ` set (blks st (s_world s) (j_id j)))
    \<and> (j_status j = FAILED \<longrightarrow> jid \<in> doomed s)
    \<and> (\<forall>ms. get_text (w_minio (s_world s)) (manuscript_key_of jid) = Inr ms \<longrightarrow> contains POISON_MARKER ms \<longrightarrow> jid \<in> doomed s)"
    using j by (auto simp: doomed_def status_in_def)
qed

text \<open>Time passes and the reaper runs: the pool has a token again, and no lock is left.\<close>

definition waited :: "nat \<Rightarrow> world \<Rightarrow> world" where
  "waited dt w = w\<lparr>w_redis := redis_tick (w_redis w) dt, w_db := (w_db w)\<lparr>db_now := db_now (w_db w) + int dt\<rparr>\<rparr>"

lemma wait_reach:
  assumes "sys_reach st esc no_block_given_up s0 (resting w D)" and "finite D" and "expiring (w_redis w)" and "finite Hs"
    and "0 < TTS_CONCURRENCY st"
  shows "\<exists>w' D'. sys_reach st esc no_block_given_up s0 (resting w' D') \<and> finite D' \<and> unlocked Hs w'
    \<and> w_broker w' = w_broker w \<and> w_minio w' = w_minio w \<and> (\<exists>now. w_db w' = (w_db w)\<lparr>db_now := now\<rparr>)
    \<and> (\<forall>j \<in> set (jobs (w_db w')). j_created_at j < db_now (w_db w') - PENDING_TIMEOUT_S st)"
proof -
  let ?sem = "semaphore (context_of st ''w'')"
  from enough_time [OF assms(3,4), of "pool_tokens ?sem" "jobs (w_db w)" "db_now (w_db w)" "PENDING_TIMEOUT_S st"] obtain dt where
    dt: "\<forall>t \<in> set (pool_tokens ?sem). redis_get (redis_tick (w_redis w) dt) (lease_key t) = None"
    "\<forall>h \<in> Hs. redis_get (redis_tick (w_redis w) dt) (inflight_key h) = None"
    "\<forall>j \<in> set (jobs (w_db w)). j_created_at j < db_now (w_db w) + int dt - PENDING_TIMEOUT_S st" by blast
  have "sys_step st esc (resting w D) (resting (waited dt w) D)"
    using sys_step.tick [of st esc "resting w D" dt] by (simp add: resting_def waited_def)
  then have r: "sys_reach st esc no_block_given_up s0 (resting (waited dt w) D)"
    by (rule sys_reach.step [OF assms(1)]) (simp add: resting_def no_block_given_up_def)
  let ?w = "(waited dt w)\<lparr>w_redis := reaped ?sem (pool_tokens ?sem) (w_redis (waited dt w))\<rparr>"
  have "\<exists>w' D'. w' = ?w \<and> finite D' \<and> sys_reach st esc no_block_given_up s0 (resting w' D')"
    by (rule calm_task [OF r assms(2) background.reaper [where wid = "''w''"]])
       (simp_all add: goes_reap_pass no_block_given_up_def)
  then obtain D' where D': "finite D'" "sys_reach st esc no_block_given_up s0 (resting ?w D')" by blast
  obtain toks where toks: "pool_tokens ?sem = nat_str 0 # toks"
    using assms(5) by (simp add: pool_tokens_def context_of_def upt_conv_Cons)
  have "r_list (redis_tick (w_redis w) dt) (lease_key (nat_str 0)) = []" using assms(3) by (simp add: expiring_def redis_tick_def)
  with dt(1) toks have "r_list (w_redis ?w) (slots_key ?sem) \<noteq> []"
    using reaped_nonempty [of "redis_tick (w_redis w) dt" "nat_str 0" ?sem toks] by (simp add: waited_def)
  then have "unlocked Hs ?w" using dt(2) by (simp add: unlocked_def waited_def context_of_def)
  then show ?thesis using D' dt(3) by (intro exI [of _ ?w] exI [of _ D']) (auto simp: waited_def)
qed

text \<open>The sweeper runs.\<close>

lemma jobs_purge [simp]: "jobs (fst (purge_processed_events d n)) = jobs d"
  by (simp add: purge_processed_events_def Let_def)

lemma sweep_reach:
  assumes r: "sys_reach st esc no_block_given_up s0 (resting w D)" "finite D" and topo: "topo_ok st (w_broker w)"
    and f: "fits st nb Hs X w" and u: "unlocked Hs w" and K: "support (w_broker w) \<subseteq> K" "targets st \<subseteq> K"
    and dead: "\<forall>m \<in> set (msgs_in (w_broker w) Q_DLQ). dead_ok X (w_db w) m"
    and old: "\<forall>j \<in> set (jobs (w_db w)). j_created_at j < db_now (w_db w) - PENDING_TIMEOUT_S st"
  shows "\<exists>w' D'. drainable st esc s0 nb Hs X K w' D' \<and> jobs (w_db w') = jobs (w_db w)"
proof -
  let ?ids = "stale_pending (w_db w) (PENDING_TIMEOUT_S st)"
  let ?d = "fst (purge_processed_events (w_db w) (PROCESSED_EVENTS_RETENTION_S st))"
  let ?Q = "\<lambda>w'. fits st nb Hs X w' \<and> unlocked Hs w' \<and> support (w_broker w') \<subseteq> K \<and> jobs (w_db w') = jobs (w_db w)
    \<and> (\<forall>m \<in> set (msgs_in (w_broker w') Q_DLQ). dead_ok X (w_db w') m)
    \<and> (\<forall>jid. status_in (w_db w') jid {PENDING} \<longrightarrow> NCreated jid \<in> in_queues (w_broker w'))"
  have "goes (\<lambda>_. ?Q) (sweeper_pass (PENDING_TIMEOUT_S st) (PROCESSED_EVENTS_RETENTION_S st)) w"
  proof (rule goes_sweeper_pass)
    fix us :: "string list" assume us: "length us = length ?ids"
    let ?ms = "map2 (\<lambda>u jid. event_msg (JobCreated u jid)) us ?ids"
    let ?b = "sent (map (Pair Q_PARSE) ?ms) (w_broker w)"
    let ?w = "w\<lparr>w_broker := ?b, w_db := ?d\<rparr>"
    have t: "Q_PARSE \<in> targets st" by (simp add: targets_def)
    have ms: "set (msgs_in ?b q) = set (msgs_in (w_broker w) q) \<union> {m. (q, m) \<in> set (map (Pair Q_PARSE) ?ms)}" for q
      by (rule conjunct2 [OF msgs_sent [OF topo]]) (use t in auto)
    have "fits st nb Hs X ?w" by (rule fits_change [OF f]) (simp_all add: calm_change_def option.rel_refl)
    moreover have "unlocked Hs ?w" using u by (simp add: unlocked_def)
    moreover have "support ?b \<subseteq> K"
    proof
      fix k assume "k \<in> support ?b"
      then have "k \<in> support (w_broker w) \<or> k = Q_PARSE" using ms [of k] by (auto simp: in_support)
      then show "k \<in> K" using K t by blast
    qed
    moreover have "dead_ok X ?d m" if "m \<in> set (msgs_in ?b Q_DLQ)" for m
    proof -
      have "m \<in> set (msgs_in (w_broker w) Q_DLQ)" using that ms [of Q_DLQ] live_not_dlq [OF live_names(1)] by auto
      then show ?thesis using dead by (simp add: dead_ok_def status_in_def)
    qed
    moreover have "NCreated jid \<in> in_queues ?b" if "status_in ?d jid {PENDING}" for jid
    proof -
      from that obtain j where "get_job (w_db w) jid = Some j" "j_status j = PENDING" by (auto simp: status_in_def)
      then have "jid \<in> set ?ids" using old row_get_SomeD [of j_id jid "jobs (w_db w)" j] by (auto simp: stale_pending_def)
      then obtain i where i: "i < length ?ids" "?ids ! i = jid" by (auto simp: in_set_conv_nth)
      then have "event_msg (JobCreated (us ! i) jid) = ?ms ! i" "i < length ?ms" using us by simp_all
      then have "event_msg (JobCreated (us ! i) jid) \<in> set ?ms" by (simp only: nth_mem)
      then have "(Q_PARSE, event_msg (JobCreated (us ! i) jid)) \<in> set (map (Pair Q_PARSE) ?ms)"
        unfolding set_map by (rule imageI)
      then have "event_msg (JobCreated (us ! i) jid) \<in> set (msgs_in ?b Q_PARSE)" unfolding ms by blast
      moreover have "has Q_PARSE (event_msg (JobCreated (us ! i) jid)) (NCreated jid)"
        using has_route [of "event_msg (JobCreated (us ! i) jid)" "JobCreated (us ! i) jid" "NCreated jid"] by (simp add: event_msg_def)
      ultimately show ?thesis unfolding in_queues_def by blast
    qed
    ultimately have "?Q ?w" by simp
    then show "?Q (w\<lparr>w_broker := fold (\<lambda>m b. exchange_publish b m Q_PARSE) ?ms (w_broker w), w_db := ?d\<rparr>)"
      unfolding sent_map .
  qed
  from calm_task [OF r background.sweeper this] obtain w' D' where "?Q w'" "finite D'" "sys_reach st esc no_block_given_up s0 (resting w' D')"
    by (auto simp: no_block_given_up_def)
  then show ?thesis unfolding drainable_def by blast
qed

section \<open>Every job can end\<close>

lemma booted_expiring: "booted st w \<Longrightarrow> delays_ok st \<Longrightarrow> expiring (w_redis w)"
proof -
  have "expiring empty_redis" by (simp add: expiring_def empty_redis_def)
  then show "booted st w \<Longrightarrow> delays_ok st \<Longrightarrow> expiring (w_redis w)"
    using booted_redis [where wid = "''w''"] expiry.E_ensure [of "semaphore (context_of st ''w'')" empty_redis]
    by (simp add: context_of_def)
qed

lemma ready_reach:
  assumes boot: "booted st w" and set: "delays_ok st" "0 < TTS_CONCURRENCY st" and esc: "esc InfraError"
    and reach: "sys_reach st esc no_block_given_up (sys_of w) s" and dead: "\<forall>m \<in> dead_letters s. \<not> tts_body m"
  shows "\<exists>nb Hs K w' D'. drainable st esc s nb Hs (doomed s) K w' D' \<and> finite K \<and> targets st \<subseteq> K
    \<and> jobs (w_db w') = jobs (w_db (s_world s))"
proof -
  let ?nb = "\<lambda>jid. length (blks st (s_world s) jid)"
  let ?Hs = "\<Union>j \<in> set (jobs (w_db (s_world s))). hash_of ` set (blks st (s_world s) (j_id j))"
  have "no_block_given_up s" using reach by (cases rule: sys_reach.cases) auto
  then have "sys_reach st esc no_block_given_up s s" by (rule sys_reach.init)
  from rest_reach [OF this] obtain w1 where w1: "sys_reach st esc no_block_given_up s (resting w1 (s_drawn s))"
    "set (msgs_in (w_broker w1) Q_DLQ) \<subseteq> dead_letters s" "same_data (s_world s) w1" by blast
  note r1 = sys_reach_trans [OF reach w1(1)]
  have fin: "finite (support (w_broker w1))" "finite (s_drawn s)"
    using reach_finite [OF boot set(1) esc r1] by (simp_all add: resting_def)
  have "expiring (w_redis w1)" using expiring_reach [OF r1 booted_expiring [OF boot set(1)]] by (simp add: resting_def)
  moreover have "finite ?Hs" by simp
  ultimately obtain w2 D2 where w2: "sys_reach st esc no_block_given_up s (resting w2 D2)" "finite D2" "unlocked ?Hs w2"
    "w_broker w2 = w_broker w1" "w_minio w2 = w_minio w1" "\<exists>now. w_db w2 = (w_db w1)\<lparr>db_now := now\<rparr>"
    "\<forall>j \<in> set (jobs (w_db w2)). j_created_at j < db_now (w_db w2) - PENDING_TIMEOUT_S st"
    using wait_reach [OF w1(1) fin(2) _ _ set(2), of ?Hs] by blast
  have same: "jobs (w_db w2) = jobs (w_db (s_world s))" "w_minio w2 = w_minio (s_world s)"
    using w1(3) w2(5,6) by (auto simp: same_data_def)
  have f: "fits st ?nb ?Hs (doomed s) w2"
    by (rule fits_change [OF fits_start]) (simp_all add: same calm_change_def option.rel_refl)
  have dead2: "\<forall>m \<in> set (msgs_in (w_broker w2) Q_DLQ). dead_ok (doomed s) (w_db w2) m"
    using w1(2) w2(4) dead by (auto simp: dead_ok_def doomed_def)
  have "topo_ok st (w_broker w2)" by (rule at_rest(2) [OF boot set(1) esc sys_reach_trans [OF reach w2(1)]])
  from sweep_reach [OF w2(1,2) this f w2(3) _ _ dead2 w2(7), of "targets st \<union> support (w_broker w2)"] obtain w' D' where
    "drainable st esc s ?nb ?Hs (doomed s) (targets st \<union> support (w_broker w2)) w' D'" "jobs (w_db w') = jobs (w_db w2)" by blast
  moreover have "finite (targets st \<union> support (w_broker w2))" using fin(1) w2(4) finite_targets [OF set(1)] by simp
  ultimately show ?thesis using same(1) by (metis sup_ge1)
qed



end
